(* ===== verification/Prelude.thy ===== *)
theory Prelude
  imports Main "HOL-Library.Word" "HOL-Library.Char_ord" "HOL-Library.List_Lexorder"
begin

text \<open>
  What every theory of the development shares: the machine integer types, Python exceptions as
  values, the Rust \<open>Result\<close> as a sum, paths (\<open>'.'\<close>-separated strings) and the list searches the
  code writes with iterators.

  A Rust \<open>String\<close> or \<open>&str\<close> is its UTF-8 bytes, a HOL \<^typ>\<open>string\<close>; byte-wise comparison is then
  the \<open>Ord\<close> of \<open>String\<close>, which is the lexicographic order of the imported theories. The text of an
  error is kept as its format template and the list of its arguments; the rendering of an argument
  (\<open>Display\<close>, \<open>Debug\<close>) is not modelled.
\<close>

section \<open>Machine integers\<close>

type_synonym u8 = "8 word"
type_synonym u16 = "16 word"
type_synonym u32 = "32 word"
type_synonym u64 = "64 word"
type_synonym i8 = "8 word"
type_synonym i16 = "16 word"
type_synonym i32 = "32 word"
type_synonym i64 = "64 word"

text \<open>An IEEE 754 number is its bit pattern.\<close>

type_synonym f32 = "32 word"
type_synonym f64 = "64 word"

section \<open>Exceptions and results\<close>

datatype msg_arg = AStr string | ANat nat | AF64 f64

datatype msg = Msg string "msg_arg list"

text \<open>
  The exception families the extension raises. The Channel Access family carries
  \<open>(message, eca_status)\<close>, the others a message.
\<close>

datatype pyexc =
    CaError msg u32
  | CaTimeout msg u32
  | CaDisconnected msg u32
  | PvaError msg
  | PvaTimeout msg
  | PvaDisconnected msg
  | PvaRemoteError msg
  | ValueError msg
  | TypeError msg
  | KeyError msg
  | AttributeError msg
  | RuntimeError msg
  | OverflowError msg

type_synonym 'a res = "pyexc + 'a"

text \<open>The \<open>?\<close> operator, \<open>Result::map\<close> and \<open>collect::<Result<Vec<_>>>()\<close>.\<close>

fun bind_res :: "'a res \<Rightarrow> ('a \<Rightarrow> 'b res) \<Rightarrow> 'b res" where
  "bind_res (Inl e) f = Inl e"
| "bind_res (Inr x) f = f x"

fun map_res :: "('a \<Rightarrow> 'b) \<Rightarrow> 'a res \<Rightarrow> 'b res" where
  "map_res f (Inl e) = Inl e"
| "map_res f (Inr x) = Inr (f x)"

fun collect_res :: "'a res list \<Rightarrow> 'a list res" where
  "collect_res [] = Inr []"
| "collect_res (Inl e # rs) = Inl e"
| "collect_res (Inr x # rs) = map_res ((#) x) (collect_res rs)"

definition ok_or :: "'a option \<Rightarrow> pyexc \<Rightarrow> 'a res" where
  "ok_or opt e = (case opt of None \<Rightarrow> Inl e | Some x \<Rightarrow> Inr x)"

lemma bind_res_cong [fundef_cong]:
  "r = r' \<Longrightarrow> (\<And>x. r' = Inr x \<Longrightarrow> f x = g x) \<Longrightarrow> bind_res r f = bind_res r' g"
  by (cases r') auto

lemma bind_res_eq_Inr [simp]: "bind_res r f = Inr y \<longleftrightarrow> (\<exists>x. r = Inr x \<and> f x = Inr y)"
  by (cases r) auto

lemma map_res_eq_Inr [simp]: "map_res f r = Inr y \<longleftrightarrow> (\<exists>x. r = Inr x \<and> y = f x)"
  by (cases r) auto

lemma map_res_eq_Inl: "map_res f r = Inl e \<longleftrightarrow> r = Inl e"
  by (cases r) auto

lemma map_res_id [simp]: "map_res (\<lambda>x. x) r = r"
  by (cases r) auto

lemma collect_res_Inr [simp]: "collect_res (map Inr xs) = Inr xs"
  by (induction xs) auto

lemma ok_or_simps [simp]: "ok_or None e = Inl e" "ok_or (Some x) e = Inr x"
  by (simp_all add: ok_or_def)

section \<open>Searches on lists\<close>

text \<open>\<open>iter().find(..)\<close> is \<^const>\<open>find\<close>; this is \<open>iter().enumerate().find(..)\<close>.\<close>

fun find_idx :: "('a \<Rightarrow> bool) \<Rightarrow> 'a list \<Rightarrow> (nat \<times> 'a) option" where
  "find_idx P [] = None"
| "find_idx P (x # xs) =
     (if P x then Some (0, x) else map_option (\<lambda>(i, y). (Suc i, y)) (find_idx P xs))"

lemma find_idx_Some:
  "find_idx P xs = Some (i, x) \<Longrightarrow> i < length xs \<and> xs ! i = x \<and> P x \<and> (\<forall>j < i. \<not> P (xs ! j))"
proof (induction xs arbitrary: i)
  case Nil
  then show ?case by simp
next
  case (Cons y ys)
  then show ?case
    by (cases "P y") (auto simp: less_Suc_eq_0_disj)
qed

lemma find_idx_None: "find_idx P xs = None \<longleftrightarrow> (\<forall>x \<in> set xs. \<not> P x)"
  by (induction xs) auto

text \<open>The first entry with a key: \<open>fields.iter().find(|(n, _)| n == key)\<close>.\<close>

lemma map_of_find: "map_of kvs k = map_option snd (find (\<lambda>kv. fst kv = k) kvs)"
  by (induction kvs) auto

lemma map_of_find_idx: "map_of kvs k = map_option (snd \<circ> snd) (find_idx (\<lambda>kv. fst kv = k) kvs)"
  by (induction kvs) (auto simp: option.map_comp o_def case_prod_beta)

text \<open>Writing through a \<open>&mut\<close> found by name replaces the first entry with that name.\<close>

fun update_first :: "'k \<Rightarrow> 'v \<Rightarrow> ('k \<times> 'v) list \<Rightarrow> ('k \<times> 'v) list" where
  "update_first k v [] = []"
| "update_first k v ((k', v') # kvs) =
     (if k' = k then (k', v) # kvs else (k', v') # update_first k v kvs)"

lemma update_first_keys [simp]: "map fst (update_first k v kvs) = map fst kvs"
  by (induction kvs) auto

lemma update_first_length [simp]: "length (update_first k v kvs) = length kvs"
  by (induction kvs) auto

lemma map_of_update_first:
  "map_of (update_first k v kvs) k' = (if k' = k \<and> k \<in> fst ` set kvs then Some v else map_of kvs k')"
proof (induction kvs)
  case (Cons kv kvs)
  then show ?case by (cases kv) (auto, force)
qed simp

lemma update_first_id: "map_of kvs k = Some v \<Longrightarrow> update_first k v kvs = kvs"
  by (induction kvs) (auto split: if_splits)

section \<open>Paths\<close>

text \<open>\<open>path.split('.')\<close>, and the filter that drops its empty pieces.\<close>

fun split_dot :: "string \<Rightarrow> string list" where
  "split_dot [] = [[]]"
| "split_dot (c # cs) =
     (if c = CHR ''.'' then [] # split_dot cs
      else (case split_dot cs of [] \<Rightarrow> [[c]] | s # ss \<Rightarrow> (c # s) # ss))"

definition segments :: "string \<Rightarrow> string list" where
  "segments p = filter (\<lambda>s. s \<noteq> []) (split_dot p)"

lemma split_dot_nonempty [simp]: "split_dot p \<noteq> []"
  by (induction p) (auto split: list.splits)

lemma split_dot_append: "split_dot (p @ CHR ''.'' # q) = split_dot p @ split_dot q"
proof (induction p)
  case Nil
  then show ?case by simp
next
  case (Cons c p)
  then show ?case
    by (auto simp: Cons_eq_append_conv split: list.splits)
qed

lemma split_dot_no_dot: "CHR ''.'' \<notin> set p \<Longrightarrow> split_dot p = [p]"
  by (induction p) auto

lemma segments_Nil [simp]: "segments [] = []"
  by (simp add: segments_def)

lemma segments_append [simp]: "segments (p @ CHR ''.'' # q) = segments p @ segments q"
  by (simp add: segments_def split_dot_append)

text \<open>A member name as a path of one segment.\<close>

definition plain_name :: "string \<Rightarrow> bool" where
  "plain_name n \<longleftrightarrow> n \<noteq> [] \<and> CHR ''.'' \<notin> set n"

lemma segments_plain [simp]: "plain_name n \<Longrightarrow> segments n = [n]"
  by (simp add: plain_name_def segments_def split_dot_no_dot)

text \<open>A path with no empty piece; the root is the empty path.\<close>

definition clean_path :: "string \<Rightarrow> bool" where
  "clean_path p \<longleftrightarrow> p = [] \<or> [] \<notin> set (split_dot p)"

lemma clean_path_Nil [simp]: "clean_path []"
  by (simp add: clean_path_def)

lemma clean_path_plain: "plain_name n \<Longrightarrow> clean_path n"
  by (auto simp: clean_path_def plain_name_def split_dot_no_dot)

lemma clean_segments_empty: "clean_path p \<Longrightarrow> segments p = [] \<longleftrightarrow> p = []"
  by (auto simp: clean_path_def segments_def filter_empty_conv)
     (metis list.set_intros(1) neq_Nil_conv split_dot_nonempty)

text \<open>\<open>p.rfind('.')\<close> followed by \<open>&p[..i]\<close>: what precedes the last dot.\<close>

fun parent_path :: "string \<Rightarrow> string option" where
  "parent_path [] = None"
| "parent_path (c # cs) =
     (case parent_path cs of
        Some q \<Rightarrow> Some (c # q)
      | None \<Rightarrow> if c = CHR ''.'' then Some [] else None)"

lemma parent_path_length [termination_simp]: "parent_path p = Some q \<Longrightarrow> length q < length p"
  by (induction p arbitrary: q) (auto split: option.splits if_splits)

lemma parent_path_append: "CHR ''.'' \<notin> set n \<Longrightarrow> parent_path (p @ CHR ''.'' # n) = Some p"
proof (induction p)
  case Nil
  have "parent_path n = None" if "CHR ''.'' \<notin> set n" for n
    using that by (induction n) auto
  with Nil show ?case by simp
qed simp

lemma parent_path_None: "parent_path p = None \<longleftrightarrow> CHR ''.'' \<notin> set p"
  by (induction p) (auto split: option.splits)

lemma parent_path_Some:
  "parent_path p = Some q \<Longrightarrow> \<exists>n. CHR ''.'' \<notin> set n \<and> p = q @ CHR ''.'' # n"
proof (induction p arbitrary: q)
  case Nil
  then show ?case by simp
next
  case (Cons c p)
  show ?case
  proof (cases "parent_path p")
    case None
    with Cons.prems show ?thesis
      by (auto simp: parent_path_None split: if_splits)
  next
    case (Some r)
    with Cons.IH [OF Some] Cons.prems show ?thesis
      by auto
  qed
qed

text \<open>The loop \<open>while let Some(i) = p.rfind('.') { p = &p[..i]; .. }\<close>: the prefixes it visits.\<close>

fun ancestors :: "string \<Rightarrow> string list" where
  "ancestors p = (case parent_path p of None \<Rightarrow> [] | Some q \<Rightarrow> q # ancestors q)"

declare ancestors.simps [simp del]

section \<open>Strings\<close>

text \<open>\<open>str::trim\<close>: the UTF-8 encodings of the characters with the White_Space property.\<close>

definition white_space :: "string list" where
  "white_space =
     map (\<lambda>n. [char_of (n :: nat)]) [9, 10, 11, 12, 13, 32] @
     map (map (\<lambda>n. char_of (n :: nat)))
       ([[194, 133], [194, 160], [225, 154, 128]] @
        map (\<lambda>k. [226, 128, k]) ([128..<139] @ [168, 169, 175]) @
        [[226, 129, 159], [227, 128, 128]])"

fun strip_prefix :: "string \<Rightarrow> string \<Rightarrow> string option" where
  "strip_prefix [] s = Some s"
| "strip_prefix (c # cs) [] = None"
| "strip_prefix (c # cs) (d # ds) = (if c = d then strip_prefix cs ds else None)"

lemma strip_prefix_Some: "strip_prefix w s = Some r \<longleftrightarrow> s = w @ r"
  by (induction w s rule: strip_prefix.induct) auto

definition strip_any :: "string list \<Rightarrow> string \<Rightarrow> string option" where
  "strip_any ws s = List.find (\<lambda>_. True) (List.map_filter (\<lambda>w. strip_prefix w s) ws)"

lemma strip_any_length [termination_simp]:
  assumes "strip_any ws s = Some r" and "[] \<notin> set ws"
  shows "length r < length s"
proof -
  from assms(1) have "r \<in> set (List.map_filter (\<lambda>w. strip_prefix w s) ws)"
    by (auto simp: strip_any_def find_Some_iff)
  then obtain w where w: "w \<in> set ws" "strip_prefix w s = Some r"
    by (auto simp: map_filter_def)
  then have "s = w @ r" by (simp add: strip_prefix_Some)
  with w assms(2) show ?thesis by (cases w) auto
qed

lemma white_space_nonempty: "[] \<notin> set white_space"
  by (auto simp: white_space_def)

function trim_with :: "string list \<Rightarrow> string \<Rightarrow> string" where
  "trim_with ws s =
     (if [] \<in> set ws then s
      else case strip_any ws s of None \<Rightarrow> s | Some r \<Rightarrow> trim_with ws r)"
  by pat_completeness auto
termination
  by (relation "measure (\<lambda>(ws, s). length s)") (auto simp: strip_any_length)

declare trim_with.simps [simp del]

definition trim :: "string \<Rightarrow> string" where
  "trim s = rev (trim_with (map rev white_space) (rev (trim_with white_space s)))"

text \<open>\<open>to_ascii_lowercase\<close>.\<close>

definition ascii_lower :: "char \<Rightarrow> char" where
  "ascii_lower c =
     (let n = of_char c :: nat in if 65 \<le> n \<and> n \<le> 90 then char_of (n + 32) else c)"

text \<open>
  \<open>str::parse\<close> for an unsigned type of \<open>bound\<close> values: an optional \<open>+\<close>, then one or more decimal
  digits, and a value below the bound.
\<close>

definition digit_of :: "char \<Rightarrow> nat option" where
  "digit_of c = (let n = of_char c in if 48 \<le> n \<and> n \<le> 57 then Some (n - 48) else None)"

fun parse_digits :: "nat \<Rightarrow> nat \<Rightarrow> string \<Rightarrow> nat option" where
  "parse_digits bound acc [] = Some acc"
| "parse_digits bound acc (c # cs) =
     (case digit_of c of
        None \<Rightarrow> None
      | Some d \<Rightarrow> if 10 * acc + d < bound then parse_digits bound (10 * acc + d) cs else None)"

definition parse_unsigned :: "nat \<Rightarrow> string \<Rightarrow> nat option" where
  "parse_unsigned bound s =
     (let ds = (case s of CHR ''+'' # r \<Rightarrow> r | _ \<Rightarrow> s)
      in if ds = [] then None else parse_digits bound 0 ds)"

definition parse_u16 :: "string \<Rightarrow> u16 option" where
  "parse_u16 s = map_option of_nat (parse_unsigned (2 ^ 16) s)"

lemma parse_digits_bound: "acc < bound \<Longrightarrow> parse_digits bound acc s = Some n \<Longrightarrow> n < bound"
  by (induction bound acc s rule: parse_digits.induct) (auto split: option.splits if_splits)

lemma parse_unsigned_bound: "0 < bound \<Longrightarrow> parse_unsigned bound s = Some n \<Longrightarrow> n < bound"
  by (auto simp: parse_unsigned_def Let_def dest: parse_digits_bound split: if_splits)

text \<open>\<open>Display\<close> of an integer.\<close>

fun decimal :: "nat \<Rightarrow> string" where
  "decimal n = (if n < 10 then [char_of (48 + n)] else decimal (n div 10) @ [char_of (48 + n mod 10)])"

declare decimal.simps [simp del]

definition display_int :: "int \<Rightarrow> string" where
  "display_int i = (if i < 0 then ''-'' else []) @ decimal (nat \<bar>i\<bar>)"

section \<open>Ids\<close>

text \<open>The \<open>k\<close>-th value of an \<open>AtomicU32\<close> counter that starts at 1: ids wrap.\<close>

definition nth_id :: "nat \<Rightarrow> u32" where
  "nth_id k = of_nat k + 1"

lemma nth_id_inject: "j < 2 ^ 32 \<Longrightarrow> k < 2 ^ 32 \<Longrightarrow> nth_id j = nth_id k \<longleftrightarrow> j = k"
  by (auto simp: nth_id_def word_of_nat_eq_iff take_bit_nat_eq_self)

lemma nth_id_0 [simp]: "nth_id 0 = 1"
  by (simp add: nth_id_def)

lemma nth_id_Suc: "nth_id (Suc k) = nth_id k + 1"
  by (simp add: nth_id_def)

end
