(* ===== verification/PvData.thy ===== *)
theory PvData
  imports Prelude "HOL-Library.Sublist"
begin

text \<open>
  Descriptors and values of pvData as \<open>src/src/pva/value.rs\<close> takes them apart, and the helpers
  that walk them: \<open>join\<close>, \<open>desc_at\<close>, \<open>field_at\<close>, \<open>field_at_mut\<close>, \<open>children\<close> and the type codes.

  The types \<open>FieldDesc\<close>, \<open>PvField\<close>, \<open>ScalarType\<close>, \<open>ScalarValue\<close>, \<open>TypedScalarArray\<close> come from
  \<open>epics_pva_rs\<close>; their constructors are the ones the code matches on. A \<open>PvStructure\<close> is its id
  and its named fields, \<open>get_field\<close> the first field of a name. The library's bit numbering
  (\<open>total_bits\<close>, \<open>bit_for_path\<close>) is a parameter \<open>tb\<close>, \<open>bp\<close> of the definitions that use it, with
  the contracts \<open>total_bits_ok\<close> and \<open>bit_for_path_ok\<close>.
\<close>

section \<open>Scalar types and their codes\<close>

datatype scalar_type =
    StBoolean | StByte | StUByte | StShort | StUShort | StInt | StUInt | StLong | StULong
  | StFloat | StDouble | StString

fun scalar_code :: "scalar_type \<Rightarrow> string" where
  "scalar_code StBoolean = ''?''"
| "scalar_code StByte = ''b''"
| "scalar_code StUByte = ''B''"
| "scalar_code StShort = ''h''"
| "scalar_code StUShort = ''H''"
| "scalar_code StInt = ''i''"
| "scalar_code StUInt = ''I''"
| "scalar_code StLong = ''l''"
| "scalar_code StULong = ''L''"
| "scalar_code StFloat = ''f''"
| "scalar_code StDouble = ''d''"
| "scalar_code StString = ''s''"

definition scalar_from_code :: "char \<Rightarrow> scalar_type option" where
  "scalar_from_code c =
     (if c = CHR ''?'' then Some StBoolean
      else if c = CHR ''b'' then Some StByte
      else if c = CHR ''B'' then Some StUByte
      else if c = CHR ''h'' then Some StShort
      else if c = CHR ''H'' then Some StUShort
      else if c = CHR ''i'' then Some StInt
      else if c = CHR ''I'' then Some StUInt
      else if c = CHR ''l'' then Some StLong
      else if c = CHR ''L'' then Some StULong
      else if c = CHR ''f'' then Some StFloat
      else if c = CHR ''d'' then Some StDouble
      else if c = CHR ''s'' then Some StString
      else None)"

fun numpy_dtype :: "scalar_type \<Rightarrow> string" where
  "numpy_dtype StBoolean = ''bool''"
| "numpy_dtype StByte = ''int8''"
| "numpy_dtype StUByte = ''uint8''"
| "numpy_dtype StShort = ''int16''"
| "numpy_dtype StUShort = ''uint16''"
| "numpy_dtype StInt = ''int32''"
| "numpy_dtype StUInt = ''uint32''"
| "numpy_dtype StLong = ''int64''"
| "numpy_dtype StULong = ''uint64''"
| "numpy_dtype StFloat = ''float32''"
| "numpy_dtype StDouble = ''float64''"
| "numpy_dtype StString = ''str''"

lemma scalar_from_code_iff: "scalar_from_code c = Some st \<longleftrightarrow> scalar_code st = [c]"
  by (cases st) (auto simp: scalar_from_code_def)

section \<open>Descriptors and values\<close>

datatype field_desc =
    DScalar scalar_type
  | DScalarArray scalar_type
  | DVariant
  | DVariantArray
  | DStructure string "(string \<times> field_desc) list"
  | DStructureArray string "(string \<times> field_desc) list"
  | DUnion string "(string \<times> field_desc) list"
  | DUnionArray string "(string \<times> field_desc) list"

datatype scalar_value =
    SvBoolean bool | SvByte i8 | SvUByte u8 | SvShort i16 | SvUShort u16 | SvInt i32 | SvUInt u32
  | SvLong i64 | SvULong u64 | SvFloat f32 | SvDouble f64 | SvString string

datatype typed_array =
    TaBoolean "bool list" | TaByte "i8 list" | TaUByte "u8 list" | TaShort "i16 list"
  | TaUShort "u16 list" | TaInt "i32 list" | TaUInt "u32 list" | TaLong "i64 list"
  | TaULong "u64 list" | TaFloat "f32 list" | TaDouble "f64 list" | TaString "string list"

datatype pv_field =
    FScalar scalar_value
  | FScalarArray "scalar_value list"
  | FScalarArrayTyped typed_array
  | FStructure string "(string \<times> pv_field) list"
  | FStructureArray "(string \<times> (string \<times> pv_field) list) option list"
  | FUnion i32 string pv_field
  | FUnionArray "(i32 \<times> string \<times> pv_field) option list"
  | FVariant "field_desc option" pv_field
  | FVariantArray "(field_desc option \<times> pv_field) option list"
  | FNull

fun is_structure :: "field_desc \<Rightarrow> bool" where
  "is_structure (DStructure _ _) = True"
| "is_structure _ = False"

fun scalar_type_of :: "scalar_value \<Rightarrow> scalar_type" where
  "scalar_type_of (SvBoolean _) = StBoolean"
| "scalar_type_of (SvByte _) = StByte"
| "scalar_type_of (SvUByte _) = StUByte"
| "scalar_type_of (SvShort _) = StShort"
| "scalar_type_of (SvUShort _) = StUShort"
| "scalar_type_of (SvInt _) = StInt"
| "scalar_type_of (SvUInt _) = StUInt"
| "scalar_type_of (SvLong _) = StLong"
| "scalar_type_of (SvULong _) = StULong"
| "scalar_type_of (SvFloat _) = StFloat"
| "scalar_type_of (SvDouble _) = StDouble"
| "scalar_type_of (SvString _) = StString"

fun array_type_of :: "typed_array \<Rightarrow> scalar_type" where
  "array_type_of (TaBoolean _) = StBoolean"
| "array_type_of (TaByte _) = StByte"
| "array_type_of (TaUByte _) = StUByte"
| "array_type_of (TaShort _) = StShort"
| "array_type_of (TaUShort _) = StUShort"
| "array_type_of (TaInt _) = StInt"
| "array_type_of (TaUInt _) = StUInt"
| "array_type_of (TaLong _) = StLong"
| "array_type_of (TaULong _) = StULong"
| "array_type_of (TaFloat _) = StFloat"
| "array_type_of (TaDouble _) = StDouble"
| "array_type_of (TaString _) = StString"

section \<open>Walking a path\<close>

definition join :: "string \<Rightarrow> string \<Rightarrow> string" where
  "join pre key =
     (if pre = [] then key
      else if key = [] then pre
      else pre @ CHR ''.'' # key)"

lemma join_Nil [simp]: "join [] k = k" "join p [] = p"
  by (simp_all add: join_def)

lemma segments_join [simp]: "segments (join p k) = segments p @ segments k"
  by (simp add: join_def)

lemma join_eq_Nil [simp]: "join p k = [] \<longleftrightarrow> p = [] \<and> k = []"
  by (simp add: join_def)

lemma clean_path_join: "clean_path p \<Longrightarrow> clean_path k \<Longrightarrow> clean_path (join p k)"
  by (auto simp: clean_path_def join_def split_dot_append)

text \<open>
  The loop \<open>for seg in path.split('.').filter(..) { cur = child(cur, seg)? }\<close> over a step
  function; \<open>desc_at\<close> and \<open>field_at\<close> are its two instances.
\<close>

fun walk :: "('n \<Rightarrow> string \<Rightarrow> 'n option) \<Rightarrow> 'n \<Rightarrow> string list \<Rightarrow> 'n option" where
  "walk child n [] = Some n"
| "walk child n (s # ss) = (case child n s of None \<Rightarrow> None | Some m \<Rightarrow> walk child m ss)"

lemma walk_append:
  "walk child n (ss @ ts) = Option.bind (walk child n ss) (\<lambda>m. walk child m ts)"
  by (induction ss arbitrary: n) (auto split: option.splits)

fun desc_child :: "field_desc \<Rightarrow> string \<Rightarrow> field_desc option" where
  "desc_child (DStructure sid fs) seg = map_option snd (List.find (\<lambda>m. fst m = seg) fs)"
| "desc_child _ seg = None"

definition desc_at :: "field_desc \<Rightarrow> string \<Rightarrow> field_desc option" where
  "desc_at d path = walk desc_child d (segments path)"

fun field_child :: "pv_field \<Rightarrow> string \<Rightarrow> pv_field option" where
  "field_child (FStructure sid fs) seg = map_of fs seg"
| "field_child _ seg = None"

definition field_at :: "pv_field \<Rightarrow> string \<Rightarrow> pv_field option" where
  "field_at f path = walk field_child f (segments path)"

lemma desc_child_map_of: "desc_child (DStructure sid fs) s = map_of fs s"
  by (simp add: map_of_find)

text \<open>
  The contract both share: a path is looked up segment by segment, and a joined path is one
  lookup after the other. Everything a view needs follows from it.
\<close>

locale descend =
  fixes child :: "'n \<Rightarrow> string \<Rightarrow> 'n option"
    and at :: "'n \<Rightarrow> string \<Rightarrow> 'n option"
  assumes at_root: "at n [] = Some n"
    and at_name: "plain_name k \<Longrightarrow> at n k = child n k"
    and at_join: "at n (join p q) = Option.bind (at n p) (\<lambda>m. at m q)"
begin

lemma at_member: "plain_name k \<Longrightarrow> at n (join p k) = Option.bind (at n p) (\<lambda>m. child m k)"
  by (simp add: at_join at_name)

lemma at_prefix: "at n (join p q) = Some m \<Longrightarrow> \<exists>m'. at n p = Some m' \<and> at m' q = Some m"
  by (auto simp: at_join bind_eq_Some_conv)

lemma at_missing: "at n p = None \<Longrightarrow> at n (join p q) = None"
  by (simp add: at_join)

end

interpretation dsc: descend desc_child desc_at
  by unfold_locales
    (simp_all add: desc_at_def walk_append split: option.splits)

interpretation fld: descend field_child field_at
  by unfold_locales
    (simp_all add: field_at_def walk_append split: option.splits)

section \<open>Writing through a path\<close>

text \<open>
  \<open>field_at_mut\<close> returns a \<open>&mut\<close> to the field at a path; the model takes what is then done to
  that field and returns the updated root. The steps into a structure are \<open>get_field_mut\<close>.
\<close>

fun put_walk :: "string list \<Rightarrow> (pv_field \<Rightarrow> pv_field) \<Rightarrow> pv_field \<Rightarrow> pv_field option" where
  "put_walk [] g f = Some (g f)"
| "put_walk (s # ss) g (FStructure sid fs) =
     (case map_of fs s of
        None \<Rightarrow> None
      | Some c \<Rightarrow> map_option (\<lambda>c'. FStructure sid (update_first s c' fs)) (put_walk ss g c))"
| "put_walk (s # ss) g f = None"

definition field_at_mut :: "pv_field \<Rightarrow> string \<Rightarrow> (pv_field \<Rightarrow> pv_field) \<Rightarrow> pv_field option" where
  "field_at_mut f path g = put_walk (segments path) g f"

lemma put_walk_dom: "put_walk ss g f = None \<longleftrightarrow> walk field_child f ss = None"
  by (induction ss g f rule: put_walk.induct) (auto split: option.splits)

lemma put_walk_get:
  "put_walk ss g f = Some f' \<Longrightarrow>
     walk field_child f' ss = map_option g (walk field_child f ss)"
proof (induction ss g f arbitrary: f' rule: put_walk.induct)
  case (2 s ss g sid fs)
  then obtain c c' where "map_of fs s = Some c" "put_walk ss g c = Some c'"
    "f' = FStructure sid (update_first s c' fs)"
    by (auto split: option.splits)
  with 2 show ?case
    by (force simp: map_of_update_first image_iff dest: map_of_SomeD)
qed auto

lemma put_walk_frame:
  assumes "put_walk ss g f = Some f'" and "\<not> prefix ss ts" and "\<not> prefix ts ss"
  shows "walk field_child f' ts = walk field_child f ts"
  using assms
proof (induction ss g f arbitrary: f' ts rule: put_walk.induct)
  case (2 s ss g sid fs)
  then obtain c c' where c: "map_of fs s = Some c" "put_walk ss g c = Some c'"
    "f' = FStructure sid (update_first s c' fs)"
    by (auto split: option.splits)
  from "2.prems" obtain t ts' where ts: "ts = t # ts'"
    by (cases ts) auto
  show ?case
  proof (cases "t = s")
    case True
    with 2 c ts show ?thesis
      by (force simp: map_of_update_first image_iff dest: map_of_SomeD)
  next
    case False
    with c ts show ?thesis by (simp add: map_of_update_first)
  qed
qed auto

text \<open>
  The contract of a path that is written through: it extends \<open>descend\<close> with the laws of a lens.
\<close>

locale path_lens = descend child at
  for child :: "'n \<Rightarrow> string \<Rightarrow> 'n option" and at :: "'n \<Rightarrow> string \<Rightarrow> 'n option" +
  fixes put :: "'n \<Rightarrow> string \<Rightarrow> ('n \<Rightarrow> 'n) \<Rightarrow> 'n option"
  assumes put_defined: "put n p g = None \<longleftrightarrow> at n p = None"
    and put_get: "put n p g = Some n' \<Longrightarrow> at n' p = map_option g (at n p)"
    and put_frame: "put n p g = Some n' \<Longrightarrow>
      \<not> prefix (segments p) (segments q) \<Longrightarrow> \<not> prefix (segments q) (segments p) \<Longrightarrow>
      at n' q = at n q"
begin

lemma put_total: "at n p = Some m \<Longrightarrow> \<exists>n'. put n p g = Some n' \<and> at n' p = Some (g m)"
  using put_defined [of n p g] put_get [of n p g] by (cases "put n p g") auto

text \<open>Below the written path one sees what was written there, and nothing older.\<close>

lemma put_below: "put n p g = Some n' \<Longrightarrow> at n p = Some m \<Longrightarrow> at n' (join p q) = at (g m) q"
  by (simp add: at_join put_get)

end

interpretation fld: path_lens field_child field_at field_at_mut
  by unfold_locales
    (auto simp: field_at_def field_at_mut_def put_walk_dom put_walk_get put_walk_frame)

end
