(* ===== verification/PvBits.thy ===== *)
theory PvBits
  imports PvData
begin

text \<open>
  Bit numbering of a structure: \<open>children\<close> of \<open>src/src/pva/value.rs\<close> and what it relies on.

  A \<open>BitSet\<close> is a set of bit indices. Bit 0 is the root; a structure's own bit is followed by its
  members', depth first, and everything that is not a structure has one bit. The library's
  \<open>total_bits\<close> and \<open>bit_for_path\<close> appear as the parameters \<open>tb\<close> and \<open>bp\<close>; \<open>total_bits_ok\<close> and
  \<open>bit_for_path_ok\<close> are the documented numbering, \<open>ref_bits\<close> and \<open>ref_bit_for_path\<close> functions
  that satisfy it. The lemmas show that the bits of a member are an interval, that intervals of
  unrelated members are disjoint, and that every bit belongs to a member.
\<close>

section \<open>Children\<close>

fun child_bits ::
  "(field_desc \<Rightarrow> nat) \<Rightarrow> nat \<Rightarrow> (string \<times> field_desc) list \<Rightarrow> (string \<times> field_desc \<times> nat) list"
where
  "child_bits tb b [] = []"
| "child_bits tb b ((name, child) # fs) = (name, child, b) # child_bits tb (b + tb child) fs"

fun children :: "(field_desc \<Rightarrow> nat) \<Rightarrow> field_desc \<Rightarrow> nat \<Rightarrow> (string \<times> field_desc \<times> nat) list" where
  "children tb (DStructure sid fs) b = child_bits tb (b + 1) fs"
| "children tb _ b = []"

text \<open>\<open>all_marks\<close> and the \<open>None\<close> case of \<open>marks_for\<close>: every bit of the descriptor.\<close>

definition all_marks :: "(field_desc \<Rightarrow> nat) \<Rightarrow> field_desc \<Rightarrow> nat set" where
  "all_marks tb d = fold insert [0..<tb d] {}"

lemma all_marks_eq: "all_marks tb d = {..<tb d}"
proof -
  have "fold insert xs A = set xs \<union> A" for xs :: "nat list" and A
    by (induction xs arbitrary: A) auto
  then show ?thesis by (auto simp: all_marks_def)
qed

section \<open>The library's numbering\<close>

definition total_bits_ok :: "(field_desc \<Rightarrow> nat) \<Rightarrow> bool" where
  "total_bits_ok tb \<longleftrightarrow>
     (\<forall>sid fs. tb (DStructure sid fs) = 1 + sum_list (map (tb \<circ> snd) fs)) \<and>
     (\<forall>d. \<not> is_structure d \<longrightarrow> tb d = 1)"

fun ref_bits :: "field_desc \<Rightarrow> nat" where
  "ref_bits (DStructure sid fs) = 1 + sum_list (map (\<lambda>(n, d). ref_bits d) fs)"
| "ref_bits _ = 1"

lemma ref_bits_ok: "total_bits_ok ref_bits"
proof -
  have "ref_bits d = 1" if "\<not> is_structure d" for d
    using that by (cases d) auto
  then show ?thesis
    by (auto simp: total_bits_ok_def case_prod_unfold o_def)
qed

lemma tb_structure: "total_bits_ok tb \<Longrightarrow> tb (DStructure sid fs) = 1 + sum_list (map (tb \<circ> snd) fs)"
  by (simp add: total_bits_ok_def)

lemma tb_leaf: "total_bits_ok tb \<Longrightarrow> \<not> is_structure d \<Longrightarrow> tb d = 1"
  by (simp add: total_bits_ok_def)

lemma tb_pos: "total_bits_ok tb \<Longrightarrow> 0 < tb d"
  by (cases d) (auto simp: tb_structure tb_leaf)

text \<open>The member of a name with its bit, the first one of the name, when the members start at \<open>b\<close>.\<close>

fun member_bit ::
  "(field_desc \<Rightarrow> nat) \<Rightarrow> nat \<Rightarrow> (string \<times> field_desc) list \<Rightarrow> string \<Rightarrow> (field_desc \<times> nat) option"
where
  "member_bit tb b [] s = None"
| "member_bit tb b ((n, c) # fs) s = (if n = s then Some (c, b) else member_bit tb (b + tb c) fs s)"

fun path_bit :: "(field_desc \<Rightarrow> nat) \<Rightarrow> field_desc \<Rightarrow> nat \<Rightarrow> string list \<Rightarrow> nat option" where
  "path_bit tb d b [] = Some b"
| "path_bit tb (DStructure sid fs) b (s # ss) =
     (case member_bit tb (Suc b) fs s of None \<Rightarrow> None | Some (c, x) \<Rightarrow> path_bit tb c x ss)"
| "path_bit tb d b (s # ss) = None"

definition bit_for_path_ok :: "(field_desc \<Rightarrow> nat) \<Rightarrow> (field_desc \<Rightarrow> string \<Rightarrow> nat option) \<Rightarrow> bool" where
  "bit_for_path_ok tb bp \<longleftrightarrow> (\<forall>d p. clean_path p \<longrightarrow> bp d p = path_bit tb d 0 (segments p))"

definition ref_bit_for_path :: "field_desc \<Rightarrow> string \<Rightarrow> nat option" where
  "ref_bit_for_path d p = path_bit ref_bits d 0 (segments p)"

lemma ref_bit_for_path_ok: "bit_for_path_ok ref_bits ref_bit_for_path"
  by (simp add: bit_for_path_ok_def ref_bit_for_path_def)

text \<open>
  A descriptor whose paths name every member: the names of a structure are distinct, none is
  empty or holds a dot. Members of unions and arrays have no path.
\<close>

fun wf_desc :: "field_desc \<Rightarrow> bool" where
  "wf_desc (DStructure sid fs) =
     (distinct (map fst fs) \<and> list_all plain_name (map fst fs) \<and> list_all (\<lambda>(n, d). wf_desc d) fs)"
| "wf_desc _ = True"

section \<open>Members\<close>

lemma child_bits_names [simp]: "map fst (child_bits tb b fs) = map fst fs"
  by (induction tb b fs rule: child_bits.induct) auto

lemma child_bits_set:
  "distinct (map fst fs) \<Longrightarrow>
     (n, c, x) \<in> set (child_bits tb b fs) \<longleftrightarrow> member_bit tb b fs n = Some (c, x)"
proof (induction tb b fs rule: child_bits.induct)
  case (2 tb b name child fs)
  have "name \<in> fst ` set fs" if "(name, c, x) \<in> set (child_bits tb b' fs)" for c x b'
    using that by (metis child_bits_names fst_conv image_eqI list.set_map)
  with 2 show ?case by auto
qed simp

lemma member_bit_dom: "map_option fst (member_bit tb b fs s) = map_of fs s"
  by (induction tb b fs s rule: member_bit.induct) auto

lemma member_bit_desc: "member_bit tb b fs s = Some (c, x) \<Longrightarrow> map_of fs s = Some c"
  using member_bit_dom [of tb b fs s] by simp

lemma member_bit_exists: "map_of fs s = Some c \<Longrightarrow> \<exists>x. member_bit tb b fs s = Some (c, x)"
  using member_bit_dom [of tb b fs s] by (cases "member_bit tb b fs s") auto

lemma member_bit_None: "member_bit tb b fs s = None \<longleftrightarrow> map_of fs s = None"
  by (metis map_option_is_None member_bit_dom)

lemma member_bit_bounds:
  "member_bit tb b fs s = Some (c, x) \<Longrightarrow> b \<le> x \<and> x + tb c \<le> b + sum_list (map (tb \<circ> snd) fs)"
  by (induction tb b fs s rule: member_bit.induct) (fastforce split: if_splits)+

lemma member_bit_disjoint:
  "member_bit tb b fs s = Some (c, x) \<Longrightarrow> member_bit tb b fs t = Some (e, y) \<Longrightarrow> s \<noteq> t \<Longrightarrow>
     x + tb c \<le> y \<or> y + tb e \<le> x"
  by (induction tb b fs s rule: member_bit.induct)
    (auto split: if_splits dest: member_bit_bounds)

lemma member_bit_cover:
  assumes "b \<le> x" and "x < b + sum_list (map (tb \<circ> snd) fs)" and "distinct (map fst fs)"
  shows "\<exists>s c y. member_bit tb b fs s = Some (c, y) \<and> y \<le> x \<and> x < y + tb c"
  using assms
proof (induction fs arbitrary: b)
  case (Cons m fs)
  obtain n c where m: "m = (n, c)" by (cases m)
  show ?case
  proof (cases "x < b + tb c")
    case True
    with Cons.prems m show ?thesis
      by (intro exI [of _ n] exI [of _ c] exI [of _ b]) simp
  next
    case False
    with Cons.prems m Cons.IH [of "b + tb c"] obtain s e y where
      y: "member_bit tb (b + tb c) fs s = Some (e, y)" "y \<le> x" "x < y + tb e"
      by (auto simp: add.assoc)
    from y(1) have "s \<in> fst ` set fs"
      by (metis member_bit_desc map_of_SomeD image_eqI fst_conv)
    with Cons.prems(3) m have "s \<noteq> n" by auto
    with y m show ?thesis
      by (intro exI [of _ s] exI [of _ e] exI [of _ y]) simp
  qed
qed simp

section \<open>Paths and their intervals\<close>

lemma path_bit_append:
  "walk desc_child d ss = Some c \<Longrightarrow> path_bit tb d b ss = Some x \<Longrightarrow>
     path_bit tb d b (ss @ ts) = path_bit tb c x ts"
  by (induction tb d b ss arbitrary: x rule: path_bit.induct)
    (auto simp: desc_child_map_of dest!: member_bit_desc
      split: option.splits prod.splits simp del: desc_child.simps(1))

lemma path_bit_None: "path_bit tb d b ss = None \<longleftrightarrow> walk desc_child d ss = None"
proof (induction tb d b ss rule: path_bit.induct)
  case (2 tb sid fs b s ss)
  show ?case
  proof (cases "member_bit tb (Suc b) fs s")
    case None
    with member_bit_None [of tb "Suc b" fs s] show ?thesis
      by (simp add: desc_child_map_of del: desc_child.simps(1))
  next
    case (Some cx)
    with 2 show ?thesis
      by (cases cx) (auto simp: desc_child_map_of dest: member_bit_desc simp del: desc_child.simps(1))
  qed
qed auto

lemma path_bit_bounds:
  "total_bits_ok tb \<Longrightarrow> walk desc_child d ss = Some c \<Longrightarrow> path_bit tb d b ss = Some x \<Longrightarrow>
     b \<le> x \<and> x + tb c \<le> b + tb d \<and> (ss \<noteq> [] \<longrightarrow> b < x)"
proof (induction tb d b ss arbitrary: x rule: path_bit.induct)
  case (2 tb sid fs b s ss)
  then obtain e y where y: "member_bit tb (Suc b) fs s = Some (e, y)" "path_bit tb e y ss = Some x"
    by (auto split: option.splits prod.splits)
  with "2.prems"(2) have "walk desc_child e ss = Some c"
    by (auto simp: desc_child_map_of dest: member_bit_desc simp del: desc_child.simps(1))
  with "2.IH" [OF y(1) refl "2.prems"(1)] y(2) have "y \<le> x \<and> x + tb c \<le> y + tb e"
    by blast
  with member_bit_bounds [OF y(1)] tb_structure [OF "2.prems"(1)] show ?case by simp
qed auto

text \<open>Paths that part ways lead to disjoint intervals.\<close>

lemma path_bit_disjoint:
  "total_bits_ok tb \<Longrightarrow> walk desc_child d ss = Some c \<Longrightarrow> path_bit tb d b ss = Some x \<Longrightarrow>
     walk desc_child d ts = Some e \<Longrightarrow> path_bit tb d b ts = Some y \<Longrightarrow>
     \<not> prefix ss ts \<Longrightarrow> \<not> prefix ts ss \<Longrightarrow> x + tb c \<le> y \<or> y + tb e \<le> x"
proof (induction tb d b ss arbitrary: x y ts rule: path_bit.induct)
  case (2 tb sid fs b s ss)
  from "2.prems"(7) obtain t ts' where ts: "ts = t # ts'" by (cases ts) auto
  from "2.prems"(3) obtain c' x' where x':
    "member_bit tb (Suc b) fs s = Some (c', x')" "path_bit tb c' x' ss = Some x"
    by (auto split: option.splits prod.splits)
  from "2.prems"(5) ts obtain e' y' where y':
    "member_bit tb (Suc b) fs t = Some (e', y')" "path_bit tb e' y' ts' = Some y"
    by (auto split: option.splits prod.splits)
  from x' "2.prems"(2) have wc: "walk desc_child c' ss = Some c"
    by (auto simp: desc_child_map_of dest: member_bit_desc simp del: desc_child.simps(1))
  from y' "2.prems"(4) ts have we: "walk desc_child e' ts' = Some e"
    by (auto simp: desc_child_map_of dest: member_bit_desc simp del: desc_child.simps(1))
  show ?case
  proof (cases "s = t")
    case True
    with x' y' have "c' = e'" "x' = y'" by auto
    with True x' y' wc we ts "2.prems" "2.IH" [OF x'(1) refl "2.prems"(1) wc x'(2), of ts' y]
    show ?thesis by auto
  next
    case False
    from path_bit_bounds [OF "2.prems"(1) wc x'(2)] path_bit_bounds [OF "2.prems"(1) we y'(2)]
      member_bit_disjoint [OF x'(1) y'(1) False]
    show ?thesis by auto
  qed
qed auto

text \<open>The bits of a member are its own and those of what is below it.\<close>

theorem path_span:
  assumes tb: "total_bits_ok tb"
    and c: "walk desc_child d ss = Some c" "path_bit tb d b ss = Some x"
    and e: "walk desc_child d ts = Some e" "path_bit tb d b ts = Some y"
  shows "x \<le> y \<and> y < x + tb c \<longleftrightarrow> prefix ss ts"
proof
  assume "prefix ss ts"
  then obtain us where us: "ts = ss @ us" by (auto elim: prefixE)
  with e c have "path_bit tb c x us = Some y" "walk desc_child c us = Some e"
    by (simp_all add: path_bit_append walk_append)
  with path_bit_bounds [OF tb] tb_pos [OF tb, of e] show "x \<le> y \<and> y < x + tb c"
    by fastforce
next
  assume xy: "x \<le> y \<and> y < x + tb c"
  show "prefix ss ts"
  proof (rule ccontr)
    assume no: "\<not> prefix ss ts"
    show False
    proof (cases "prefix ts ss")
      case True
      then obtain us where us: "ss = ts @ us" by (auto elim: prefixE)
      with no have "us \<noteq> []" by auto
      moreover from us e c have "path_bit tb e y us = Some x" "walk desc_child e us = Some c"
        by (simp_all add: path_bit_append walk_append)
      ultimately have "y < x" using path_bit_bounds [OF tb] by blast
      with xy show False by simp
    next
      case False
      with path_bit_disjoint [OF tb c e no] tb_pos [OF tb, of e] xy show False by linarith
    qed
  qed
qed

lemma path_bit_inject:
  assumes "total_bits_ok tb"
    and "walk desc_child d ss = Some c" "path_bit tb d b ss = Some x"
    and "walk desc_child d ts = Some e" "path_bit tb d b ts = Some x"
  shows "ss = ts"
  using path_span [OF assms] path_span [OF assms(1,4,5,2,3)] tb_pos [OF assms(1)]
  by (auto simp: prefix_order.eq_iff)

text \<open>Every bit of a descriptor with distinct names is the bit of a path.\<close>

lemma path_bit_cover:
  "total_bits_ok tb \<Longrightarrow> wf_desc d \<Longrightarrow> b \<le> x \<Longrightarrow> x < b + tb d \<Longrightarrow>
     \<exists>ss. path_bit tb d b ss = Some x \<and> list_all plain_name ss"
proof (induction d arbitrary: b rule: wf_desc.induct)
  case (1 sid fs)
  show ?case
  proof (cases "x = b")
    case True
    then show ?thesis by (intro exI [of _ "[]"]) simp
  next
    case False
    with 1 have "Suc b \<le> x" "x < Suc b + sum_list (map (tb \<circ> snd) fs)" "distinct (map fst fs)"
      by (auto simp: tb_structure)
    from member_bit_cover [OF this] obtain s c y where
      y: "member_bit tb (Suc b) fs s = Some (c, y)" "y \<le> x" "x < y + tb c" by blast
    then have sc: "(s, c) \<in> set fs" by (blast dest: member_bit_desc map_of_SomeD)
    with "1.prems"(2) have "wf_desc c" "plain_name s"
      by (auto simp: list_all_iff)
    with "1.IH" [OF sc refl "1.prems"(1)] y obtain ss where
      "path_bit tb c y ss = Some x" "list_all plain_name ss" by blast
    with y \<open>plain_name s\<close> show ?thesis by (intro exI [of _ "s # ss"]) simp
  qed
qed (auto simp: tb_leaf intro: exI [of _ "[]"])

end
