(* ===== verification/PvMarks.thy ===== *)
theory PvMarks
  imports PvBits
begin

text \<open>
  The changed marks of a value: \<open>Root\<close> and the mark operations of \<open>Value\<close> in
  \<open>src/src/pva/value.rs\<close> (\<open>mark_span\<close>, \<open>collect_marked\<close>, \<open>marked_leaves\<close>, \<open>changed\<close>,
  \<open>changedSet\<close>, \<open>mark\<close>, \<open>unmark\<close>, \<open>select\<close>).

  A \<open>Value\<close> is a handle on a shared root with a path prefix; an operation locks the root, so each
  is a function of the root and the prefix. Lemmas relate the bits to paths: a mark covers the
  path of its bit and every path below.
\<close>

section \<open>Root\<close>

record root =
  r_desc :: field_desc
  r_field :: pv_field
  r_marks :: "nat set"

definition mark_span ::
  "(field_desc \<Rightarrow> nat) \<Rightarrow> (field_desc \<Rightarrow> string \<Rightarrow> nat option) \<Rightarrow> root \<Rightarrow> string \<Rightarrow> bool \<Rightarrow> root \<times> bool"
where
  "mark_span tb bp r path val =
     (case desc_at (r_desc r) path of
        None \<Rightarrow> (r, False)
      | Some sub \<Rightarrow>
          (case bp (r_desc r) path of
             None \<Rightarrow> (r, False)
           | Some start \<Rightarrow>
               let stop = start + tb sub in
               if val then (r\<lparr>r_marks := fold insert [start..<stop] (r_marks r)\<rparr>, True)
               else (r\<lparr>r_marks := Set.filter (\<lambda>b. b < start \<or> b \<ge> stop) (r_marks r)\<rparr>, True)))"

lemma fold_insert_upt: "fold insert [i..<j] A = A \<union> {i..<j}" for A :: "nat set"
proof -
  have "fold insert xs A = set xs \<union> A" for xs :: "nat list" and A
    by (induction xs arbitrary: A) auto
  then show ?thesis by auto
qed

section \<open>Collecting marked paths\<close>

lemma child_bits_size: "(n, c, x) \<in> set (child_bits tb b fs) \<Longrightarrow> size c < size (DStructure sid fs)"
  by (induction tb b fs rule: child_bits.induct) auto

lemma children_size [termination_simp]: "(n, c, x) \<in> set (children tb d b) \<Longrightarrow> size c < size d"
  by (cases d) (auto dest: child_bits_size simp del: field_desc.size)

text \<open>The \<open>out\<close> vector is the returned list; what a call pushes is what it returns.\<close>

function collect_marked ::
  "(field_desc \<Rightarrow> nat) \<Rightarrow> field_desc \<Rightarrow> nat \<Rightarrow> string \<Rightarrow> nat set \<Rightarrow> bool \<Rightarrow> bool \<Rightarrow> string list"
where
  "collect_marked tb d b pre marks inherited expand =
     (let marked = inherited \<or> b \<in> marks;
          is_struct = is_structure d;
          pushed = (if marked \<and> \<not> (expand \<and> is_struct) \<and> pre \<noteq> [] then [pre] else [])
      in if marked \<and> \<not> (expand \<and> is_struct) \<and> \<not> expand then pushed
         else pushed @
           (if is_struct then
              concat (map (\<lambda>(name, child, cbit).
                collect_marked tb child cbit (join pre name) marks (marked \<and> expand) expand)
                (children tb d b))
            else []))"
  by pat_completeness auto
termination
  by (relation "measure (\<lambda>(tb, d, b, pre, marks, inherited, expand). size d)")
    (auto simp: children_size)

declare collect_marked.simps [simp del]

text \<open>The path string a list of member names spells, starting from \<open>pre\<close>.\<close>

definition path_of :: "string \<Rightarrow> string list \<Rightarrow> string" where
  "path_of pre ss = foldl join pre ss"

lemma path_of_Nil [simp]: "path_of pre [] = pre"
  by (simp add: path_of_def)

lemma path_of_Cons [simp]: "path_of pre (s # ss) = path_of (join pre s) ss"
  by (simp add: path_of_def)

lemma path_of_snoc [simp]: "path_of pre (ss @ [s]) = join (path_of pre ss) s"
  by (simp add: path_of_def)

lemma segments_path_of: "list_all plain_name ss \<Longrightarrow> segments (path_of pre ss) = segments pre @ ss"
  by (induction ss arbitrary: pre) auto

lemma clean_path_of: "list_all plain_name ss \<Longrightarrow> clean_path pre \<Longrightarrow> clean_path (path_of pre ss)"
  by (induction ss arbitrary: pre) (auto intro: clean_path_join clean_path_plain)

lemma path_of_segments: "clean_path p \<Longrightarrow> path_of [] (segments p) = p"
proof (induction p rule: length_induct)
  case (1 p)
  show ?case
  proof (cases "parent_path p")
    case None
    with 1 show ?thesis
      by (auto simp: parent_path_None segments_def split_dot_no_dot clean_path_def)
  next
    case (Some q)
    then obtain n where n: "CHR ''.'' \<notin> set n" "p = q @ CHR ''.'' # n"
      by (blast dest: parent_path_Some)
    with "1.prems" have "[] \<notin> set (split_dot q)" "n \<noteq> []"
      by (auto simp: clean_path_def split_dot_append split_dot_no_dot)
    then have q: "clean_path q" "q \<noteq> []"
      by (auto simp: clean_path_def)
    with n "1.IH" have "path_of [] (segments q) = q" by simp
    with q n \<open>n \<noteq> []\<close> show ?thesis
      by (simp add: segments_def split_dot_append split_dot_no_dot join_def)
  qed
qed

lemma clean_path_inject: "clean_path p \<Longrightarrow> clean_path q \<Longrightarrow> segments p = segments q \<Longrightarrow> p = q"
  by (metis path_of_segments)

text \<open>What a set of marks says of a path: covered by a mark at or above it; marked with none above.\<close>

definition covered :: "(field_desc \<Rightarrow> nat) \<Rightarrow> field_desc \<Rightarrow> nat \<Rightarrow> nat set \<Rightarrow> string list \<Rightarrow> bool" where
  "covered tb d b marks ss \<longleftrightarrow>
     (\<exists>ts x. prefix ts ss \<and> path_bit tb d b ts = Some x \<and> x \<in> marks)"

definition topmost :: "(field_desc \<Rightarrow> nat) \<Rightarrow> field_desc \<Rightarrow> nat \<Rightarrow> nat set \<Rightarrow> string list \<Rightarrow> bool" where
  "topmost tb d b marks ss \<longleftrightarrow>
     (\<exists>x. path_bit tb d b ss = Some x \<and> x \<in> marks) \<and>
     (\<forall>ts. strict_prefix ts ss \<longrightarrow> \<not> covered tb d b marks ts)"

lemma covered_Nil [simp]: "covered tb d b marks [] \<longleftrightarrow> b \<in> marks"
  by (simp add: covered_def)

lemma covered_root: "b \<in> marks \<Longrightarrow> covered tb d b marks ss"
  unfolding covered_def by (intro exI [of _ "[]"] exI [of _ b]) simp

lemma covered_Cons:
  assumes "member_bit tb (Suc b) fs n = Some (c, x)"
  shows "covered tb (DStructure sid fs) b marks (n # ss) \<longleftrightarrow> b \<in> marks \<or> covered tb c x marks ss"
  using assms unfolding covered_def
  by (auto simp: prefix_Cons)

lemma topmost_Nil [simp]: "topmost tb d b marks [] \<longleftrightarrow> b \<in> marks"
  by (simp add: topmost_def)

lemma topmost_Cons:
  assumes "member_bit tb (Suc b) fs n = Some (c, x)"
  shows "topmost tb (DStructure sid fs) b marks (n # ss) \<longleftrightarrow> b \<notin> marks \<and> topmost tb c x marks ss"
proof -
  have "(\<forall>ts. strict_prefix ts (n # ss) \<longrightarrow> \<not> covered tb (DStructure sid fs) b marks ts) \<longleftrightarrow>
        b \<notin> marks \<and> (\<forall>ts. strict_prefix ts ss \<longrightarrow> \<not> covered tb c x marks ts)"
    (is "?l \<longleftrightarrow> ?r")
  proof
    assume l: ?l
    then have "b \<notin> marks" by (metis covered_Nil Nil_prefix list.distinct(1) strict_prefix_def)
    moreover have "\<not> covered tb c x marks ts" if "strict_prefix ts ss" for ts
      using l that assms by (auto simp: covered_Cons dest: spec [of _ "n # ts"])
    ultimately show ?r by blast
  next
    assume r: ?r
    show ?l
    proof (intro allI impI)
      fix ts assume "strict_prefix ts (n # ss)"
      with r assms show "\<not> covered tb (DStructure sid fs) b marks ts"
        by (cases ts) (auto simp: covered_Cons)
    qed
  qed
  with assms show ?thesis by (auto simp: topmost_def)
qed

lemma walk_member:
  "member_bit tb b fs n = Some (c, x) \<Longrightarrow>
     walk desc_child (DStructure sid fs) (n # ss) = walk desc_child c ss"
  by (auto simp: desc_child_map_of dest: member_bit_desc simp del: desc_child.simps(1))

lemma walk_structure_cases:
  assumes "walk desc_child (DStructure sid fs) ss = Some e"
  obtains "ss = []" "e = DStructure sid fs"
  | n ts c x where "ss = n # ts" "member_bit tb b fs n = Some (c, x)" "walk desc_child c ts = Some e"
proof (cases ss)
  case Nil
  with assms that(1) show ?thesis by simp
next
  case (Cons n ts)
  with assms obtain c where "map_of fs n = Some c" "walk desc_child c ts = Some e"
    by (auto simp: desc_child_map_of simp del: desc_child.simps(1) split: option.splits)
  with Cons that(2) member_bit_exists [of fs n c tb b] show ?thesis by blast
qed

lemma ex_walk_structure:
  "(\<exists>ss e. walk desc_child (DStructure sid fs) ss = Some e \<and> P ss e) \<longleftrightarrow>
     P [] (DStructure sid fs) \<or>
     (\<exists>n c x ss e. member_bit tb b fs n = Some (c, x) \<and>
        walk desc_child (DStructure sid fs) (n # ss) = Some e \<and> P (n # ss) e)"
  (is "?l \<longleftrightarrow> ?r")
proof
  assume ?l
  then obtain ss e where e: "walk desc_child (DStructure sid fs) ss = Some e" "P ss e" by blast
  show ?r
    by (rule walk_structure_cases [OF e(1), where tb = tb and b = b]) (use e in blast)+
next
  assume ?r
  then show ?l by (metis walk.simps(1))
qed

lemma walk_leaf: "\<not> is_structure d \<Longrightarrow> walk desc_child d ss = Some e \<longleftrightarrow> ss = [] \<and> e = d"
  by (cases ss; cases d) auto

lemma collect_marked_leaf:
  "\<not> is_structure d \<Longrightarrow> collect_marked tb d b pre marks inh expand =
     (if (inh \<or> b \<in> marks) \<and> pre \<noteq> [] then [pre] else [])"
  by (subst collect_marked.simps) (simp add: Let_def)

text \<open>With \<open>expand\<close>: the paths of the leaves at or below a mark.\<close>

lemma collect_marked_expand:
  "wf_desc d \<Longrightarrow> q \<in> set (collect_marked tb d b pre marks inh True) \<longleftrightarrow>
     (\<exists>ss c. q = path_of pre ss \<and> q \<noteq> [] \<and> walk desc_child d ss = Some c \<and> \<not> is_structure c \<and>
       (inh \<or> covered tb d b marks ss))"
proof (induction d arbitrary: b pre inh rule: wf_desc.induct)
  case (1 sid fs)
  let ?d = "DStructure sid fs"
  have mem: "(n, c, x) \<in> set (children tb ?d b) \<longleftrightarrow> member_bit tb (Suc b) fs n = Some (c, x)"
    for n c x using "1.prems" by (simp add: child_bits_set)
  have IH: "q \<in> set (collect_marked tb c x (join pre n) marks inh' True) \<longleftrightarrow>
     (\<exists>ss e. q = path_of (join pre n) ss \<and> q \<noteq> [] \<and> walk desc_child c ss = Some e \<and>
        \<not> is_structure e \<and> (inh' \<or> covered tb c x marks ss))"
    if "member_bit tb (Suc b) fs n = Some (c, x)" for n c x inh'
  proof -
    have m: "(n, c) \<in> set fs" using that by (blast dest: member_bit_desc map_of_SomeD)
    with "1.prems" have "wf_desc c" by (auto simp: list_all_iff)
    with "1.IH" [OF m refl] show ?thesis by blast
  qed
  have step: "q \<in> set (collect_marked tb c x (join pre n) marks (inh \<or> b \<in> marks) True) \<longleftrightarrow>
     (\<exists>ss e. q = path_of pre (n # ss) \<and> q \<noteq> [] \<and> walk desc_child ?d (n # ss) = Some e \<and>
      \<not> is_structure e \<and> (inh \<or> covered tb ?d b marks (n # ss)))"
    if "member_bit tb (Suc b) fs n = Some (c, x)" for n c x
    unfolding IH [OF that] walk_member [OF that] covered_Cons [OF that] path_of_Cons by blast
  have "q \<in> set (collect_marked tb ?d b pre marks inh True) \<longleftrightarrow>
     (\<exists>n c x. member_bit tb (Suc b) fs n = Some (c, x) \<and>
        q \<in> set (collect_marked tb c x (join pre n) marks (inh \<or> b \<in> marks) True))"
    by (subst collect_marked.simps) (auto simp: mem [symmetric] simp del: children.simps)
  also have "\<dots> \<longleftrightarrow> (\<exists>n c x ss e. member_bit tb (Suc b) fs n = Some (c, x) \<and>
      q = path_of pre (n # ss) \<and> q \<noteq> [] \<and> walk desc_child ?d (n # ss) = Some e \<and>
      \<not> is_structure e \<and> (inh \<or> covered tb ?d b marks (n # ss)))"
    using step by blast
  also have "\<dots> \<longleftrightarrow> (\<exists>ss c. walk desc_child ?d ss = Some c \<and> (q = path_of pre ss \<and> q \<noteq> [] \<and>
      \<not> is_structure c \<and> (inh \<or> covered tb ?d b marks ss)))"
    unfolding ex_walk_structure [where tb = tb and b = "Suc b"] by auto
  also have "\<dots> \<longleftrightarrow> (\<exists>ss c. q = path_of pre ss \<and> q \<noteq> [] \<and> walk desc_child ?d ss = Some c \<and>
      \<not> is_structure c \<and> (inh \<or> covered tb ?d b marks ss))" by blast
  finally show ?case .
qed (auto simp: walk_leaf collect_marked_leaf)

text \<open>Without \<open>expand\<close>: the marked paths with no mark above, and only the start if inherited.\<close>

lemma collect_marked_inherited:
  "collect_marked tb d b pre marks True False = (if pre \<noteq> [] then [pre] else [])"
  by (subst collect_marked.simps) simp

lemma collect_marked_topmost:
  "wf_desc d \<Longrightarrow> q \<in> set (collect_marked tb d b pre marks False False) \<longleftrightarrow>
     (\<exists>ss c. walk desc_child d ss = Some c \<and> q = path_of pre ss \<and> q \<noteq> [] \<and>
       topmost tb d b marks ss)"
proof (induction d arbitrary: b pre rule: wf_desc.induct)
  case (1 sid fs)
  let ?d = "DStructure sid fs"
  have mem: "(n, c, x) \<in> set (children tb ?d b) \<longleftrightarrow> member_bit tb (Suc b) fs n = Some (c, x)"
    for n c x using "1.prems" by (simp add: child_bits_set)
  have step: "b \<notin> marks \<and> q \<in> set (collect_marked tb c x (join pre n) marks False False) \<longleftrightarrow>
     (\<exists>ss e. walk desc_child ?d (n # ss) = Some e \<and> (q = path_of pre (n # ss) \<and> q \<noteq> [] \<and>
       topmost tb ?d b marks (n # ss)))"
    if nc: "member_bit tb (Suc b) fs n = Some (c, x)" for n c x
  proof -
    have m: "(n, c) \<in> set fs" using nc by (blast dest: member_bit_desc map_of_SomeD)
    with "1.prems" have "wf_desc c" by (auto simp: list_all_iff)
    from "1.IH" [OF m refl this, of x "join pre n"] show ?thesis
      unfolding walk_member [OF nc] topmost_Cons [OF nc] path_of_Cons by blast
  qed
  have "q \<in> set (collect_marked tb ?d b pre marks False False) \<longleftrightarrow>
     (if b \<in> marks then q = pre \<and> pre \<noteq> [] else
      (\<exists>n c x. member_bit tb (Suc b) fs n = Some (c, x) \<and>
        q \<in> set (collect_marked tb c x (join pre n) marks False False)))"
    by (subst collect_marked.simps) (auto simp: mem [symmetric] simp del: children.simps)
  also have "\<dots> \<longleftrightarrow> (\<exists>ss c. walk desc_child ?d ss = Some c \<and> (q = path_of pre ss \<and> q \<noteq> [] \<and>
      topmost tb ?d b marks ss))"
  proof (cases "b \<in> marks")
    case True
    then show ?thesis
      unfolding ex_walk_structure [where tb = tb and b = "Suc b"] by (auto simp: topmost_Cons)
  next
    case False
    then show ?thesis
      unfolding ex_walk_structure [where tb = tb and b = "Suc b"]
      using step by (simp del: walk.simps path_of_Cons) blast
  qed
  finally show ?case by blast
qed (auto simp: walk_leaf collect_marked_leaf)

end
