(* ===== verification/PvConform.thy ===== *)
theory PvConform
  imports PvBits
begin

text \<open>
  The typing invariant of a value: \<open>conforms d f\<close> says that field \<open>f\<close> has the shape descriptor
  \<open>d\<close> promises, member by member, down through unions, variants and arrays. A conforming root has
  a field at every path its descriptor has, which is why the \<open>ok_or\<close> branches of
  \<open>src/src/pva/value.rs\<close> after a successful \<open>desc_at\<close> are not taken.
\<close>

section \<open>The relation\<close>

definition members_ok :: "(field_desc \<Rightarrow> pv_field \<Rightarrow> bool) \<Rightarrow> (string \<times> field_desc) list \<Rightarrow>
  (string \<times> pv_field) list \<Rightarrow> bool" where
  "members_ok R fs vs \<longleftrightarrow> list_all2 (\<lambda>m v. fst m = fst v \<and> R (snd m) (snd v)) fs vs"

lemma members_ok_cong [fundef_cong]:
  assumes "fs = fs'" "vs = vs'"
    "\<And>n d m v. (n, d) \<in> set fs' \<Longrightarrow> (m, v) \<in> set vs' \<Longrightarrow> R d v = S d v"
  shows "members_ok R fs vs = members_ok S fs' vs'"
  unfolding members_ok_def assms(1,2)
  by (rule list.rel_cong) (use assms(3) in auto)

lemma pv_size_member: "(m, v) \<in> set vs \<Longrightarrow> size v < size (FStructure sid vs)"
  by (induction vs) auto

lemma pv_size_item: "Some (sid, vs) \<in> set items \<Longrightarrow> (m, v) \<in> set vs \<Longrightarrow> size v < size (FStructureArray items)"
proof -
  have "(m, v) \<in> set vs \<Longrightarrow> size v < Suc (size_list (size_prod (\<lambda>_. 0) size) vs)"
    by (induction vs) auto
  then show "Some (sid, vs) \<in> set items \<Longrightarrow> (m, v) \<in> set vs \<Longrightarrow> size v < size (FStructureArray items)"
    by (induction items) auto
qed

lemma pv_size_union: "Some (sel, n, v) \<in> set items \<Longrightarrow> size v < size (FUnionArray items)"
  by (induction items) auto

lemma pv_size_variant: "Some (od, v) \<in> set items \<Longrightarrow> size v < size (FVariantArray items)"
  by (induction items) auto

lemma pv_size_box: "size v < size (FUnion sel n v)" "size v < size (FVariant od v)"
  by simp_all

function conforms :: "field_desc \<Rightarrow> pv_field \<Rightarrow> bool" where
  "conforms d f =
     (case (d, f) of
        (DScalar st, FScalar v) \<Rightarrow> scalar_type_of v = st
      | (DScalarArray st, FScalarArrayTyped a) \<Rightarrow> array_type_of a = st
      | (DScalarArray st, FScalarArray vs) \<Rightarrow> list_all (\<lambda>v. scalar_type_of v = st) vs
      | (DStructure sid fs, FStructure sid' vs) \<Rightarrow> members_ok conforms fs vs
      | (DStructureArray sid fs, FStructureArray items) \<Rightarrow>
          list_all (\<lambda>i. case i of None \<Rightarrow> True | Some (sid', vs) \<Rightarrow> members_ok conforms fs vs) items
      | (DUnion sid vs, FUnion sel name v) \<Rightarrow>
          (sel = - 1 \<and> v = FNull) \<or>
          (\<exists>i<length vs. sel = of_nat i \<and> name = fst (vs ! i) \<and> conforms (snd (vs ! i)) v)
      | (DUnionArray sid vs, FUnionArray items) \<Rightarrow>
          list_all (\<lambda>i. case i of None \<Rightarrow> True | Some (sel, name, v) \<Rightarrow>
            (\<exists>i<length vs. sel = of_nat i \<and> name = fst (vs ! i) \<and> conforms (snd (vs ! i)) v)) items
      | (DVariant, FVariant od v) \<Rightarrow> (case od of None \<Rightarrow> v = FNull | Some e \<Rightarrow> conforms e v)
      | (DVariantArray, FVariantArray items) \<Rightarrow>
          list_all (\<lambda>i. case i of None \<Rightarrow> True | Some (od, v) \<Rightarrow>
            (case od of None \<Rightarrow> v = FNull | Some e \<Rightarrow> conforms e v)) items
      | _ \<Rightarrow> False)"
  by pat_completeness auto
termination
  by (relation "measure (\<lambda>(d, f). size f)")
    (auto simp: pv_size_union pv_size_variant pv_size_item pv_size_member pv_size_box simp del: pv_field.size)

declare conforms.simps [simp del]

lemma conforms_structure:
  "conforms (DStructure sid fs) f \<longleftrightarrow> (\<exists>sid' vs. f = FStructure sid' vs \<and> members_ok conforms fs vs)"
  by (subst conforms.simps) (cases f; simp)

lemma conforms_leaf [simp]:
  "conforms (DScalar st) (FScalar v) \<longleftrightarrow> scalar_type_of v = st"
  "conforms (DScalarArray st) (FScalarArrayTyped a) \<longleftrightarrow> array_type_of a = st"
  "conforms DVariant (FVariant od w) \<longleftrightarrow> (case od of None \<Rightarrow> w = FNull | Some e \<Rightarrow> conforms e w)"
  by (subst conforms.simps; simp)+

lemma conforms_Null [simp]: "\<not> conforms d FNull"
  by (subst conforms.simps) (cases d; simp)

text \<open>What a conforming value holds, by its descriptor.\<close>

lemma conforms_cases:
  assumes "conforms d f"
  obtains st v where "d = DScalar st" "f = FScalar v" "scalar_type_of v = st"
  | st a where "d = DScalarArray st" "f = FScalarArrayTyped a" "array_type_of a = st"
  | st vs where "d = DScalarArray st" "f = FScalarArray vs"
  | sid fs i vs where "d = DStructure sid fs" "f = FStructure i vs" "members_ok conforms fs vs"
  | sid fs its where "d = DStructureArray sid fs" "f = FStructureArray its"
      "\<forall>i vs. Some (i, vs) \<in> set its \<longrightarrow> members_ok conforms fs vs"
  | sid vs where "d = DUnion sid vs" "\<exists>n. f = FUnion (- 1) n FNull"
  | sid vs i v where "d = DUnion sid vs" "f = FUnion (of_nat i) (fst (vs ! i)) v" "i < length vs"
      "conforms (snd (vs ! i)) v"
  | sid vs its where "d = DUnionArray sid vs" "f = FUnionArray its"
      "\<forall>sel n v. Some (sel, n, v) \<in> set its \<longrightarrow>
         (\<exists>i<length vs. sel = of_nat i \<and> n = fst (vs ! i) \<and> conforms (snd (vs ! i)) v)"
  | "d = DVariant" "f = FVariant None FNull"
  | e v where "d = DVariant" "f = FVariant (Some e) v" "conforms e v"
  | its where "d = DVariantArray" "f = FVariantArray its"
      "\<forall>od v. Some (od, v) \<in> set its \<longrightarrow> (case od of None \<Rightarrow> v = FNull | Some e \<Rightarrow> conforms e v)"
proof (cases d)
  case (DScalar st)
  with assms that(1) show ?thesis by (subst (asm) conforms.simps) (auto split: pv_field.splits)
next
  case (DScalarArray st)
  with assms that(2,3) show ?thesis by (subst (asm) conforms.simps) (auto split: pv_field.splits)
next
  case DVariant
  with assms that(9,10) show ?thesis
    by (subst (asm) conforms.simps) (auto split: pv_field.splits option.splits)
next
  case DVariantArray
  with assms that(11) show ?thesis
    by (subst (asm) conforms.simps) (fastforce split: pv_field.splits simp: list_all_iff)
next
  case (DStructure sid fs)
  with assms that(4) show ?thesis by (auto simp: conforms_structure)
next
  case (DStructureArray sid fs)
  with assms that(5) show ?thesis
    by (subst (asm) conforms.simps) (fastforce split: pv_field.splits simp: list_all_iff)
next
  case (DUnion sid vs)
  with assms that(6,7) show ?thesis by (subst (asm) conforms.simps) (auto split: pv_field.splits)
next
  case (DUnionArray sid vs)
  with assms that(8) show ?thesis
    by (subst (asm) conforms.simps) (fastforce split: pv_field.splits simp: list_all_iff)
qed

section \<open>Paths of conforming values\<close>

lemma members_ok_get:
  "members_ok R fs vs \<Longrightarrow> map_of fs s = Some c \<Longrightarrow> \<exists>v. map_of vs s = Some v \<and> R c v"
  unfolding members_ok_def by (induction rule: list_all2_induct) (auto split: if_splits)

lemma members_ok_dom: "members_ok R fs vs \<Longrightarrow> map_of vs s = None \<longleftrightarrow> map_of fs s = None"
  unfolding members_ok_def by (induction rule: list_all2_induct) auto

lemma members_ok_update:
  "members_ok R fs vs \<Longrightarrow> map_of fs s = Some c \<Longrightarrow> R c v \<Longrightarrow> members_ok R fs (update_first s v vs)"
  unfolding members_ok_def
proof (induction rule: list_all2_induct)
  case (Cons m fs v' vs)
  then show ?case by (cases v') (auto split: if_splits)
qed simp

lemma conforms_walk:
  "conforms d f \<Longrightarrow> walk desc_child d ss = Some c \<Longrightarrow>
     \<exists>v. walk field_child f ss = Some v \<and> conforms c v"
proof (induction ss arbitrary: d f)
  case (Cons s ss)
  then obtain sid fs e where d: "d = DStructure sid fs" "map_of fs s = Some e"
    "walk desc_child e ss = Some c"
    by (cases d) (auto simp: desc_child_map_of simp del: desc_child.simps(1) split: option.splits)
  with Cons.prems obtain sid' vs v where f: "f = FStructure sid' vs" "map_of vs s = Some v" "conforms e v"
    by (auto simp: conforms_structure dest!: members_ok_get)
  with d Cons.IH [OF f(3) d(3)] show ?case by simp
qed simp

lemma conforms_field_at:
  "conforms d f \<Longrightarrow> desc_at d p = Some c \<Longrightarrow> \<exists>v. field_at f p = Some v \<and> conforms c v"
  unfolding desc_at_def field_at_def by (rule conforms_walk)

text \<open>Writing a conforming field at a path keeps the root conforming.\<close>

lemma conforms_put:
  "conforms d f \<Longrightarrow> walk desc_child d ss = Some c \<Longrightarrow> put_walk ss g f = Some f' \<Longrightarrow>
     (\<And>v. conforms c v \<Longrightarrow> conforms c (g v)) \<Longrightarrow> conforms d f'"
proof (induction ss arbitrary: d f f')
  case (Cons s ss)
  then obtain sid fs e where d: "d = DStructure sid fs" "map_of fs s = Some e"
    "walk desc_child e ss = Some c"
    by (cases d) (auto simp: desc_child_map_of simp del: desc_child.simps(1) split: option.splits)
  with Cons.prems(1) obtain sid' vs where vs: "f = FStructure sid' vs" "members_ok conforms fs vs"
    by (auto simp: conforms_structure)
  with d(2) obtain v where f: "f = FStructure sid' vs" "members_ok conforms fs vs"
    "map_of vs s = Some v" "conforms e v"
    by (blast dest: members_ok_get)
  with Cons.prems(3) obtain v' where v': "put_walk ss g v = Some v'"
    "f' = FStructure sid' (update_first s v' vs)"
    by auto
  with Cons.IH [OF f(4) d(3) v'(1) Cons.prems(4)] f d show ?case
    by (auto simp: conforms_structure intro: members_ok_update)
qed auto

lemma conforms_field_at_mut:
  "conforms d f \<Longrightarrow> desc_at d p = Some c \<Longrightarrow> field_at_mut f p g = Some f' \<Longrightarrow>
     (\<And>v. conforms c v \<Longrightarrow> conforms c (g v)) \<Longrightarrow> conforms d f'"
  unfolding desc_at_def field_at_mut_def by (rule conforms_put)

section \<open>Default values\<close>

text \<open>
  The library's \<open>default_value_for\<close> is a parameter \<open>dv\<close> of the definitions that call it; what they
  rely on is that a default conforms to its descriptor. \<open>ref_default\<close> is a function that does.
\<close>

fun ref_scalar :: "scalar_type \<Rightarrow> scalar_value" where
  "ref_scalar StBoolean = SvBoolean False"
| "ref_scalar StByte = SvByte 0"
| "ref_scalar StUByte = SvUByte 0"
| "ref_scalar StShort = SvShort 0"
| "ref_scalar StUShort = SvUShort 0"
| "ref_scalar StInt = SvInt 0"
| "ref_scalar StUInt = SvUInt 0"
| "ref_scalar StLong = SvLong 0"
| "ref_scalar StULong = SvULong 0"
| "ref_scalar StFloat = SvFloat 0"
| "ref_scalar StDouble = SvDouble 0"
| "ref_scalar StString = SvString []"

fun ref_default :: "field_desc \<Rightarrow> pv_field" where
  "ref_default (DScalar st) = FScalar (ref_scalar st)"
| "ref_default (DScalarArray st) = FScalarArray []"
| "ref_default DVariant = FVariant None FNull"
| "ref_default DVariantArray = FVariantArray []"
| "ref_default (DStructure sid fs) = FStructure sid (map (\<lambda>(n, d). (n, ref_default d)) fs)"
| "ref_default (DStructureArray sid fs) = FStructureArray []"
| "ref_default (DUnion sid vs) = FUnion (- 1) [] FNull"
| "ref_default (DUnionArray sid vs) = FUnionArray []"

lemma ref_scalar_type [simp]: "scalar_type_of (ref_scalar st) = st"
  by (cases st) auto

lemma members_ok_map:
  "(\<And>n d. (n, d) \<in> set fs \<Longrightarrow> R d (g d)) \<Longrightarrow> members_ok R fs (map (\<lambda>(n, d). (n, g d)) fs)"
  unfolding members_ok_def by (induction fs) (auto, blast)

lemma ref_default_conforms: "conforms d (ref_default d)"
proof (induction d rule: ref_default.induct)
  case (5 sid fs)
  then have "members_ok conforms fs (map (\<lambda>(n, d). (n, ref_default d)) fs)"
    by (intro members_ok_map) blast
  then show ?case by (simp add: conforms_structure)
qed (subst conforms.simps; simp)+

end
