(* ===== verification/PvValue.thy ===== *)
theory PvValue
  imports PvMarks PvConform
begin

text \<open>
  The operations of \<open>Value\<close> in \<open>src/src/pva/value.rs\<close> that read and write marks and select union
  members. Each takes the prefix of the view and the locked root; an operation that writes returns
  the root as it leaves it. The library's numbering is the pair of parameters \<open>tb\<close>, \<open>bp\<close>, its
  \<open>default_value_for\<close> the parameter \<open>dv\<close>.
\<close>

section \<open>Ancestors of a path\<close>

lemma clean_parent:
  assumes "clean_path p"
  obtains "parent_path p = None" "p = [] \<or> plain_name p"
  | q n where "parent_path p = Some q" "p = join q n" "clean_path q" "q \<noteq> []" "plain_name n"
      "segments p = segments q @ [n]"
proof (cases "parent_path p")
  case None
  with assms that(1) show ?thesis
    by (auto simp: parent_path_None clean_path_def split_dot_no_dot plain_name_def)
next
  case (Some q)
  then obtain n where n: "CHR ''.'' \<notin> set n" "p = q @ CHR ''.'' # n"
    by (blast dest: parent_path_Some)
  with assms have "[] \<notin> set (split_dot q)" "n \<noteq> []"
    by (auto simp: clean_path_def split_dot_append split_dot_no_dot)
  moreover from this(1) have "q \<noteq> []" by auto
  ultimately show ?thesis
    using n Some by (intro that(2) [of q n]) (auto simp: clean_path_def plain_name_def join_def)
qed

lemma strict_prefix_single: "strict_prefix ss [n] \<longleftrightarrow> ss = []"
  by (cases ss) auto

lemma ancestors_iff:
  "clean_path p \<Longrightarrow>
     q \<in> set (ancestors p) \<longleftrightarrow> clean_path q \<and> q \<noteq> [] \<and> strict_prefix (segments q) (segments p)"
proof (induction p rule: ancestors.induct)
  case (1 p)
  from "1.prems" show ?case
  proof (cases rule: clean_parent)
    case 1
    then show ?thesis
      by (subst ancestors.simps) (auto simp: clean_segments_empty strict_prefix_single)
  next
    case (2 q' n)
    have "strict_prefix (segments q) (segments p) \<longleftrightarrow>
        segments q = segments q' \<or> strict_prefix (segments q) (segments q')"
      unfolding 2(6) strict_prefix_def by auto
    with 2 "1.IH" [OF 2(1)] show ?thesis
      by (subst ancestors.simps) (auto intro: clean_path_inject)
  qed
qed

section \<open>Whole-root access and leaves\<close>

definition with_root :: "string \<Rightarrow> root \<Rightarrow> (root \<Rightarrow> 'a) \<Rightarrow> 'a res" where
  "with_root pre r f =
     (if pre \<noteq> [] then
        Inl (TypeError (Msg ''a sub-structure view cannot be sent; pass the root Value'' []))
      else Inr (f r))"

definition snapshot :: "string \<Rightarrow> root \<Rightarrow> (field_desc \<times> pv_field \<times> nat set) res" where
  "snapshot pre r = with_root pre r (\<lambda>g. (r_desc g, r_field g, r_marks g))"

definition marked_leaves ::
  "(field_desc \<Rightarrow> nat) \<Rightarrow> string \<Rightarrow> root \<Rightarrow> (string \<times> pv_field) list res"
where
  "marked_leaves tb pre r =
     bind_res (snapshot pre r) (\<lambda>(desc, field, marks).
       let paths = collect_marked tb desc 0 [] marks False True
       in Inr (List.map_filter (\<lambda>p. map_option (Pair p) (field_at field p)) paths))"

section \<open>Changed\<close>

definition no_such_member :: "string \<Rightarrow> pyexc" where
  "no_such_member name = KeyError (Msg ''no such member field {name:?}'' [AStr name])"

definition path_vanished :: pyexc where
  "path_vanished = KeyError (Msg ''view path vanished'' [])"

definition bit_marked :: "(field_desc \<Rightarrow> string \<Rightarrow> nat option) \<Rightarrow> root \<Rightarrow> string \<Rightarrow> bool" where
  "bit_marked bp r p = (case bp (r_desc r) p of None \<Rightarrow> False | Some b \<Rightarrow> b \<in> r_marks r)"

definition changed_one ::
  "(field_desc \<Rightarrow> nat) \<Rightarrow> (field_desc \<Rightarrow> string \<Rightarrow> nat option) \<Rightarrow> string \<Rightarrow> root \<Rightarrow> string \<Rightarrow> bool res"
where
  "changed_one tb bp pre r name =
     (let path = join pre name in
      case desc_at (r_desc r) path of
        None \<Rightarrow> Inl (no_such_member name)
      | Some sub \<Rightarrow>
          let start = (case bp (r_desc r) path of None \<Rightarrow> 0 | Some b \<Rightarrow> b);
              stop = start + tb sub
          in Inr (list_ex (\<lambda>b. b \<in> r_marks r) [start..<stop] \<or>
               list_ex (bit_marked bp r) (ancestors path) \<or>
               0 \<in> r_marks r))"

fun changed_loop ::
  "(field_desc \<Rightarrow> nat) \<Rightarrow> (field_desc \<Rightarrow> string \<Rightarrow> nat option) \<Rightarrow> string \<Rightarrow> root \<Rightarrow> string list \<Rightarrow>
     bool res"
where
  "changed_loop tb bp pre r [] = Inr False"
| "changed_loop tb bp pre r (name # names) =
     bind_res (changed_one tb bp pre r name) (\<lambda>c.
       if c then Inr True else changed_loop tb bp pre r names)"

definition changed ::
  "(field_desc \<Rightarrow> nat) \<Rightarrow> (field_desc \<Rightarrow> string \<Rightarrow> nat option) \<Rightarrow> string \<Rightarrow> root \<Rightarrow> string list \<Rightarrow>
     bool res"
where
  "changed tb bp pre r names =
     changed_loop tb bp pre r (if names = [] then [[]] else names)"

definition changedSet ::
  "(field_desc \<Rightarrow> nat) \<Rightarrow> (field_desc \<Rightarrow> string \<Rightarrow> nat option) \<Rightarrow> string \<Rightarrow> root \<Rightarrow> bool \<Rightarrow> bool \<Rightarrow>
     string set res"
where
  "changedSet tb bp pre r expand parents =
     (case desc_at (r_desc r) pre of
        None \<Rightarrow> Inl path_vanished
      | Some sub \<Rightarrow>
          let b = (case bp (r_desc r) pre of None \<Rightarrow> 0 | Some b \<Rightarrow> b);
              ancestor = (0 \<in> r_marks r \<or> list_ex (bit_marked bp r) (ancestors pre));
              out = set (collect_marked tb sub b [] (r_marks r) ancestor expand)
          in Inr (if parents then out \<union> \<Union> ((set \<circ> ancestors) ` out) else out))"

section \<open>Mark, unmark, select\<close>

definition mark ::
  "(field_desc \<Rightarrow> nat) \<Rightarrow> (field_desc \<Rightarrow> string \<Rightarrow> nat option) \<Rightarrow> string \<Rightarrow> root \<Rightarrow> string option \<Rightarrow>
     bool \<Rightarrow> root \<times> unit res"
where
  "mark tb bp pre r field val =
     (let name = (case field of None \<Rightarrow> [] | Some f \<Rightarrow> f);
          path = join pre name
      in case field of
           Some _ \<Rightarrow>
             (case bp (r_desc r) path of
                None \<Rightarrow> (r, Inl (no_such_member name))
              | Some b \<Rightarrow>
                  if val then (r\<lparr>r_marks := insert b (r_marks r)\<rparr>, Inr ())
                  else (fst (mark_span tb bp r path False), Inr ()))
         | None \<Rightarrow>
             (case mark_span tb bp r path val of
                (r', True) \<Rightarrow> (r', Inr ())
              | (r', False) \<Rightarrow> (r', Inl path_vanished)))"

definition unmark ::
  "(field_desc \<Rightarrow> nat) \<Rightarrow> (field_desc \<Rightarrow> string \<Rightarrow> nat option) \<Rightarrow> string \<Rightarrow> root \<Rightarrow> string option \<Rightarrow>
     root \<times> unit res"
where
  "unmark tb bp pre r field = mark tb bp pre r field False"

definition no_such_union :: "string \<Rightarrow> pyexc" where
  "no_such_union name = KeyError (Msg ''no such union field {field:?}'' [AStr name])"

definition selected :: "(field_desc \<Rightarrow> pv_field) \<Rightarrow> (string \<times> field_desc) list \<Rightarrow> string option \<Rightarrow>
  pv_field res"
where
  "selected dv variants selector =
     (case selector of
        None \<Rightarrow> Inr (FUnion (- 1) [] FNull)
      | Some name \<Rightarrow>
          (case find_idx (\<lambda>v. fst v = name) variants of
             None \<Rightarrow> Inl (KeyError (Msg ''union has no member {name:?}'' [AStr name]))
           | Some (idx, (vname, vdesc)) \<Rightarrow> Inr (FUnion (of_nat idx) vname (dv vdesc))))"

definition select ::
  "(field_desc \<Rightarrow> string \<Rightarrow> nat option) \<Rightarrow> (field_desc \<Rightarrow> pv_field) \<Rightarrow> string \<Rightarrow> root \<Rightarrow> string \<Rightarrow>
     string option \<Rightarrow> root \<times> unit res"
where
  "select bp dv pre r field selector =
     (let path = join pre field in
      case desc_at (r_desc r) path of
        Some (DUnion _ variants) \<Rightarrow>
          (case field_at (r_field r) path of
             None \<Rightarrow> (r, Inl (no_such_union field))
           | Some _ \<Rightarrow>
               (case selected dv variants selector of
                  Inl e \<Rightarrow> (r, Inl e)
                | Inr u \<Rightarrow>
                    let f' = (case field_at_mut (r_field r) path (\<lambda>_. u) of
                                None \<Rightarrow> r_field r | Some f \<Rightarrow> f);
                        m' = (case bp (r_desc r) path of
                                None \<Rightarrow> r_marks r | Some b \<Rightarrow> insert b (r_marks r))
                    in (r\<lparr>r_field := f', r_marks := m'\<rparr>, Inr ())))
      | _ \<Rightarrow> (r, Inl (no_such_union field)))"

section \<open>Descriptor queries\<close>

definition has :: "string \<Rightarrow> root \<Rightarrow> string \<Rightarrow> bool" where
  "has pre r key = (desc_at (r_desc r) (join pre key) \<noteq> None)"

definition keys :: "string \<Rightarrow> root \<Rightarrow> string list res" where
  "keys pre r =
     (case desc_at (r_desc r) pre of
        Some (DStructure _ fs) \<Rightarrow> Inr (map fst fs)
      | _ \<Rightarrow> Inl (TypeError (Msg ''not a structure'' [])))"

definition getID :: "string \<Rightarrow> root \<Rightarrow> string res" where
  "getID pre r =
     (case desc_at (r_desc r) pre of
        Some (DStructure sid _) \<Rightarrow> Inr sid
      | _ \<Rightarrow> Inl (TypeError (Msg ''not a structure'' [])))"

section \<open>Bits of paths\<close>

lemma bp_path:
  "bit_for_path_ok tb bp \<Longrightarrow> clean_path p \<Longrightarrow> bp d p = path_bit tb d 0 (segments p)"
  by (simp add: bit_for_path_ok_def)

lemma bp_defined:
  "bit_for_path_ok tb bp \<Longrightarrow> clean_path p \<Longrightarrow> desc_at d p = Some c \<Longrightarrow> \<exists>x. bp d p = Some x"
  using path_bit_None [of tb d 0 "segments p"] by (auto simp: bp_path desc_at_def)

lemma bit_marked_path:
  "bit_for_path_ok tb bp \<Longrightarrow> clean_path p \<Longrightarrow>
     bit_marked bp r p \<longleftrightarrow> (\<exists>x. path_bit tb (r_desc r) 0 (segments p) = Some x \<and> x \<in> r_marks r)"
  by (auto simp: bit_marked_def bp_path split: option.splits)

text \<open>A bit inside the interval of a path is the bit of that path or of one below it.\<close>

lemma span_paths:
  assumes ok: "total_bits_ok tb" "bit_for_path_ok tb bp" and wf: "wf_desc d"
    and p: "clean_path p" "desc_at d p = Some c" "bp d p = Some x"
  shows "x \<le> y \<and> y < x + tb c \<longleftrightarrow>
    (\<exists>q. clean_path q \<and> prefix (segments p) (segments q) \<and> bp d q = Some y)"
proof
  from p ok have w: "walk desc_child d (segments p) = Some c" "path_bit tb d 0 (segments p) = Some x"
    by (simp_all add: desc_at_def bp_path)
  assume y: "x \<le> y \<and> y < x + tb c"
  with path_bit_bounds [OF ok(1) w] have "y < 0 + tb d" by simp
  then obtain ts where ts: "path_bit tb d 0 ts = Some y" "list_all plain_name ts"
    using path_bit_cover [OF ok(1) wf, of 0 y] by auto
  then obtain e where "walk desc_child d ts = Some e"
    using path_bit_None [of tb d 0 ts] by fastforce
  from path_span [OF ok(1) w this ts(1)] y have "prefix (segments p) ts" by simp
  with ts ok(2) show "\<exists>q. clean_path q \<and> prefix (segments p) (segments q) \<and> bp d q = Some y"
    by (intro exI [of _ "path_of [] ts"]) (simp add: clean_path_of segments_path_of bp_path)
next
  assume "\<exists>q. clean_path q \<and> prefix (segments p) (segments q) \<and> bp d q = Some y"
  then obtain q where q: "clean_path q" "prefix (segments p) (segments q)" "bp d q = Some y" by blast
  with ok have wy: "path_bit tb d 0 (segments q) = Some y" by (simp add: bp_path)
  then obtain e where "walk desc_child d (segments q) = Some e"
    using path_bit_None [of tb d 0 "segments q"] by fastforce
  from path_span [OF ok(1) _ _ this wy, of "segments p" c x] p ok q(2)
  show "x \<le> y \<and> y < x + tb c" by (simp add: desc_at_def bp_path)
qed

text \<open>A path related to \<open>p\<close>: at it, above it or below it.\<close>

definition related :: "string \<Rightarrow> string \<Rightarrow> bool" where
  "related p q \<longleftrightarrow> prefix (segments q) (segments p) \<or> prefix (segments p) (segments q)"

lemma changed_one_related:
  assumes ok: "total_bits_ok tb" "bit_for_path_ok tb bp" and wf: "wf_desc (r_desc r)"
    and clean: "clean_path pre" "clean_path name"
    and at: "desc_at (r_desc r) (join pre name) = Some sub"
  shows "changed_one tb bp pre r name =
    Inr (\<exists>q. clean_path q \<and> bit_marked bp r q \<and> related (join pre name) q)"
proof -
  let ?p = "join pre name" and ?d = "r_desc r"
  have p: "clean_path ?p" using clean by (rule clean_path_join)
  from bp_defined [OF ok(2) p at] obtain x where x: "bp ?d ?p = Some x" by blast
  have "list_ex (\<lambda>b. b \<in> r_marks r) [x..<x + tb sub] \<longleftrightarrow>
      (\<exists>y. (x \<le> y \<and> y < x + tb sub) \<and> y \<in> r_marks r)"
    by (auto simp: list_ex_iff)
  also have "\<dots> \<longleftrightarrow> (\<exists>q. clean_path q \<and> bit_marked bp r q \<and> prefix (segments ?p) (segments q))"
    unfolding span_paths [OF ok wf p at x] by (auto simp: bit_marked_def split: option.splits)
  finally have below: "list_ex (\<lambda>b. b \<in> r_marks r) [x..<x + tb sub] \<longleftrightarrow>
      (\<exists>q. clean_path q \<and> bit_marked bp r q \<and> prefix (segments ?p) (segments q))" .
  have root: "0 \<in> r_marks r \<longleftrightarrow> bit_marked bp r []"
    using ok(2) by (simp add: bit_marked_path)
  have above: "list_ex (bit_marked bp r) (ancestors ?p) \<or> 0 \<in> r_marks r \<longleftrightarrow>
      (\<exists>q. clean_path q \<and> bit_marked bp r q \<and> (q = [] \<or> strict_prefix (segments q) (segments ?p)))"
    unfolding root list_ex_iff by (auto simp: ancestors_iff [OF p] intro: exI [of _ "[]"])
  have "(\<exists>q. clean_path q \<and> bit_marked bp r q \<and> related ?p q) \<longleftrightarrow>
      (\<exists>q. clean_path q \<and> bit_marked bp r q \<and> prefix (segments ?p) (segments q)) \<or>
      (\<exists>q. clean_path q \<and> bit_marked bp r q \<and> (q = [] \<or> strict_prefix (segments q) (segments ?p)))"
    unfolding related_def strict_prefix_def by auto (metis prefix_order.refl)+
  with at x below above show ?thesis
    by (simp add: changed_one_def)
qed

section \<open>Properties\<close>

lemma changed_loop_related:
  assumes ok: "total_bits_ok tb" "bit_for_path_ok tb bp" and wf: "wf_desc (r_desc r)"
    and pre: "clean_path pre"
  shows "(\<forall>n \<in> set names. clean_path n \<and> has pre r n) \<Longrightarrow>
    changed_loop tb bp pre r names =
      Inr (\<exists>n \<in> set names. \<exists>q. clean_path q \<and> bit_marked bp r q \<and> related (join pre n) q)"
proof (induction names)
  case (Cons n names)
  then obtain sub where "desc_at (r_desc r) (join pre n) = Some sub" "clean_path n"
    by (auto simp: has_def)
  from changed_one_related [OF ok wf pre this(2,1)] Cons show ?case by auto
qed simp

text \<open>A value with a nested structure, one of whose members is marked.\<close>

definition sample_desc :: field_desc where
  "sample_desc = DStructure []
     [(''a'', DScalar StInt),
      (''s'', DStructure [] [(''x'', DScalar StDouble), (''u'', DUnion [] [(''i'', DScalar StInt)])])]"

definition sample_root :: root where
  "sample_root = \<lparr>r_desc = sample_desc,
     r_field = FStructure []
       [(''a'', FScalar (SvInt 7)),
        (''s'', FStructure [] [(''x'', FScalar (SvDouble 0)), (''u'', FUnion (- 1) [] FNull)])],
     r_marks = {3}\<rparr>"

lemma plain_literals [simp]: "plain_name ''a''" "plain_name ''s''" "plain_name ''x''" "plain_name ''u''"
  by (simp_all add: plain_name_def)

lemma sample_wf [simp]: "wf_desc (r_desc sample_root)"
  by (simp add: sample_root_def sample_desc_def)

lemma sample_conforms [simp]: "conforms (r_desc sample_root) (r_field sample_root)"
  by (simp add: sample_root_def sample_desc_def conforms.simps members_ok_def)

lemma sample_has [simp]: "has [] sample_root ''s''" "has [] sample_root ''a''" "has ''s'' sample_root ''x''"
  by (simp_all add: has_def sample_root_def sample_desc_def desc_at_def)

text \<open>
  C13. \<open>Value.changed\<close> answers for each named field (for the view itself when none is named)
  whether the field, an ancestor or a descendant of it is marked: the interval of bits it scans,
  the loop over the dotted prefixes and the test of bit 0 together find exactly the marked paths
  related to the field.
\<close>

theorem changed_iff_related_mark:
  assumes "total_bits_ok tb" and "bit_for_path_ok tb bp" and "wf_desc (r_desc r)"
    and "clean_path pre"
    and "\<forall>n \<in> set (if names = [] then [[]] else names). clean_path n \<and> has pre r n"
  shows "changed tb bp pre r names =
    Inr (\<exists>n \<in> set (if names = [] then [[]] else names).
      \<exists>q. clean_path q \<and> bit_marked bp r q \<and> related (join pre n) q)"
  unfolding changed_def by (rule changed_loop_related [OF assms])

theorem changed_iff_related_mark_witness:
  "changed ref_bits ref_bit_for_path [] sample_root [''s''] =
    Inr (\<exists>n \<in> set (if [''s''] = [] then [[]] else [''s'']).
      \<exists>q. clean_path q \<and> bit_marked ref_bit_for_path sample_root q \<and> related (join [] n) q)"
  by (rule changed_iff_related_mark [OF ref_bits_ok ref_bit_for_path_ok sample_wf])
    (simp_all add: clean_path_plain)

lemma walk_wf:
  "wf_desc d \<Longrightarrow> walk desc_child d ss = Some c \<Longrightarrow> list_all plain_name ss \<and> wf_desc c"
proof (induction ss arbitrary: d)
  case (Cons s ss)
  then obtain sid fs e where d: "d = DStructure sid fs" "map_of fs s = Some e"
    "walk desc_child e ss = Some c"
    by (cases d) (auto simp: desc_child_map_of simp del: desc_child.simps(1) split: option.splits)
  from d(2) have "(s, e) \<in> set fs" by (rule map_of_SomeD)
  with Cons.prems(1) d(1) have "plain_name s" "wf_desc e" by (auto simp: list_all_iff)
  with Cons.IH d(3) show ?case by simp
qed simp

lemma covered_paths:
  assumes ok: "bit_for_path_ok tb bp" and wf: "wf_desc (r_desc r)"
  shows "covered tb (r_desc r) 0 (r_marks r) ss \<longleftrightarrow>
    (\<exists>q. clean_path q \<and> bit_marked bp r q \<and> prefix (segments q) ss)"
proof
  assume "covered tb (r_desc r) 0 (r_marks r) ss"
  then obtain ts x where x: "prefix ts ss" "path_bit tb (r_desc r) 0 ts = Some x" "x \<in> r_marks r"
    by (auto simp: covered_def)
  then obtain c where "walk desc_child (r_desc r) ts = Some c"
    using path_bit_None [of tb "r_desc r" 0 ts] by fastforce
  with wf have "list_all plain_name ts" by (blast dest: walk_wf)
  with x ok show "\<exists>q. clean_path q \<and> bit_marked bp r q \<and> prefix (segments q) ss"
    by (intro exI [of _ "path_of [] ts"]) (simp add: clean_path_of segments_path_of bit_marked_path)
next
  assume "\<exists>q. clean_path q \<and> bit_marked bp r q \<and> prefix (segments q) ss"
  with ok show "covered tb (r_desc r) 0 (r_marks r) ss"
    by (auto simp: covered_def bit_marked_path)
qed

lemma collected_leaf:
  assumes ok: "bit_for_path_ok tb bp" and wf: "wf_desc (r_desc r)"
  shows "p \<in> set (collect_marked tb (r_desc r) 0 [] (r_marks r) False True) \<longleftrightarrow>
    p \<noteq> [] \<and> clean_path p \<and> (\<exists>c. desc_at (r_desc r) p = Some c \<and> \<not> is_structure c) \<and>
    (\<exists>q. clean_path q \<and> bit_marked bp r q \<and> prefix (segments q) (segments p))"
    (is "?l \<longleftrightarrow> ?r")
proof
  assume ?l
  then obtain ss c where p: "p = path_of [] ss" "p \<noteq> []" "walk desc_child (r_desc r) ss = Some c"
    "\<not> is_structure c" "covered tb (r_desc r) 0 (r_marks r) ss"
    by (auto simp: collect_marked_expand [OF wf])
  with wf have "list_all plain_name ss" by (blast dest: walk_wf)
  with p show ?r
    by (simp add: covered_paths [OF ok wf] clean_path_of segments_path_of desc_at_def)
next
  assume ?r
  then show ?l
    unfolding collect_marked_expand [OF wf] covered_paths [OF ok wf] desc_at_def
    by (metis path_of_segments)
qed

lemma marked_leaves_iff:
  assumes "bit_for_path_ok tb bp" and "wf_desc (r_desc r)" and "conforms (r_desc r) (r_field r)"
  shows "\<exists>ls. marked_leaves tb [] r = Inr ls \<and>
    (\<forall>p v. (p, v) \<in> set ls \<longleftrightarrow>
      p \<noteq> [] \<and> clean_path p \<and> (\<exists>c. desc_at (r_desc r) p = Some c \<and> \<not> is_structure c) \<and>
      (\<exists>q. clean_path q \<and> bit_marked bp r q \<and> prefix (segments q) (segments p)) \<and>
      field_at (r_field r) p = Some v)"
  unfolding marked_leaves_def snapshot_def with_root_def
  by (auto simp: map_filter_def collected_leaf [OF assms(1,2)] image_iff
      dest: conforms_field_at [OF assms(3)])



text \<open>
  C24. \<open>Value.unmark(field)\<close> clears the marks of the field and of everything below it and no
  other: the marks of its ancestors and of unrelated fields stay, and the field's data too.
\<close>

theorem unmark_clears_subtree:
  assumes ok: "total_bits_ok tb" "bit_for_path_ok tb bp"
    and clean: "clean_path pre" "clean_path f" and has: "has pre r f"
  shows "\<exists>r'. unmark tb bp pre r (Some f) = (r', Inr ()) \<and>
    r_desc r' = r_desc r \<and> r_field r' = r_field r \<and>
    (\<forall>q. clean_path q \<longrightarrow>
      bit_marked bp r' q \<longleftrightarrow> bit_marked bp r q \<and> \<not> prefix (segments (join pre f)) (segments q))"
proof -
  let ?p = "join pre f" and ?d = "r_desc r"
  from has obtain c where c: "desc_at ?d ?p = Some c" by (auto simp: has_def)
  have p: "clean_path ?p" using clean by (rule clean_path_join)
  from bp_defined [OF ok(2) p c] obtain x where x: "bp ?d ?p = Some x" by blast
  define r' where "r' = r\<lparr>r_marks := {b \<in> r_marks r. b < x \<or> x + tb c \<le> b}\<rparr>"
  have "unmark tb bp pre r (Some f) = (r', Inr ())"
    using c x by (simp add: unmark_def mark_def mark_span_def Let_def r'_def Set.filter_eq)
  moreover have "bit_marked bp r' q \<longleftrightarrow> bit_marked bp r q \<and> \<not> prefix (segments ?p) (segments q)"
    if q: "clean_path q" for q
  proof (cases "bp ?d q")
    case None
    then show ?thesis by (simp add: bit_marked_def r'_def)
  next
    case (Some y)
    with q ok(2) have y: "path_bit tb ?d 0 (segments q) = Some y" by (simp add: bp_path)
    then obtain e where "walk desc_child ?d (segments q) = Some e"
      using path_bit_None [of tb ?d 0 "segments q"] by fastforce
    from path_span [OF ok(1) _ _ this y, of "segments ?p" c x] c x p ok(2)
    have "x \<le> y \<and> y < x + tb c \<longleftrightarrow> prefix (segments ?p) (segments q)"
      by (simp add: desc_at_def bp_path)
    with Some show ?thesis by (auto simp: bit_marked_def r'_def)
  qed
  ultimately show ?thesis by (intro exI [of _ r']) (simp add: r'_def)
qed

theorem unmark_clears_subtree_witness:
  "\<exists>r'. unmark ref_bits ref_bit_for_path ''s'' sample_root (Some ''x'') = (r', Inr ()) \<and>
    r_desc r' = r_desc sample_root \<and> r_field r' = r_field sample_root \<and>
    (\<forall>q. clean_path q \<longrightarrow>
      bit_marked ref_bit_for_path r' q \<longleftrightarrow>
        bit_marked ref_bit_for_path sample_root q \<and> \<not> prefix (segments (join ''s'' ''x'')) (segments q))"
  by (rule unmark_clears_subtree [OF ref_bits_ok ref_bit_for_path_ok])
    (simp_all add: clean_path_plain)

lemma covered_append:
  assumes "walk desc_child d ss = Some c" and "path_bit tb d b ss = Some x"
  shows "covered tb d b m (ss @ ts) \<longleftrightarrow> (\<exists>u. strict_prefix u ss \<and> covered tb d b m u) \<or> covered tb c x m ts"
proof
  assume "covered tb d b m (ss @ ts)"
  then obtain u y where u: "prefix u (ss @ ts)" "path_bit tb d b u = Some y" "y \<in> m"
    by (auto simp: covered_def)
  from u(1) consider "prefix u ss" "u \<noteq> ss" | v where "u = ss @ v" "prefix v ts"
    by (cases "u = ss") (auto simp: prefix_append)
  then show "(\<exists>u. strict_prefix u ss \<and> covered tb d b m u) \<or> covered tb c x m ts"
  proof cases
    case 1
    with u show ?thesis unfolding covered_def strict_prefix_def by blast
  next
    case 2
    with u assms show ?thesis unfolding covered_def by (auto simp: path_bit_append)
  qed
next
  assume "(\<exists>u. strict_prefix u ss \<and> covered tb d b m u) \<or> covered tb c x m ts"
  then show "covered tb d b m (ss @ ts)"
  proof
    assume "\<exists>u. strict_prefix u ss \<and> covered tb d b m u"
    then show ?thesis
      unfolding covered_def strict_prefix_def by (meson prefix_order.trans prefix_prefix)
  next
    assume "covered tb c x m ts"
    then obtain v y where "prefix v ts" "path_bit tb c x v = Some y" "y \<in> m"
      by (auto simp: covered_def)
    with assms show ?thesis
      unfolding covered_def by (intro exI [of _ "ss @ v"] exI [of _ y]) (simp add: path_bit_append)
  qed
qed

lemma topmost_append:
  assumes "walk desc_child d ss = Some c" and "path_bit tb d b ss = Some x"
  shows "topmost tb d b m (ss @ ts) \<longleftrightarrow>
    \<not> (\<exists>u. strict_prefix u (ss @ ts) \<and> \<not> prefix ss u \<and> covered tb d b m u) \<and> topmost tb c x m ts"
  (is "?l \<longleftrightarrow> ?r")
proof
  assume l: ?l
  have "\<not> covered tb c x m v" if "strict_prefix v ts" for v
  proof -
    from that have "strict_prefix (ss @ v) (ss @ ts)" by (simp add: strict_prefix_def)
    with l have "\<not> covered tb d b m (ss @ v)" by (simp add: topmost_def)
    with covered_append [OF assms] show ?thesis by blast
  qed
  with l assms show ?r by (auto simp: topmost_def path_bit_append)
next
  assume r: ?r
  have "\<not> covered tb d b m u" if u: "strict_prefix u (ss @ ts)" for u
  proof (cases "prefix ss u")
    case False
    with r u show ?thesis by blast
  next
    case True
    then obtain v where v: "u = ss @ v" by (auto elim: prefixE)
    with u have "strict_prefix v ts" by (simp add: strict_prefix_def)
    with r have "\<not> covered tb c x m v" by (simp add: topmost_def)
    moreover have "\<not> covered tb d b m w" if w: "strict_prefix w ss" for w
    proof -
      from w have "strict_prefix w (ss @ ts)" "\<not> prefix ss w"
        by (auto simp: strict_prefix_def dest: prefix_order.antisym)
      with r show ?thesis by blast
    qed
    ultimately show ?thesis using v covered_append [OF assms] by blast
  qed
  with r assms show ?l by (auto simp: topmost_def path_bit_append)
qed

lemma topmost_paths:
  assumes ok: "bit_for_path_ok tb bp" and wf: "wf_desc (r_desc r)"
  shows "topmost tb (r_desc r) 0 (r_marks r) ss \<longleftrightarrow>
    (\<exists>x. path_bit tb (r_desc r) 0 ss = Some x \<and> x \<in> r_marks r) \<and>
    \<not> (\<exists>u. clean_path u \<and> bit_marked bp r u \<and> strict_prefix (segments u) ss)"
proof -
  have "(\<exists>ts. strict_prefix ts ss \<and> covered tb (r_desc r) 0 (r_marks r) ts) \<longleftrightarrow>
      (\<exists>u. clean_path u \<and> bit_marked bp r u \<and> strict_prefix (segments u) ss)"
    unfolding covered_paths [OF ok wf]
    by (metis prefix_order.le_less_trans prefix_order.refl)
  then show ?thesis unfolding topmost_def by blast
qed

lemma ancestor_flag:
  assumes ok: "bit_for_path_ok tb bp" and wf: "wf_desc (r_desc r)" and pre: "clean_path pre"
  shows "0 \<in> r_marks r \<or> list_ex (bit_marked bp r) (ancestors pre) \<longleftrightarrow>
    0 \<in> r_marks r \<or>
      (\<exists>u. strict_prefix u (segments pre) \<and> covered tb (r_desc r) 0 (r_marks r) u)"
proof -
  have "list_ex (bit_marked bp r) (ancestors pre) \<longleftrightarrow>
      (\<exists>u. clean_path u \<and> u \<noteq> [] \<and> strict_prefix (segments u) (segments pre) \<and> bit_marked bp r u)"
    by (auto simp: list_ex_iff ancestors_iff [OF pre])
  moreover have "(\<exists>u. strict_prefix u (segments pre) \<and> covered tb (r_desc r) 0 (r_marks r) u) \<longleftrightarrow>
      (\<exists>u. clean_path u \<and> strict_prefix (segments u) (segments pre) \<and> bit_marked bp r u)"
    unfolding covered_paths [OF ok wf]
    by (metis prefix_order.le_less_trans prefix_order.refl)
  moreover have "bit_marked bp r [] \<longleftrightarrow> 0 \<in> r_marks r"
    using ok by (simp add: bit_marked_path)
  ultimately show ?thesis by metis
qed



text \<open>
  A value marked as a whole, as \<open>mark()\<close> leaves it and as a read without a mark list arrives,
  reports no changed field without \<open>expand\<close>, though \<open>changed()\<close> says it has changed.
\<close>

lemma whole_mark_reports_nothing:
  assumes "0 \<in> r_marks r"
  shows "changedSet tb bp [] r False False = Inr {}" and "changed tb bp [] r [] = Inr True"
proof -
  have at: "desc_at (r_desc r) [] = Some (r_desc r)" by (rule dsc.at_root)
  have "collect_marked tb (r_desc r) b [] (r_marks r) True False = []" for b
    by (simp add: collect_marked_inherited)
  with assms at show "changedSet tb bp [] r False False = Inr {}"
    by (simp add: changedSet_def)
  from assms at show "changed tb bp [] r [] = Inr True"
    by (simp add: changed_def changed_one_def)
qed

text \<open>
  \<open>Value.select\<close> on a union field puts the default value of the named member there, marks the
  field, leaves every unrelated field and the descriptor as they were, and keeps the root well
  typed.
\<close>

theorem select_sets_member:
  assumes bp: "bit_for_path_ok tb bp" and dv: "\<And>d. conforms d (dv d)"
    and typed: "conforms (r_desc r) (r_field r)"
    and clean: "clean_path pre" "clean_path f"
    and union: "desc_at (r_desc r) (join pre f) = Some (DUnion uid vs)"
    and member: "find_idx (\<lambda>v. fst v = name) vs = Some (i, (n, vd))"
  shows "\<exists>r'. select bp dv pre r f (Some name) = (r', Inr ()) \<and>
    field_at (r_field r') (join pre f) = Some (FUnion (of_nat i) name (dv vd)) \<and>
    bit_marked bp r' (join pre f) \<and>
    r_desc r' = r_desc r \<and> conforms (r_desc r') (r_field r') \<and>
    (\<forall>q. \<not> prefix (segments (join pre f)) (segments q) \<longrightarrow> \<not> prefix (segments q) (segments (join pre f)) \<longrightarrow>
      field_at (r_field r') q = field_at (r_field r) q)"
proof -
  let ?p = "join pre f" and ?u = "FUnion (of_nat i) n (dv vd)"
  from find_idx_Some [OF member] have i: "i < length vs" "vs ! i = (n, vd)" "n = name" by auto
  have u: "conforms (DUnion uid vs) ?u"
    by (subst conforms.simps) (use i dv in auto)
  from conforms_field_at [OF typed union] obtain v where v: "field_at (r_field r) ?p = Some v" by blast
  from fld.put_total [OF this, of "\<lambda>_. ?u"] obtain g where
    g: "field_at_mut (r_field r) ?p (\<lambda>_. ?u) = Some g" "field_at g ?p = Some ?u" by blast
  from bp_defined [OF bp clean_path_join [OF clean] union] obtain b where b: "bp (r_desc r) ?p = Some b"
    by blast
  define r' where "r' = r\<lparr>r_field := g, r_marks := insert b (r_marks r)\<rparr>"
  have "select bp dv pre r f (Some name) = (r', Inr ())"
    using union v member g b by (simp add: select_def selected_def Let_def r'_def)
  moreover have "conforms (r_desc r) g"
    using conforms_field_at_mut [OF typed union g(1)] u by blast
  moreover have "\<forall>q. \<not> prefix (segments ?p) (segments q) \<longrightarrow> \<not> prefix (segments q) (segments ?p) \<longrightarrow>
      field_at g q = field_at (r_field r) q"
    using fld.put_frame [OF g(1)] by blast
  ultimately show ?thesis
    using g b i by (intro exI [of _ r']) (simp add: r'_def bit_marked_def)
qed

theorem select_sets_member_witness:
  "\<exists>r'. select ref_bit_for_path ref_default ''s'' sample_root ''u'' (Some ''i'') = (r', Inr ()) \<and>
    field_at (r_field r') (join ''s'' ''u'') = Some (FUnion (of_nat 0) ''i'' (ref_default (DScalar StInt))) \<and>
    bit_marked ref_bit_for_path r' (join ''s'' ''u'') \<and>
    r_desc r' = r_desc sample_root \<and> conforms (r_desc r') (r_field r') \<and>
    (\<forall>q. \<not> prefix (segments (join ''s'' ''u'')) (segments q) \<longrightarrow>
      \<not> prefix (segments q) (segments (join ''s'' ''u'')) \<longrightarrow>
      field_at (r_field r') q = field_at (r_field sample_root) q)"
  by (rule select_sets_member [OF ref_bit_for_path_ok ref_default_conforms sample_conforms,
        where uid = "[]" and vs = "[(''i'', DScalar StInt)]" and n = "''i''"])
    (simp_all add: clean_path_plain sample_root_def sample_desc_def desc_at_def)

end
