(* ===== verification/Errors.thy ===== *)
theory Errors
  imports Prelude
begin

text \<open>
  The exception mapping of \<open>src/src/error.rs\<close> and \<open>src/src/pva/error.rs\<close>, and the two \<open>bounded\<close>
  combinators (\<open>src/src/runtime.rs\<close>, \<open>src/src/pva/error.rs\<close>).

  The error types of the client libraries are the variants the code names and one for the rest.
  The libca status codes and texts, and the rendering of a library error, are library functions:
  the fields of the parameter \<open>eca\<close>. A future is what becomes of it before a deadline.
\<close>

section \<open>Library errors\<close>

datatype rs_ca_error =
    RsTimeout
  | RsChannelNotFound string
  | RsDisconnected
  | RsShutdown
  | RsServerError u32
  | RsWriteFailed u32
  | RsInvalidValue string
  | RsOther nat

datatype ca_op = CaRead | CaWrite | CaOtherOp

record eca_lib =
  ECA_TIMEOUT :: u32
  ECA_DISCONN :: u32
  ECA_NORDACCESS :: u32
  ECA_NOWTACCESS :: u32
  ECA_INTERNAL :: u32
  eca_message :: "u32 \<Rightarrow> string"
  ca_to_string :: "rs_ca_error \<Rightarrow> string"
  to_eca_status :: "rs_ca_error \<Rightarrow> ca_op \<Rightarrow> u32"

datatype rs_pva_error =
    PTimeout
  | PChannelNotFound string
  | PDisconnected
  | PRemoteError string
  | POther nat

section \<open>Channel Access\<close>

definition timeout_err :: "eca_lib \<Rightarrow> f64 \<Rightarrow> pyexc" where
  "timeout_err eca secs = CaTimeout (Msg ''timed out after {secs} s'' [AF64 secs]) (ECA_TIMEOUT eca)"

definition access_denied :: "eca_lib \<Rightarrow> ca_op \<Rightarrow> pyexc" where
  "access_denied eca op =
     (let code = (case op of CaWrite \<Rightarrow> ECA_NOWTACCESS eca | _ \<Rightarrow> ECA_NORDACCESS eca)
      in CaError (Msg (eca_message eca code) []) code)"

definition map_ca_op :: "eca_lib \<Rightarrow> rs_ca_error \<Rightarrow> ca_op \<Rightarrow> pyexc" where
  "map_ca_op eca e op =
     (let server = (\<lambda>code.
            let text = Msg (eca_message eca code) []
            in if code = ECA_DISCONN eca then CaDisconnected text code else CaError text code);
          text = Msg (ca_to_string eca e) []
      in case e of
           RsTimeout \<Rightarrow> CaTimeout text (ECA_TIMEOUT eca)
         | RsChannelNotFound _ \<Rightarrow> CaTimeout text (ECA_TIMEOUT eca)
         | RsDisconnected \<Rightarrow> CaDisconnected text (ECA_DISCONN eca)
         | RsShutdown \<Rightarrow> CaDisconnected text (ECA_DISCONN eca)
         | RsServerError code \<Rightarrow> server code
         | RsWriteFailed code \<Rightarrow> server code
         | _ \<Rightarrow> CaError text (to_eca_status eca e op))"

definition map_ca :: "eca_lib \<Rightarrow> rs_ca_error \<Rightarrow> pyexc" where
  "map_ca eca e = map_ca_op eca e CaRead"

definition map_ca_write :: "eca_lib \<Rightarrow> rs_ca_error \<Rightarrow> pyexc" where
  "map_ca_write eca e = map_ca_op eca e CaWrite"

section \<open>pvAccess\<close>

definition map_pva :: "(rs_pva_error \<Rightarrow> string) \<Rightarrow> rs_pva_error \<Rightarrow> pyexc" where
  "map_pva to_string e =
     (let text = Msg (to_string e) [] in
      case e of
        PTimeout \<Rightarrow> PvaTimeout text
      | PChannelNotFound _ \<Rightarrow> PvaTimeout text
      | PDisconnected \<Rightarrow> PvaDisconnected text
      | PRemoteError _ \<Rightarrow> PvaRemoteError text
      | POther _ \<Rightarrow> PvaError text)"

section \<open>Deadlines\<close>

text \<open>
  A 64-bit float: sign, biased exponent and fraction. \<open>secs.max(0.0)\<close> is 0 for a negative number
  and for NaN; \<open>Duration::from_secs_f64\<close> panics from \<open>2 ^ 64\<close> seconds on, infinity included.
\<close>

definition f64_neg :: "f64 \<Rightarrow> bool" where
  "f64_neg x \<longleftrightarrow> 2 ^ 63 \<le> unat x"

definition f64_exp :: "f64 \<Rightarrow> nat" where
  "f64_exp x = unat x div 2 ^ 52 mod 2 ^ 11"

definition f64_frac :: "f64 \<Rightarrow> nat" where
  "f64_frac x = unat x mod 2 ^ 52"

definition f64_is_nan :: "f64 \<Rightarrow> bool" where
  "f64_is_nan x \<longleftrightarrow> f64_exp x = 2047 \<and> f64_frac x \<noteq> 0"

definition duration_panics :: "f64 \<Rightarrow> bool" where
  "duration_panics secs \<longleftrightarrow>
     \<not> f64_neg secs \<and> \<not> f64_is_nan secs \<and> 1023 + 64 \<le> f64_exp secs"

text \<open>What a future does: it is ready with a result before the deadline, or it is not.\<close>

datatype 'a future = ReadyInTime "'a res" | NotInTime

datatype 'a outcome = Finished "'a res" | Panicked | Waiting

definition bounded_with :: "(f64 \<Rightarrow> pyexc) \<Rightarrow> f64 option \<Rightarrow> 'a future \<Rightarrow> 'a outcome" where
  "bounded_with on_timeout timeout fut =
     (case timeout of
        None \<Rightarrow> (case fut of ReadyInTime r \<Rightarrow> Finished r | NotInTime \<Rightarrow> Waiting)
      | Some secs \<Rightarrow>
          if duration_panics secs then Panicked
          else (case fut of
                  ReadyInTime r \<Rightarrow> Finished r
                | NotInTime \<Rightarrow> Finished (Inl (on_timeout secs))))"

text \<open>\<open>block_on\<close> waits for as long as the future takes.\<close>

definition block_on :: "'a future \<Rightarrow> 'a outcome" where
  "block_on fut = (case fut of ReadyInTime r \<Rightarrow> Finished r | NotInTime \<Rightarrow> Waiting)"

definition bounded :: "eca_lib \<Rightarrow> f64 option \<Rightarrow> 'a future \<Rightarrow> 'a outcome" where
  "bounded eca = bounded_with (timeout_err eca)"

definition pva_bounded :: "f64 option \<Rightarrow> 'a future \<Rightarrow> 'a outcome" where
  "pva_bounded = bounded_with (\<lambda>secs. PvaTimeout (Msg ''timed out after {secs} s'' [AF64 secs]))"

section \<open>Families\<close>

text \<open>Constants of the library, for the instances.\<close>

definition any_eca :: eca_lib where
  "any_eca = \<lparr>ECA_TIMEOUT = 80, ECA_DISCONN = 192, ECA_NORDACCESS = 368, ECA_NOWTACCESS = 376,
     ECA_INTERNAL = 142, eca_message = (\<lambda>_. []), ca_to_string = (\<lambda>_. []), to_eca_status = (\<lambda>_ _. 0)\<rparr>"

fun ca_family :: "pyexc \<Rightarrow> bool" where
  "ca_family (CaError _ _) = True"
| "ca_family (CaTimeout _ _) = True"
| "ca_family (CaDisconnected _ _) = True"
| "ca_family _ = False"

fun pva_family :: "pyexc \<Rightarrow> bool" where
  "pva_family (PvaError _) = True"
| "pva_family (PvaTimeout _) = True"
| "pva_family (PvaDisconnected _) = True"
| "pva_family (PvaRemoteError _) = True"
| "pva_family _ = False"

fun eca_status :: "pyexc \<Rightarrow> u32 option" where
  "eca_status (CaError _ s) = Some s"
| "eca_status (CaTimeout _ s) = Some s"
| "eca_status (CaDisconnected _ s) = Some s"
| "eca_status _ = None"

lemma map_ca_op_family: "ca_family (map_ca_op eca e op)" "\<not> pva_family (map_ca_op eca e op)"
  by (cases e; simp add: map_ca_op_def Let_def)+

lemma map_pva_family: "pva_family (map_pva ts e)" "\<not> ca_family (map_pva ts e)"
  by (cases e; simp add: map_pva_def)+

text \<open>
  The two exception families never mix: a Channel Access error is raised in the CA family
  with a status, a timeout as \<open>CaTimeout\<close>, and a lost circuit, also one the peer reports as the
  status \<open>ECA_DISCONN\<close>, as \<open>CaDisconnected\<close> with that status; a pvAccess error is raised in the
  PVA family, and so are the two \<open>bounded\<close> deadlines, each in its own family.
\<close>

theorem error_families:
  "ca_family (map_ca_op eca e op) \<and> \<not> pva_family (map_ca_op eca e op) \<and>
   eca_status (map_ca_op eca e op) \<noteq> None \<and>
   (e = RsDisconnected \<or> e = RsShutdown \<or> e = RsServerError (ECA_DISCONN eca) \<or>
      e = RsWriteFailed (ECA_DISCONN eca) \<longleftrightarrow>
      (\<exists>m. map_ca_op eca e op = CaDisconnected m (ECA_DISCONN eca))) \<and>
   ((\<exists>m s. map_ca_op eca e op = CaTimeout m s) \<longleftrightarrow> e = RsTimeout \<or> (\<exists>n. e = RsChannelNotFound n)) \<and>
   pva_family (map_pva ts p) \<and> \<not> ca_family (map_pva ts p) \<and>
   (\<exists>m s. timeout_err eca secs = CaTimeout m s) \<and>
   pva_bounded (Some secs) (NotInTime :: 'a future) \<noteq> Finished (Inl (timeout_err eca secs))"
  by (cases e; cases p)
    (simp_all add: map_ca_op_def map_pva_def timeout_err_def pva_bounded_def bounded_with_def Let_def)

end
