(* ===== verification/PvFloat.thy ===== *)
theory PvFloat
  imports Prelude Errors
begin

text \<open>
  IEEE 754 binary formats as Rust's \<open>as\<close> conversions use them: integers and \<open>f64\<close> to \<open>f32\<close>/\<open>f64\<close>
  round to nearest, ties to even, and a float to an integer truncates and saturates. A format has
  \<open>p\<close> fraction bits and \<open>w\<close> exponent bits; a finite number is \<open>m * 2 ^ e\<close> with a sign.

  The conversion of a NaN keeps its sign and the leading bits of its payload and sets the quiet
  bit, as the hardware does; Rust leaves these bits open, and no lemma depends on them.
\<close>

section \<open>Formats\<close>

fun bit_length :: "nat \<Rightarrow> nat" where
  "bit_length n = (if n = 0 then 0 else Suc (bit_length (n div 2)))"

declare bit_length.simps [simp del]

text \<open>The exponent of the unit in the last place of a subnormal number.\<close>

definition min_exp :: "nat \<Rightarrow> nat \<Rightarrow> int" where
  "min_exp p w = 2 - 2 ^ (w - 1) - int p"

text \<open>\<open>m / 2 ^ s\<close>, to nearest, ties to even.\<close>

definition round_even :: "nat \<Rightarrow> nat \<Rightarrow> nat" where
  "round_even m s =
     (let d = m div 2 ^ s; r = m mod 2 ^ s
      in if 2 * r > 2 ^ s \<or> (2 * r = 2 ^ s \<and> odd d) then d + 1 else d)"

definition scale :: "nat \<Rightarrow> int \<Rightarrow> nat" where
  "scale m k = (if 0 \<le> k then m * 2 ^ nat k else round_even m (nat (- k)))"

text \<open>The exponent of the last place of \<open>m * 2 ^ e\<close> in a format, and its encoding without the sign.\<close>

definition last_place :: "nat \<Rightarrow> nat \<Rightarrow> nat \<Rightarrow> int \<Rightarrow> int" where
  "last_place p w m e = max (e + int (bit_length m) - 1 - int p) (min_exp p w)"

definition encode :: "nat \<Rightarrow> nat \<Rightarrow> nat \<Rightarrow> int \<Rightarrow> nat" where
  "encode p w m e =
     (if m = 0 then 0
      else let q = last_place p w m e
           in min (nat (q - min_exp p w) * 2 ^ p + scale m (e - q)) ((2 ^ w - 1) * 2 ^ p))"

definition exp_field :: "nat \<Rightarrow> nat \<Rightarrow> nat \<Rightarrow> nat" where
  "exp_field p w b = b div 2 ^ p mod 2 ^ w"

definition decode_m :: "nat \<Rightarrow> nat \<Rightarrow> nat \<Rightarrow> nat" where
  "decode_m p w b = (if exp_field p w b = 0 then 0 else 2 ^ p) + b mod 2 ^ p"

definition decode_e :: "nat \<Rightarrow> nat \<Rightarrow> nat \<Rightarrow> int" where
  "decode_e p w b = min_exp p w + int (exp_field p w b - 1)"

section \<open>Rounding\<close>

lemma bit_length_0 [simp]: "bit_length 0 = 0"
  by (simp add: bit_length.simps)

lemma bit_length_double: "0 < n \<Longrightarrow> bit_length (2 * n) = Suc (bit_length n)"
  by (subst bit_length.simps) simp

lemma bit_length_shift: "0 < n \<Longrightarrow> bit_length (n * 2 ^ j) = bit_length n + j"
proof (induction j)
  case (Suc j)
  then show ?case using bit_length_double [of "n * 2 ^ j"] by (simp add: mult.left_commute)
qed simp

lemma bit_length_bounds: "0 < n \<Longrightarrow> 2 ^ (bit_length n - 1) \<le> n \<and> n < 2 ^ bit_length n"
proof (induction n rule: bit_length.induct)
  case (1 n)
  show ?case
  proof (cases "n div 2 = 0")
    case True
    with "1.prems" have "n = 1" by auto
    then show ?thesis by (simp add: bit_length.simps)
  next
    case False
    with 1 have "2 ^ (bit_length (n div 2) - 1) \<le> n div 2 \<and> n div 2 < 2 ^ bit_length (n div 2)" by simp
    moreover have "bit_length n = Suc (bit_length (n div 2))" using "1.prems" by (subst bit_length.simps) simp
    moreover obtain k where "bit_length (n div 2) = Suc k"
      using False by (subst (asm) bit_length.simps) (metis bit_length.simps)
    ultimately show ?thesis by simp linarith
  qed
qed

lemma bit_length_unique: "2 ^ k \<le> n \<Longrightarrow> n < 2 ^ Suc k \<Longrightarrow> bit_length n = Suc k"
proof -
  assume n: "2 ^ k \<le> n" "n < 2 ^ Suc k"
  then have "0 < n" by (metis gr0I not_less zero_less_numeral zero_less_power)
  note b = bit_length_bounds [OF this]
  from b n have p: "(2 :: nat) ^ (bit_length n - 1) < 2 ^ Suc k" "(2 :: nat) ^ k < 2 ^ bit_length n"
    by linarith+
  have "bit_length n - 1 < Suc k" by (rule power_less_imp_less_exp [OF _ p(1)]) simp
  moreover have "k < bit_length n" by (rule power_less_imp_less_exp [OF _ p(2)]) simp
  ultimately show ?thesis by simp
qed

lemma bit_length_le: "n < 2 ^ k \<Longrightarrow> bit_length n \<le> k"
proof (cases "n = 0")
  case False
  assume n: "n < 2 ^ k"
  from False have "2 ^ (bit_length n - 1) \<le> n" using bit_length_bounds [of n] by simp
  with n have "(2 :: nat) ^ (bit_length n - 1) < 2 ^ k" by linarith
  then show ?thesis by simp
qed simp

lemma round_even_shift: "j \<le> s \<Longrightarrow> round_even (m * 2 ^ j) s = round_even m (s - j)"
proof -
  assume "j \<le> s"
  then obtain t where s: "s = t + j" by (metis le_add_diff_inverse2)
  have d: "m * 2 ^ j div 2 ^ s = m div 2 ^ t" "m * 2 ^ j mod 2 ^ s = (m mod 2 ^ t) * 2 ^ j"
    unfolding s by (simp_all add: power_add mult_mod_left)
  have c: "2 * ((m mod 2 ^ t) * 2 ^ j) > 2 ^ s \<longleftrightarrow> 2 * (m mod 2 ^ t) > 2 ^ t"
      "2 * ((m mod 2 ^ t) * 2 ^ j) = 2 ^ s \<longleftrightarrow> 2 * (m mod 2 ^ t) = 2 ^ t"
    unfolding s by (simp_all add: power_add mult.assoc [symmetric])
  show ?thesis unfolding round_even_def Let_def d c by (simp add: s)
qed

lemma round_even_0 [simp]: "round_even m 0 = m"
  by (simp add: round_even_def)

lemma scale_shift: "scale (m * 2 ^ j) k = scale m (k + int j)"
proof (cases "0 \<le> k")
  case True
  then show ?thesis by (simp add: scale_def nat_add_distrib power_add mult.assoc mult.commute)
next
  case False
  show ?thesis
  proof (cases "nat (- k) \<le> j")
    case True
    then obtain t where "j = t + nat (- k)" by (metis le_add_diff_inverse2)
    then have "scale (m * 2 ^ j) k = m * 2 ^ t"
      using round_even_shift [of "nat (- k)" "nat (- k)" "m * 2 ^ t"] False
      by (simp add: scale_def power_add mult.assoc)
    moreover have "nat (k + int j) = t" "0 \<le> k + int j" using \<open>j = t + nat (- k)\<close> False by simp_all
    ultimately show ?thesis by (simp add: scale_def)
  next
    case F: False
    then have "nat (- k) - j = nat (- (k + int j))" by simp
    with F False round_even_shift [of j "nat (- k)" m] show ?thesis by (simp add: scale_def)
  qed
qed

text \<open>The encoding depends on the value \<open>m * 2 ^ e\<close> only.\<close>

lemma encode_shift: "encode p w (m * 2 ^ j) e = encode p w m (e + int j)"
proof (cases "m = 0")
  case False
  then have "last_place p w (m * 2 ^ j) e = last_place p w m (e + int j)"
    by (simp add: last_place_def bit_length_shift algebra_simps)
  with False show ?thesis
    by (simp add: encode_def Let_def scale_shift algebra_simps)
qed (simp add: encode_def)

text \<open>A number of the format is encoded as it is.\<close>

definition representable :: "nat \<Rightarrow> nat \<Rightarrow> nat \<Rightarrow> int \<Rightarrow> bool" where
  "representable p w m e \<longleftrightarrow>
     m < 2 ^ Suc p \<and> (2 ^ p \<le> m \<or> e = min_exp p w) \<and>
     min_exp p w \<le> e \<and> e \<le> min_exp p w + 2 ^ w - 3"

lemma encode_representable:
  assumes "representable p w m e" and "2 \<le> w"
  shows "encode p w m e = nat (e - min_exp p w) * 2 ^ p + m"
proof -
  define k where "k = nat (e - min_exp p w)"
  have k: "e = min_exp p w + int k" using assms(1) by (simp add: k_def representable_def)
  have "int k \<le> 2 ^ w - 3" using assms(1) k by (simp add: representable_def)
  moreover have "(3 :: int) \<le> 2 ^ w" using power_increasing [OF assms(2), of "2 :: int"] by simp
  ultimately have kw: "k \<le> 2 ^ w - 3" "(3 :: nat) \<le> 2 ^ w"
    by (simp_all add: of_nat_diff zle_int [symmetric] del: of_nat_le_iff)
  have "k * 2 ^ p + m < (k + 2) * 2 ^ p" using assms(1) by (simp add: representable_def algebra_simps)
  also have "\<dots> \<le> (2 ^ w - 1) * 2 ^ p" using kw by (intro mult_right_mono) auto
  finally have inf: "k * 2 ^ p + m < (2 ^ w - 1) * 2 ^ p" .
  show ?thesis
  proof (cases "m = 0")
    case True
    with assms(1) k_def show ?thesis by (simp add: encode_def representable_def)
  next
    case False
    have "last_place p w m e = e"
    proof (cases "2 ^ p \<le> m")
      case True
      with assms(1) have "bit_length m = Suc p" by (intro bit_length_unique) (simp_all add: representable_def)
      with assms(1) show ?thesis by (simp add: last_place_def representable_def)
    next
      case F: False
      then have "bit_length m \<le> p" by (intro bit_length_le) simp
      with F assms(1) show ?thesis by (simp add: last_place_def representable_def)
    qed
    with False inf k show ?thesis by (simp add: encode_def Let_def scale_def)
  qed
qed

text \<open>What is decoded from a finite encoding is representable, and encodes to it.\<close>

definition finite_bits :: "nat \<Rightarrow> nat \<Rightarrow> nat \<Rightarrow> bool" where
  "finite_bits p w b \<longleftrightarrow> exp_field p w b \<noteq> 2 ^ w - 1"

lemma decode_representable:
  assumes "finite_bits p w b" and "2 \<le> w"
  shows "representable p w (decode_m p w b) (decode_e p w b)"
proof -
  have "exp_field p w b < 2 ^ w" by (simp add: exp_field_def)
  moreover have "(4 :: nat) \<le> 2 ^ w" using power_increasing [OF assms(2), of "2 :: nat"] by simp
  ultimately have "exp_field p w b - 1 \<le> 2 ^ w - 3"
    using assms(1) by (auto simp: finite_bits_def)
  then have "int (exp_field p w b - 1) \<le> int (2 ^ w - 3)" by (rule of_nat_mono)
  also have "int (2 ^ w - 3) = 2 ^ w - 3" using \<open>4 \<le> 2 ^ w\<close> by (simp add: of_nat_diff)
  finally have "int (exp_field p w b - 1) \<le> 2 ^ w - 3" .
  moreover have "b mod 2 ^ p < 2 * 2 ^ p" by (rule less_le_trans [of _ "2 ^ p"]) simp_all
  ultimately show ?thesis
    by (auto simp: representable_def decode_m_def decode_e_def)
qed

lemma encode_decode:
  assumes "finite_bits p w b" and "2 \<le> w"
  shows "encode p w (decode_m p w b) (decode_e p w b) = b mod 2 ^ (p + w)"
proof -
  have "b mod 2 ^ (p + w) = exp_field p w b * 2 ^ p + b mod 2 ^ p"
    unfolding exp_field_def power_add by (subst mod_mult2_eq) (simp add: mult.commute)
  moreover have "nat (decode_e p w b - min_exp p w) = exp_field p w b - 1"
    by (simp add: decode_e_def)
  moreover have "exp_field p w b = Suc (exp_field p w b - 1)" if "exp_field p w b \<noteq> 0"
    using that by simp
  ultimately show ?thesis
    by (subst encode_representable [OF decode_representable [OF assms] assms(2)])
      (auto simp: decode_m_def algebra_simps)
qed

lemma decode_encode:
  assumes "representable p w m e" and "2 \<le> w" and "2 ^ p \<le> m"
  shows "decode_m p w (encode p w m e) = m \<and> decode_e p w (encode p w m e) = e \<and>
    finite_bits p w (encode p w m e) \<and> encode p w m e < 2 ^ (p + w)"
proof -
  define k where "k = nat (e - min_exp p w)"
  have k: "e = min_exp p w + int k" using assms(1) by (simp add: k_def representable_def)
  have "int k \<le> 2 ^ w - 3" using assms(1) k by (simp add: representable_def)
  moreover have "(4 :: int) \<le> 2 ^ w" using power_increasing [OF assms(2), of "2 :: int"] by simp
  moreover from this have w: "(4 :: nat) \<le> 2 ^ w" by (simp add: zle_int [symmetric] del: of_nat_le_iff)
  ultimately have "int (Suc k) < int (2 ^ w - 1)" by (simp add: of_nat_diff)
  then have kw: "Suc k < 2 ^ w - 1" "(4 :: nat) \<le> 2 ^ w" using w by (simp_all only: of_nat_less_iff)
  define f where "f = m - 2 ^ p"
  have f: "m = 2 ^ p + f" "f < 2 ^ p" using assms(1,3) by (simp_all add: f_def representable_def less_diff_conv2)
  have enc: "encode p w m e = Suc k * 2 ^ p + f"
    unfolding encode_representable [OF assms(1,2)] k_def [symmetric] using f(1) by simp
  have "exp_field p w (encode p w m e) = Suc k"
    unfolding enc exp_field_def using f(2) kw by (simp add: div_mult_self1 del: mult_Suc)
  moreover have "encode p w m e mod 2 ^ p = f" unfolding enc using f(2) by (simp del: mult_Suc)
  moreover have "encode p w m e < 2 ^ (p + w)"
  proof -
    have "Suc k * 2 ^ p + f < Suc (Suc k) * 2 ^ p" using f(2) by simp
    also have "\<dots> \<le> 2 ^ w * 2 ^ p" using kw by (intro mult_right_mono) auto
    finally show ?thesis unfolding enc by (simp add: power_add mult.commute)
  qed
  ultimately show ?thesis
    using f kw k by (simp add: decode_m_def decode_e_def finite_bits_def)
qed

section \<open>Conversions\<close>

definition with_sign :: "nat \<Rightarrow> bool \<Rightarrow> nat \<Rightarrow> nat" where
  "with_sign n neg b = (if neg then 2 ^ n else 0) + b"

definition f32_neg :: "f32 \<Rightarrow> bool" where
  "f32_neg x \<longleftrightarrow> 2 ^ 31 \<le> unat x"

definition f32_is_nan :: "f32 \<Rightarrow> bool" where
  "f32_is_nan x \<longleftrightarrow> exp_field 23 8 (unat x) = 255 \<and> unat x mod 2 ^ 23 \<noteq> 0"

text \<open>\<open>i as f64\<close>, \<open>i as f32\<close>.\<close>

definition int_to_f64 :: "int \<Rightarrow> f64" where
  "int_to_f64 i = of_nat (with_sign 63 (i < 0) (encode 52 11 (nat \<bar>i\<bar>) 0))"

definition int_to_f32 :: "int \<Rightarrow> f32" where
  "int_to_f32 i = of_nat (with_sign 31 (i < 0) (encode 23 8 (nat \<bar>i\<bar>) 0))"

text \<open>\<open>x as f32\<close> of an \<open>f64\<close>, and the widening of an \<open>f32\<close>, which is exact.\<close>

definition f64_to_f32 :: "f64 \<Rightarrow> f32" where
  "f64_to_f32 x = of_nat (with_sign 31 (f64_neg x)
     (if f64_is_nan x then 255 * 2 ^ 23 + 2 ^ 22 + (unat x div 2 ^ 29) mod 2 ^ 22
      else if f64_exp x = 2047 then 255 * 2 ^ 23
      else encode 23 8 (decode_m 52 11 (unat x)) (decode_e 52 11 (unat x))))"

definition f32_to_f64 :: "f32 \<Rightarrow> f64" where
  "f32_to_f64 x = of_nat (with_sign 63 (f32_neg x)
     (if f32_is_nan x then 2047 * 2 ^ 52 + 2 ^ 51 + (unat x mod 2 ^ 22) * 2 ^ 29
      else if exp_field 23 8 (unat x) = 255 then 2047 * 2 ^ 52
      else encode 52 11 (decode_m 23 8 (unat x)) (decode_e 23 8 (unat x))))"

text \<open>\<open>x as i128\<close>: truncated, saturated, 0 for a NaN.\<close>

definition truncate :: "nat \<Rightarrow> int \<Rightarrow> nat" where
  "truncate m e = (if 0 \<le> e then m * 2 ^ nat e else m div 2 ^ nat (- e))"

definition f64_to_i128 :: "f64 \<Rightarrow> int" where
  "f64_to_i128 x =
     (if f64_is_nan x then 0
      else let v = int (truncate (decode_m 52 11 (unat x)) (decode_e 52 11 (unat x)))
           in if f64_neg x then max (- v) (- (2 ^ 127)) else min v (2 ^ 127 - 1))"

lemma f64_exp_field: "f64_exp x = exp_field 52 11 (unat x)"
  by (simp add: f64_exp_def exp_field_def)

lemma sign_fields:
  "exp_field p w (with_sign (p + w) s b) = exp_field p w b"
  "decode_m p w (with_sign (p + w) s b) = decode_m p w b"
  "decode_e p w (with_sign (p + w) s b) = decode_e p w b"
proof -
  show e: "exp_field p w (with_sign (p + w) s b) = exp_field p w b"
    by (simp add: with_sign_def exp_field_def power_add mod_add_right_eq)
  have "with_sign (p + w) s b mod 2 ^ p = b mod 2 ^ p"
    by (simp add: with_sign_def power_add)
  with e show "decode_m p w (with_sign (p + w) s b) = decode_m p w b"
    "decode_e p w (with_sign (p + w) s b) = decode_e p w b"
    by (simp_all add: decode_m_def decode_e_def)
qed

lemma encode_f64_exact:
  assumes m: "0 < m" "m < 2 ^ 53" and e: "- 1000 \<le> e" "e \<le> 900"
  shows "\<exists>j. decode_m 52 11 (encode 52 11 m e) = m * 2 ^ j \<and>
    decode_e 52 11 (encode 52 11 m e) = e - int j \<and>
    finite_bits 52 11 (encode 52 11 m e) \<and> encode 52 11 m e < 2 ^ 63"
proof -
  note b = bit_length_bounds [OF m(1)]
  have le: "bit_length m \<le> 53" using m(2) by (rule bit_length_le)
  have pos: "0 < bit_length m" using m(1) by (subst bit_length.simps) simp
  define j where "j = 53 - bit_length m"
  have j: "bit_length m - 1 + j = 52" "bit_length m + j = 53" using le pos by (simp_all add: j_def)
  have "2 ^ (bit_length m - 1) * 2 ^ j \<le> m * 2 ^ j" using b by (intro mult_right_mono) auto
  then have lo: "2 ^ 52 \<le> m * 2 ^ j" by (simp only: power_add [symmetric] j)
  have "m * 2 ^ j < 2 ^ bit_length m * 2 ^ j" using b by (intro mult_strict_right_mono) auto
  then have hi: "m * 2 ^ j < 2 ^ 53" by (simp only: power_add [symmetric] j)
  have r: "representable 52 11 (m * 2 ^ j) (e - int j)"
    using lo hi e j pos by (simp add: representable_def min_exp_def)
  have same: "encode 52 11 (m * 2 ^ j) (e - int j) = encode 52 11 m e"
    using encode_shift [of 52 11 m j "e - int j"] by simp
  from decode_encode [OF r _ lo, unfolded same] show ?thesis by auto
qed

lemma unat_with_sign:
  "b < 2 ^ 63 \<Longrightarrow> unat (of_nat (with_sign 63 s b) :: f64) = with_sign 63 s b"
  "c < 2 ^ 31 \<Longrightarrow> unat (of_nat (with_sign 31 s c) :: f32) = with_sign 31 s c"
proof -
  have f64: "unat (of_nat n :: f64) = n" if "n < 2 ^ 64" for n
    using that by (simp add: unat_of_nat)
  have f32: "unat (of_nat n :: f32) = n" if "n < 2 ^ 32" for n
    using that by (simp add: unat_of_nat)
  show "b < 2 ^ 63 \<Longrightarrow> unat (of_nat (with_sign 63 s b) :: f64) = with_sign 63 s b"
    by (rule f64) (simp add: with_sign_def)
  show "c < 2 ^ 31 \<Longrightarrow> unat (of_nat (with_sign 31 s c) :: f32) = with_sign 31 s c"
    by (rule f32) (simp add: with_sign_def)
qed

lemma f64_of_parts:
  fixes s :: bool
  assumes "b < 2 ^ 63" and "finite_bits 52 11 b"
  defines "x \<equiv> of_nat (with_sign 63 s b) :: f64"
  shows "f64_neg x = s" "\<not> f64_is_nan x" "f64_exp x \<noteq> 2047"
    "decode_m 52 11 (unat x) = decode_m 52 11 b" "decode_e 52 11 (unat x) = decode_e 52 11 b"
proof -
  have u: "unat x = with_sign (52 + 11) s b" using unat_with_sign(1) [OF assms(1)] by (simp add: x_def)
  show "f64_neg x = s" unfolding f64_neg_def u using assms(1) by (simp add: with_sign_def)
  show "f64_exp x \<noteq> 2047" unfolding f64_exp_field u sign_fields using assms(2) by (simp add: finite_bits_def)
  then show "\<not> f64_is_nan x" by (simp add: f64_is_nan_def)
  show "decode_m 52 11 (unat x) = decode_m 52 11 b" "decode_e 52 11 (unat x) = decode_e 52 11 b"
    unfolding u by (rule sign_fields)+
qed

text \<open>An \<open>f32\<close> that is not a NaN survives the way through an \<open>f64\<close> bit for bit.\<close>

lemma f32_split: "unat x = with_sign 31 (f32_neg x) (unat x mod 2 ^ 31)"
proof -
  have "unat x < 2 ^ 31 + 2 ^ 31" using unsigned_less [of x, where ?'a = nat] by simp
  then have "2 ^ 31 \<le> unat x \<Longrightarrow> unat x mod 2 ^ 31 = unat x - 2 ^ 31"
    by (simp only: le_mod_geq mod_less less_diff_conv2)
  then show ?thesis by (simp add: with_sign_def f32_neg_def)
qed

lemma f32_finite_widens:
  assumes "finite_bits 23 8 (unat x)"
  shows "\<exists>j E. E < 2 ^ 63 \<and> finite_bits 52 11 E \<and> f32_to_f64 x = of_nat (with_sign 63 (f32_neg x) E) \<and>
    decode_m 52 11 E = decode_m 23 8 (unat x) * 2 ^ j \<and>
    (decode_m 23 8 (unat x) \<noteq> 0 \<longrightarrow> decode_e 52 11 E = decode_e 23 8 (unat x) - int j)"
proof -
  let ?m = "decode_m 23 8 (unat x)" and ?e = "decode_e 23 8 (unat x)"
  let ?E = "encode 52 11 ?m ?e"
  have r: "representable 23 8 ?m ?e" using assms by (rule decode_representable) simp
  have "exp_field 23 8 (unat x) \<noteq> 255" using assms by (simp add: finite_bits_def)
  then have w: "f32_to_f64 x = of_nat (with_sign 63 (f32_neg x) ?E)"
    by (simp add: f32_to_f64_def f32_is_nan_def)
  show ?thesis
  proof (cases "?m = 0")
    case True
    have "finite_bits 52 11 0" "decode_m 52 11 0 = 0" by (simp_all add: finite_bits_def decode_m_def exp_field_def)
    with True w show ?thesis by (intro exI [of _ 0] exI [of _ ?E]) (simp add: encode_def)
  next
    case False
    with r have "0 < ?m" "?m < 2 ^ 53" "- 1000 \<le> ?e" "?e \<le> 900"
      by (auto simp: representable_def min_exp_def)
    from encode_f64_exact [OF this] w show ?thesis by blast
  qed
qed

lemma f32_roundtrip:
  assumes "\<not> f32_is_nan x"
  shows "f64_to_f32 (f32_to_f64 x) = x"
proof (cases "finite_bits 23 8 (unat x)")
  case True
  let ?m = "decode_m 23 8 (unat x)" and ?e = "decode_e 23 8 (unat x)"
  from f32_finite_widens [OF True] obtain j E where E: "E < 2 ^ 63" "finite_bits 52 11 E"
    "f32_to_f64 x = of_nat (with_sign 63 (f32_neg x) E)"
    "decode_m 52 11 E = ?m * 2 ^ j" "?m \<noteq> 0 \<Longrightarrow> decode_e 52 11 E = ?e - int j"
    by blast
  have "encode 23 8 (decode_m 52 11 E) (decode_e 52 11 E) = encode 23 8 ?m ?e"
    using E(4,5) encode_shift [of 23 8 ?m j "?e - int j"] by (cases "?m = 0") (simp_all add: encode_def)
  also have "\<dots> = unat x mod 2 ^ 31" using encode_decode [OF True] by simp
  finally have enc: "encode 23 8 (decode_m 52 11 E) (decode_e 52 11 E) = unat x mod 2 ^ 31" .
  have "f64_to_f32 (f32_to_f64 x) = of_nat (with_sign 31 (f32_neg x) (unat x mod 2 ^ 31))"
    using f64_of_parts [OF E(1,2), of "f32_neg x"] enc by (simp add: f64_to_f32_def E(3))
  also have "\<dots> = x" unfolding f32_split [symmetric] by simp
  finally show ?thesis .
next
  case False
  then have e: "exp_field 23 8 (unat x) = 255" by (simp add: finite_bits_def)
  with assms have f: "unat x mod 2 ^ 23 = 0" by (simp add: f32_is_nan_def)
  have "unat x mod 2 ^ 31 = exp_field 23 8 (unat x) * 2 ^ 23 + unat x mod 2 ^ 23"
    using mod_mult2_eq [of "unat x" "2 ^ 23" "2 ^ 8"] by (simp add: exp_field_def)
  with e f have x: "unat x mod 2 ^ 31 = 255 * 2 ^ 23" by simp
  have "f32_to_f64 x = of_nat (with_sign 63 (f32_neg x) (2047 * 2 ^ 52))"
    using e assms by (simp add: f32_to_f64_def)
  then have u: "unat (f32_to_f64 x) = with_sign 63 (f32_neg x) (2047 * 2 ^ 52)"
    using unat_with_sign(1) [of "2047 * 2 ^ 52"] by simp
  have "f64_neg (f32_to_f64 x) = f32_neg x" "\<not> f64_is_nan (f32_to_f64 x)" "f64_exp (f32_to_f64 x) = 2047"
    by (simp_all add: f64_neg_def f64_is_nan_def f64_frac_def f64_exp_def u with_sign_def)
  then have "f64_to_f32 (f32_to_f64 x) = of_nat (with_sign 31 (f32_neg x) (255 * 2 ^ 23))"
    by (simp add: f64_to_f32_def)
  also have "\<dots> = of_nat (with_sign 31 (f32_neg x) (unat x mod 2 ^ 31))" unfolding x ..
  also have "\<dots> = x" unfolding f32_split [symmetric] by simp
  finally show ?thesis .
qed

text \<open>An integer of at most 53 bits survives the way through an \<open>f64\<close>.\<close>

lemma truncate_exact: "truncate (m * 2 ^ j) (- int j) = m"
  by (cases "j = 0") (simp_all add: truncate_def)

lemma int_roundtrip:
  assumes "\<bar>i\<bar> < 2 ^ 53"
  shows "f64_to_i128 (int_to_f64 i) = i"
proof (cases "i = 0")
  case True
  then show ?thesis
    by (simp add: int_to_f64_def with_sign_def encode_def f64_to_i128_def f64_is_nan_def f64_frac_def
        f64_neg_def decode_m_def exp_field_def truncate_def)
next
  case False
  define m where "m = nat \<bar>i\<bar>"
  have m: "0 < m" "m < 2 ^ 53" using assms False by (simp_all add: m_def)
  obtain j where E: "decode_m 52 11 (encode 52 11 m 0) = m * 2 ^ j" "decode_e 52 11 (encode 52 11 m 0) = - int j"
    "finite_bits 52 11 (encode 52 11 m 0)" "encode 52 11 m 0 < 2 ^ 63"
    using encode_f64_exact [OF m, of 0] by auto
  note p = f64_of_parts [OF E(4,3), of "i < 0"]
  have "m \<le> 2 ^ 53" using m by simp
  then have "int m \<le> 2 ^ 53" by (metis of_nat_le_iff of_nat_numeral of_nat_power)
  moreover have "(2 :: int) ^ 53 \<le> 2 ^ 127 - 1" by simp
  ultimately have "int m \<le> 2 ^ 127 - 1" by (rule order_trans)
  with p E(1,2) False show ?thesis
    by (simp add: f64_to_i128_def int_to_f64_def m_def [symmetric] truncate_exact Let_def)
      (auto simp: m_def)
qed

end
