(* ===== verification/PyObj.thy ===== *)
theory PyObj
  imports PvValue PvFloat
begin

text \<open>
  Python objects as the extension meets them. The constructors are the classes the code tests for
  with \<open>cast\<close>; \<open>PArray\<close> is a 1-D numpy array of one of the dtypes of \<open>numpy_dtype\<close>, \<open>PValue\<close> a
  \<open>Value\<close> (its prefix and what its root holds when it is read), and \<open>POther\<close> everything else,
  numpy scalars included. A dict keeps its insertion order. Python strings are valid UTF-8.

  What Python, numpy and the value library answer beyond this is the record \<open>py_lib\<close>.
\<close>

datatype py =
    PNone
  | PBool bool
  | PInt int
  | PFloat f64
  | PStr string
  | PList "py list"
  | PTuple "py list"
  | PDict "(py \<times> py) list"
  | PArray typed_array
  | PType field_desc
  | PValue string root
  | POther nat

text \<open>
  \<open>str_of\<close> is \<open>str(obj)\<close>, \<open>index_of\<close> and \<open>float_of\<close> are \<open>__index__\<close> and \<open>__float__\<close> of an object that
  is no int and no float, \<open>dtype_of\<close> the kind, item size and dimension of a \<open>POther\<close> that has a
  dtype and a shape, \<open>asarray\<close> is \<open>numpy.asarray(obj, dtype)\<close> raveled and read as a slice. \<open>sv_parse\<close>,
  \<open>lossy\<close>, \<open>from_scalar_values\<close>, \<open>default_for\<close>, \<open>descriptor\<close> and \<open>display_f64\<close> are
  \<open>ScalarValue::parse\<close>, \<open>as_str_lossy\<close>, \<open>TypedScalarArray::from_scalar_values\<close>,
  \<open>default_value_for\<close>, \<open>PvField::descriptor\<close> and the shortest decimal text of an \<open>f64\<close>.
\<close>

record py_lib =
  type_name :: "py \<Rightarrow> string"
  str_of :: "py \<Rightarrow> string res"
  index_of :: "py \<Rightarrow> int option"
  float_of :: "py \<Rightarrow> f64 option"
  dtype_of :: "nat \<Rightarrow> (string \<times> nat \<times> nat) option"
  other_iter :: "nat \<Rightarrow> py res list res"
  array_iter :: "typed_array \<Rightarrow> py list"
  asarray :: "py \<Rightarrow> string \<Rightarrow> typed_array res"
  sv_parse :: "scalar_type \<Rightarrow> string \<Rightarrow> string + scalar_value"
  lossy :: "string \<Rightarrow> string"
  from_scalar_values :: "scalar_value list \<Rightarrow> scalar_type \<Rightarrow> typed_array option"
  default_for :: "field_desc \<Rightarrow> pv_field"
  descriptor :: "pv_field \<Rightarrow> field_desc"
  display_f64 :: "f64 \<Rightarrow> string"

definition is_str :: "py \<Rightarrow> bool" where
  "is_str obj \<longleftrightarrow> (case obj of PStr _ \<Rightarrow> True | _ \<Rightarrow> False)"

definition wrong_type :: "py_lib \<Rightarrow> string \<Rightarrow> py \<Rightarrow> pyexc" where
  "wrong_type L what obj = TypeError (Msg what [AStr (type_name L obj)])"

text \<open>\<open>extract::<String>()\<close>.\<close>

definition extract_str :: "py_lib \<Rightarrow> py \<Rightarrow> string res" where
  "extract_str L obj =
     (case obj of PStr s \<Rightarrow> Inr s | _ \<Rightarrow> Inl (wrong_type L ''object of type {} cannot be converted to a string'' obj))"

text \<open>
  \<open>try_iter\<close> and what its items are: each is an object or what the iterator raises instead of it. A
  string yields its characters, a dict its keys, a \<open>Value\<close> and a \<open>Type\<close> their member names.
\<close>

definition continuation :: "char \<Rightarrow> bool" where
  "continuation c \<longleftrightarrow> (let n = of_char c :: nat in 128 \<le> n \<and> n < 192)"

function utf8_chars :: "string \<Rightarrow> string list" where
  "utf8_chars [] = []"
| "utf8_chars (c # cs) = (c # takeWhile continuation cs) # utf8_chars (dropWhile continuation cs)"
  by pat_completeness auto
termination
  by (relation "measure length") (auto simp: less_Suc_eq_le length_dropWhile_le)

definition py_iter :: "py_lib \<Rightarrow> py \<Rightarrow> py res list res" where
  "py_iter L obj =
     (case obj of
        PList xs \<Rightarrow> Inr (map Inr xs)
      | PTuple xs \<Rightarrow> Inr (map Inr xs)
      | PStr s \<Rightarrow> Inr (map (Inr \<circ> PStr) (utf8_chars s))
      | PDict kvs \<Rightarrow> Inr (map (Inr \<circ> fst) kvs)
      | PArray a \<Rightarrow> Inr (map Inr (array_iter L a))
      | PValue pre r \<Rightarrow> map_res (map (Inr \<circ> PStr)) (keys pre r)
      | PType d \<Rightarrow>
          (case d of
             DStructure sid fs \<Rightarrow> Inr (map (Inr \<circ> PStr \<circ> fst) fs)
           | _ \<Rightarrow> Inl (TypeError (Msg ''not a structure type'' [])))
      | POther n \<Rightarrow> other_iter L n
      | _ \<Rightarrow> Inl (wrong_type L ''object of type {} is not iterable'' obj))"

text \<open>\<open>set_item\<close> of a dict with string keys.\<close>

fun dict_set :: "string \<Rightarrow> py \<Rightarrow> (py \<times> py) list \<Rightarrow> (py \<times> py) list" where
  "dict_set k v [] = [(PStr k, v)]"
| "dict_set k v ((k', v') # kvs) = (if k' = PStr k then (k', v) # kvs else (k', v') # dict_set k v kvs)"

text \<open>The 128-bit range \<open>extract::<i128>\<close> accepts.\<close>

definition fits_i128 :: "int \<Rightarrow> bool" where
  "fits_i128 i \<longleftrightarrow> - (2 ^ 127) \<le> i \<and> i < 2 ^ 127"

section \<open>Bounded recursion\<close>

text \<open>
  A conversion that follows Python objects recurses as deep as they are nested; an object that
  yields itself never ends, which on a real stack is an overflow. The recursive functions take the
  depth they may use and return \<open>Overflow\<close> beyond it; lemmas say which depth is enough.
\<close>

datatype 'a run = Ok 'a | Raise pyexc | Overflow

fun of_res :: "'a res \<Rightarrow> 'a run" where
  "of_res (Inl e) = Raise e"
| "of_res (Inr x) = Ok x"

fun run_bind :: "'a run \<Rightarrow> ('a \<Rightarrow> 'b run) \<Rightarrow> 'b run" where
  "run_bind (Ok x) f = f x"
| "run_bind (Raise e) f = Raise e"
| "run_bind Overflow f = Overflow"

definition run_fmap :: "('a \<Rightarrow> 'b) \<Rightarrow> 'a run \<Rightarrow> 'b run" where
  "run_fmap f r = run_bind r (\<lambda>x. Ok (f x))"

text \<open>\<open>map(..).collect::<PyResult<Vec<_>>>()\<close> and the loops that push what they convert.\<close>

fun run_map :: "('a \<Rightarrow> 'b run) \<Rightarrow> 'a list \<Rightarrow> 'b list run" where
  "run_map f [] = Ok []"
| "run_map f (x # xs) = run_bind (f x) (\<lambda>y. run_fmap ((#) y) (run_map f xs))"

lemma run_bind_Ok [simp]: "run_bind r f = Ok y \<longleftrightarrow> (\<exists>x. r = Ok x \<and> f x = Ok y)"
  by (cases r) auto

lemma run_fmap_Ok [simp]: "run_fmap g r = Ok y \<longleftrightarrow> (\<exists>x. r = Ok x \<and> y = g x)"
  by (auto simp: run_fmap_def)

lemma run_fmap_simps [simp]:
  "run_fmap g (Ok x) = Ok (g x)" "run_fmap g (Raise e) = Raise e" "run_fmap g Overflow = Overflow"
  by (simp_all add: run_fmap_def)

lemma of_res_Ok [simp]: "of_res r = Ok y \<longleftrightarrow> r = Inr y"
  by (cases r) auto

lemma of_res_not_Overflow [simp]: "of_res r \<noteq> Overflow" "Overflow \<noteq> of_res r"
  by (cases r; simp)+

lemma run_bind_Overflow:
  "run_bind r f = Overflow \<longleftrightarrow> r = Overflow \<or> (\<exists>x. r = Ok x \<and> f x = Overflow)"
  by (cases r) auto

lemma run_map_Ok: "run_map f xs = Ok ys \<longleftrightarrow> list_all2 (\<lambda>x y. f x = Ok y) xs ys"
  by (induction xs arbitrary: ys) (auto simp: list_all2_Cons1)

lemma run_map_all_Ok: "(\<And>x. x \<in> set xs \<Longrightarrow> f x = Ok (g x)) \<Longrightarrow> run_map f xs = Ok (map g xs)"
  by (induction xs) auto

lemma run_map_not_Overflow: "(\<And>x. x \<in> set xs \<Longrightarrow> f x \<noteq> Overflow) \<Longrightarrow> run_map f xs \<noteq> Overflow"
  by (induction xs) (auto simp: run_bind_Overflow run_fmap_def)

lemma run_map_cong [fundef_cong]:
  "xs = ys \<Longrightarrow> (\<And>x. x \<in> set ys \<Longrightarrow> f x = g x) \<Longrightarrow> run_map f xs = run_map g ys"
  by (induction xs arbitrary: ys) auto

end
