(* ===== verification/PvScalar.thy ===== *)
theory PvScalar
  imports PyObj
begin

text \<open>
  Scalars and scalar arrays between pvData and Python: \<open>scalar_to_py\<close>, \<open>typed_array_to_py\<close>,
  \<open>py_to_scalar\<close>, \<open>int_to_scalar\<close>, \<open>float_to_scalar\<close> and \<open>py_to_array\<close> of \<open>src/src/pva/value.rs\<close>.
  An integer is cut to the width of the field (Rust's \<open>as\<close>), a float truncated and saturated to
  128 bits first.
\<close>

section \<open>To Python\<close>

fun scalar_to_py :: "py_lib \<Rightarrow> scalar_value \<Rightarrow> py" where
  "scalar_to_py L (SvBoolean b) = PBool b"
| "scalar_to_py L (SvByte x) = PInt (sint x)"
| "scalar_to_py L (SvUByte x) = PInt (uint x)"
| "scalar_to_py L (SvShort x) = PInt (sint x)"
| "scalar_to_py L (SvUShort x) = PInt (uint x)"
| "scalar_to_py L (SvInt x) = PInt (sint x)"
| "scalar_to_py L (SvUInt x) = PInt (uint x)"
| "scalar_to_py L (SvLong x) = PInt (sint x)"
| "scalar_to_py L (SvULong x) = PInt (uint x)"
| "scalar_to_py L (SvFloat x) = PFloat (f32_to_f64 x)"
| "scalar_to_py L (SvDouble x) = PFloat x"
| "scalar_to_py L (SvString s) = PStr (lossy L s)"

definition typed_array_to_py :: "py_lib \<Rightarrow> typed_array \<Rightarrow> py" where
  "typed_array_to_py L arr =
     (case arr of TaString xs \<Rightarrow> PList (map (\<lambda>s. PStr (lossy L s)) xs) | _ \<Rightarrow> PArray arr)"

definition untyped_array_to_py :: "py_lib \<Rightarrow> scalar_type \<Rightarrow> scalar_value list \<Rightarrow> py" where
  "untyped_array_to_py L st v =
     (case from_scalar_values L v st of
        Some t \<Rightarrow> typed_array_to_py L t
      | None \<Rightarrow> PList (map (scalar_to_py L) v))"

section \<open>From Python\<close>

fun int_to_scalar :: "int \<Rightarrow> scalar_type \<Rightarrow> scalar_value" where
  "int_to_scalar i StBoolean = SvBoolean (i \<noteq> 0)"
| "int_to_scalar i StByte = SvByte (of_int i)"
| "int_to_scalar i StUByte = SvUByte (of_int i)"
| "int_to_scalar i StShort = SvShort (of_int i)"
| "int_to_scalar i StUShort = SvUShort (of_int i)"
| "int_to_scalar i StInt = SvInt (of_int i)"
| "int_to_scalar i StUInt = SvUInt (of_int i)"
| "int_to_scalar i StLong = SvLong (of_int i)"
| "int_to_scalar i StULong = SvULong (of_int i)"
| "int_to_scalar i StFloat = SvFloat (int_to_f32 i)"
| "int_to_scalar i StDouble = SvDouble (int_to_f64 i)"
| "int_to_scalar i StString = SvString (display_int i)"

definition float_to_scalar :: "py_lib \<Rightarrow> f64 \<Rightarrow> scalar_type \<Rightarrow> scalar_value" where
  "float_to_scalar L f st =
     (case st of
        StFloat \<Rightarrow> SvFloat (f64_to_f32 f)
      | StDouble \<Rightarrow> SvDouble f
      | StString \<Rightarrow> SvString (display_f64 L f)
      | _ \<Rightarrow> int_to_scalar (f64_to_i128 f) st)"

text \<open>What the two integer branches of \<open>py_to_scalar\<close> make of an \<open>i128\<close>.\<close>

definition i128_to_scalar :: "int \<Rightarrow> scalar_type \<Rightarrow> scalar_value" where
  "i128_to_scalar i st =
     (case st of
        StBoolean \<Rightarrow> SvBoolean (i \<noteq> 0)
      | StFloat \<Rightarrow> SvFloat (int_to_f32 i)
      | StDouble \<Rightarrow> SvDouble (int_to_f64 i)
      | _ \<Rightarrow> int_to_scalar i st)"

definition py_to_scalar :: "py_lib \<Rightarrow> py \<Rightarrow> scalar_type \<Rightarrow> scalar_value res" where
  "py_to_scalar L obj st =
     (case obj of
        PStr s \<Rightarrow> (case sv_parse L st s of Inl e \<Rightarrow> Inl (ValueError (Msg e [])) | Inr v \<Rightarrow> Inr v)
      | PBool b \<Rightarrow>
          Inr (case st of
                 StBoolean \<Rightarrow> SvBoolean b
               | StString \<Rightarrow> SvString (if b then ''true'' else ''false'')
               | _ \<Rightarrow> int_to_scalar (if b then 1 else 0) st)
      | _ \<Rightarrow>
          if st = StString then map_res SvString (str_of L obj)
          else
            (case obj of
               PInt i \<Rightarrow>
                 if fits_i128 i then Inr (i128_to_scalar i st)
                 else Inl (OverflowError (Msg ''int too big to convert'' []))
             | PFloat f \<Rightarrow> Inr (float_to_scalar L f st)
             | _ \<Rightarrow>
                 (case index_of L obj of
                    Some i \<Rightarrow>
                      if fits_i128 i then Inr (i128_to_scalar i st)
                      else (case float_of L obj of
                              Some f \<Rightarrow> Inr (float_to_scalar L f st)
                            | None \<Rightarrow> Inl (wrong_type L ''cannot assign {} to a {st:?} field'' obj))
                  | None \<Rightarrow>
                      (case float_of L obj of
                         Some f \<Rightarrow> Inr (float_to_scalar L f st)
                       | None \<Rightarrow> Inl (wrong_type L ''cannot assign {} to a {st:?} field'' obj)))))"

definition py_to_array :: "py_lib \<Rightarrow> py \<Rightarrow> scalar_type \<Rightarrow> typed_array res" where
  "py_to_array L obj st =
     (if st = StString then
        map_res TaString
          (case obj of
             PStr s \<Rightarrow> map_res (\<lambda>t. [t]) (str_of L obj)
           | _ \<Rightarrow> bind_res (py_iter L obj) (\<lambda>items. collect_res (map (\<lambda>it. bind_res it (str_of L)) items)))
      else asarray L obj (numpy_dtype st))"

section \<open>Types and round trips\<close>

text \<open>
  What the code relies on: \<open>ScalarValue::parse\<close> and numpy return what they were asked for, a default
  has its type, and text that is UTF-8 is not changed by \<open>as_str_lossy\<close> and parses to itself.
\<close>

definition numpy_type :: "string \<Rightarrow> scalar_type option" where
  "numpy_type dt = List.find (\<lambda>st. st \<noteq> StString \<and> numpy_dtype st = dt)
     [StBoolean, StByte, StUByte, StShort, StUShort, StInt, StUInt, StLong, StULong, StFloat, StDouble]"

definition lib_types_ok :: "py_lib \<Rightarrow> bool" where
  "lib_types_ok L \<longleftrightarrow>
     (\<forall>st s v. sv_parse L st s = Inr v \<longrightarrow> scalar_type_of v = st) \<and>
     (\<forall>obj dt a. asarray L obj dt = Inr a \<longrightarrow> numpy_type dt = Some (array_type_of a)) \<and>
     (\<forall>d. conforms d (default_for L d))"

definition text_ok :: "py_lib \<Rightarrow> string \<Rightarrow> bool" where
  "text_ok L s \<longleftrightarrow> lossy L s = s \<and> sv_parse L StString s = Inr (SvString s)"

lemma numpy_type_dtype: "numpy_type (numpy_dtype st) = (if st = StString then None else Some st)"
  by (cases st) (simp_all add: numpy_type_def)

lemma int_to_scalar_type [simp]: "scalar_type_of (int_to_scalar i st) = st"
  by (cases st) auto

lemma float_to_scalar_type [simp]: "scalar_type_of (float_to_scalar L f st) = st"
  by (cases st) (auto simp: float_to_scalar_def)

lemma i128_to_scalar_eq [simp]: "i128_to_scalar i st = int_to_scalar i st"
  by (cases st) (auto simp: i128_to_scalar_def)

lemma py_to_scalar_type:
  "lib_types_ok L \<Longrightarrow> py_to_scalar L obj st = Inr v \<Longrightarrow> scalar_type_of v = st"
  by (auto simp: py_to_scalar_def lib_types_ok_def
      split: py.splits sum.splits if_splits option.splits scalar_type.splits)

lemma py_to_array_type:
  assumes "lib_types_ok L" and "py_to_array L obj st = Inr a"
  shows "array_type_of a = st"
proof (cases "st = StString")
  case False
  with assms have "numpy_type (numpy_dtype st) = Some (array_type_of a)"
    by (auto simp: py_to_array_def lib_types_ok_def)
  with False show ?thesis by (simp add: numpy_type_dtype)
next
  case True
  with assms(2) show ?thesis by (auto simp: py_to_array_def)
qed

text \<open>The scalars that Python represents exactly.\<close>

definition faithful :: "py_lib \<Rightarrow> scalar_value \<Rightarrow> bool" where
  "faithful L v \<longleftrightarrow>
     (case v of SvFloat x \<Rightarrow> \<not> f32_is_nan x | SvString s \<Rightarrow> text_ok L s | _ \<Rightarrow> True)"

lemma word_fits_i128: "LENGTH('a::len) \<le> 64 \<Longrightarrow> fits_i128 (uint (x :: 'a word)) \<and> fits_i128 (sint x)"
proof -
  assume l: "LENGTH('a) \<le> 64"
  have p: "(2 :: int) ^ LENGTH('a) \<le> 2 ^ 127" "(2 :: int) ^ (LENGTH('a) - Suc 0) \<le> 2 ^ 127"
    by (rule power_increasing; use l in simp)+
  have u: "0 \<le> uint x" "uint x < 2 ^ LENGTH('a)" by (auto intro: unsigned_less)
  have s: "- (2 ^ (LENGTH('a) - Suc 0)) \<le> sint x" "sint x < 2 ^ (LENGTH('a) - Suc 0)"
    using sint_greater_eq [of x] sint_less [of x] by simp_all
  from p u s show ?thesis unfolding fits_i128_def by linarith
qed

lemma int_to_scalar_of_word:
  "int_to_scalar (sint b) StByte = SvByte b" "int_to_scalar (uint ub) StUByte = SvUByte ub"
  "int_to_scalar (sint s) StShort = SvShort s" "int_to_scalar (uint us) StUShort = SvUShort us"
  "int_to_scalar (sint i) StInt = SvInt i" "int_to_scalar (uint ui) StUInt = SvUInt ui"
  "int_to_scalar (sint l) StLong = SvLong l" "int_to_scalar (uint ul) StULong = SvULong ul"
  by simp_all

lemma scalar_survives:
  "faithful L v \<Longrightarrow> py_to_scalar L (scalar_to_py L v) (scalar_type_of v) = Inr v"
  by (cases v)
    (simp_all add: py_to_scalar_def faithful_def text_ok_def word_fits_i128 float_to_scalar_def f32_roundtrip)

text \<open>
  C9. A scalar survives the way to Python and back: whatever the type of the field, assigning to
  it the Python object it was read as stores the same value, bit for bit; the exceptions are the
  NaNs of a 32-bit float field, and text that is not UTF-8.
\<close>

theorem scalar_roundtrip:
  assumes "faithful L v"
  shows "py_to_scalar L (scalar_to_py L v) (scalar_type_of v) = Inr v"
  using assms by (rule scalar_survives)

text \<open>A library that satisfies the contracts.\<close>

definition ref_array :: "scalar_type \<Rightarrow> typed_array" where
  "ref_array st =
     (case st of
        StBoolean \<Rightarrow> TaBoolean [] | StByte \<Rightarrow> TaByte [] | StUByte \<Rightarrow> TaUByte [] | StShort \<Rightarrow> TaShort []
      | StUShort \<Rightarrow> TaUShort [] | StInt \<Rightarrow> TaInt [] | StUInt \<Rightarrow> TaUInt [] | StLong \<Rightarrow> TaLong []
      | StULong \<Rightarrow> TaULong [] | StFloat \<Rightarrow> TaFloat [] | StDouble \<Rightarrow> TaDouble [] | StString \<Rightarrow> TaString [])"

definition ref_lib :: py_lib where
  "ref_lib =
     \<lparr>type_name = (\<lambda>obj. case obj of PStr _ \<Rightarrow> ''str'' | PInt _ \<Rightarrow> ''int'' | PDict _ \<Rightarrow> ''dict'' | _ \<Rightarrow> ''object''),
      str_of = (\<lambda>obj. case obj of PStr s \<Rightarrow> Inr s | PInt i \<Rightarrow> Inr (display_int i) | _ \<Rightarrow> Inr ''object''),
      index_of = (\<lambda>obj. None), float_of = (\<lambda>obj. None), dtype_of = (\<lambda>n. None),
      other_iter = (\<lambda>n. Inr []), array_iter = (\<lambda>a. []),
      asarray = (\<lambda>obj dt. case numpy_type dt of Some st \<Rightarrow>
          (case obj of PArray a \<Rightarrow> if array_type_of a = st then Inr a else Inr (ref_array st) | _ \<Rightarrow> Inr (ref_array st))
        | None \<Rightarrow> Inl (TypeError (Msg ''dtype'' []))),
      sv_parse = (\<lambda>st s. if st = StString then Inr (SvString s) else Inl ''no parse''),
      lossy = (\<lambda>s. s), from_scalar_values = (\<lambda>v st. None), default_for = ref_default,
      descriptor = (\<lambda>f. DVariant), display_f64 = (\<lambda>x. ''0'')\<rparr>"

lemma ref_array_type [simp]: "array_type_of (ref_array st) = st"
  by (cases st) (simp_all add: ref_array_def)

lemma ref_lib_types: "lib_types_ok ref_lib"
  by (auto simp: lib_types_ok_def ref_lib_def ref_default_conforms split: option.splits py.splits if_splits)

theorem scalar_roundtrip_witness:
  "py_to_scalar ref_lib (PInt (- 3)) StShort = Inr (SvShort (- 3)) \<and>
   py_to_scalar ref_lib (PStr ''on'') StString = Inr (SvString ''on'')"
  using scalar_roundtrip [of ref_lib "SvShort (- 3)"] scalar_roundtrip [of ref_lib "SvString ''on''"]
  by (simp add: faithful_def text_ok_def ref_lib_def)



end
