(* ===== verification/PvType.thy ===== *)
theory PvType
  imports PvScalar
begin

text \<open>
  Type specs, the \<open>Type\<close> class of \<open>src/src/pva/value.rs\<close>: \<open>desc_to_py\<close>, \<open>desc_from_py\<close>,
  \<open>members_from_py\<close>, \<open>Type::new\<close> and the accessors. A type code is compared byte by byte; a code
  that is not ASCII is unknown either way.
\<close>

section \<open>To Python\<close>

text \<open>The tuple \<open>members_to_py\<close> makes once the members are converted.\<close>

definition spec_tuple :: "string \<Rightarrow> string \<Rightarrow> py list \<Rightarrow> py" where
  "spec_tuple code sid items = PTuple [PStr code, if sid = [] then PNone else PStr sid, PList items]"

fun desc_to_py :: "field_desc \<Rightarrow> py" where
  "desc_to_py (DScalar st) = PStr (scalar_code st)"
| "desc_to_py (DScalarArray st) = PStr (CHR ''a'' # scalar_code st)"
| "desc_to_py DVariant = PStr ''v''"
| "desc_to_py DVariantArray = PStr ''av''"
| "desc_to_py (DStructure sid fs) = spec_tuple ''S'' sid (map (\<lambda>(n, d). PTuple [PStr n, desc_to_py d]) fs)"
| "desc_to_py (DStructureArray sid fs) = spec_tuple ''aS'' sid (map (\<lambda>(n, d). PTuple [PStr n, desc_to_py d]) fs)"
| "desc_to_py (DUnion sid vs) = spec_tuple ''U'' sid (map (\<lambda>(n, d). PTuple [PStr n, desc_to_py d]) vs)"
| "desc_to_py (DUnionArray sid vs) = spec_tuple ''aU'' sid (map (\<lambda>(n, d). PTuple [PStr n, desc_to_py d]) vs)"

definition member_type_to_py :: "field_desc \<Rightarrow> py" where
  "member_type_to_py d = (if is_structure d then PType d else desc_to_py d)"

section \<open>From Python\<close>

definition is_compound_spec :: "py \<Rightarrow> bool" where
  "is_compound_spec spec \<longleftrightarrow>
     (case spec of PTuple [c, i, m] \<Rightarrow> is_str c | _ \<Rightarrow> False)"

definition unknown_code :: "string \<Rightarrow> pyexc" where
  "unknown_code code = ValueError (Msg ''unknown type code {code:?}'' [AStr code])"

definition code_desc :: "string \<Rightarrow> field_desc res" where
  "code_desc code =
     (case code of
        [c] \<Rightarrow>
          if c = CHR ''v'' then Inr DVariant
          else ok_or (map_option DScalar (scalar_from_code c)) (unknown_code code)
      | [a, c] \<Rightarrow>
          if a = CHR ''a'' \<and> c = CHR ''v'' then Inr DVariantArray
          else if a = CHR ''a'' then ok_or (map_option DScalarArray (scalar_from_code c)) (unknown_code code)
          else Inl (unknown_code code)
      | _ \<Rightarrow> Inl (unknown_code code))"

definition compound :: "string \<Rightarrow> string \<Rightarrow> (string \<times> field_desc) list \<Rightarrow> field_desc res" where
  "compound code sid members =
     (if code = ''S'' then Inr (DStructure sid members)
      else if code = ''aS'' then Inr (DStructureArray sid members)
      else if code = ''U'' then Inr (DUnion sid members)
      else if code = ''aU'' then Inr (DUnionArray sid members)
      else Inl (ValueError (Msg ''compound type code must be S, aS, U or aU, not {other:?}'' [AStr code])))"

definition bad_member :: pyexc where
  "bad_member = TypeError (Msg ''each member must be a (name, spec) tuple'' [])"

definition member_pair :: "py_lib \<Rightarrow> py \<Rightarrow> (string \<times> py) res" where
  "member_pair L item =
     (case item of
        PTuple [k, s] \<Rightarrow> map_res (\<lambda>name. (name, s)) (extract_str L k)
      | _ \<Rightarrow> Inl bad_member)"

fun desc_from_py :: "py_lib \<Rightarrow> nat \<Rightarrow> py \<Rightarrow> field_desc run"
  and members_from_py :: "py_lib \<Rightarrow> nat \<Rightarrow> py \<Rightarrow> (string \<times> field_desc) list run"
where
  "desc_from_py L 0 spec = Overflow"
| "desc_from_py L (Suc n) spec =
     (case spec of
        PType d \<Rightarrow> Ok d
      | PStr code \<Rightarrow> of_res (code_desc code)
      | PTuple [c, i, m] \<Rightarrow>
          run_bind (of_res (extract_str L c)) (\<lambda>code.
          run_bind (of_res (if i = PNone then Inr [] else extract_str L i)) (\<lambda>sid.
          run_bind (members_from_py L n m) (\<lambda>members.
          of_res (compound code sid members))))
      | PTuple _ \<Rightarrow> Raise (ValueError (Msg ''compound type spec must be (code, id, members)'' []))
      | _ \<Rightarrow> Raise (wrong_type L ''type spec must be a code string, a (code, id, members) tuple or a Type, not {}'' spec))"
| "members_from_py L n spec =
     (case spec of
        PType (DStructure sid fs) \<Rightarrow> Ok fs
      | PType _ \<Rightarrow> Raise (TypeError (Msg ''member spec Type must be a structure'' []))
      | _ \<Rightarrow>
          run_bind (of_res (py_iter L spec)) (\<lambda>items.
          run_map (\<lambda>item.
            run_bind (of_res (bind_res item (member_pair L))) (\<lambda>(name, s).
            run_fmap (Pair name) (desc_from_py L n s))) items))"

declare desc_from_py.simps(2) [simp del] members_from_py.simps [simp del]

text \<open>\<open>Type(spec, id)\<close>.\<close>

definition type_new :: "py_lib \<Rightarrow> nat \<Rightarrow> py \<Rightarrow> string option \<Rightarrow> field_desc run" where
  "type_new L n spec sid =
     run_fmap (\<lambda>d. case (d, sid) of (DStructure _ fs, Some i) \<Rightarrow> DStructure i fs | _ \<Rightarrow> d)
       (if (case spec of PType _ \<Rightarrow> True | _ \<Rightarrow> False) \<or> is_compound_spec spec then desc_from_py L n spec
        else run_fmap (DStructure (case sid of None \<Rightarrow> [] | Some i \<Rightarrow> i)) (members_from_py L n spec))"

section \<open>Accessors of a type\<close>

definition type_fields :: "field_desc \<Rightarrow> (string \<times> field_desc) list res" where
  "type_fields d = (case d of DStructure sid fs \<Rightarrow> Inr fs | _ \<Rightarrow> Inl (TypeError (Msg ''not a structure type'' [])))"

definition type_getID :: "field_desc \<Rightarrow> string" where
  "type_getID d =
     (case d of
        DStructure sid _ \<Rightarrow> sid
      | DStructureArray sid _ \<Rightarrow> sid
      | DUnion sid _ \<Rightarrow> sid
      | DUnionArray sid _ \<Rightarrow> sid
      | _ \<Rightarrow> [])"

definition type_keys :: "field_desc \<Rightarrow> string list res" where
  "type_keys d = map_res (map fst) (type_fields d)"

definition type_items :: "field_desc \<Rightarrow> (string \<times> py) list res" where
  "type_items d = map_res (map (\<lambda>(n, c). (n, member_type_to_py c))) (type_fields d)"

definition type_has :: "field_desc \<Rightarrow> string \<Rightarrow> bool" where
  "type_has d key \<longleftrightarrow> desc_at d key \<noteq> None"

definition type_getitem :: "field_desc \<Rightarrow> string \<Rightarrow> py res" where
  "type_getitem d key =
     (case desc_at d key of Some c \<Rightarrow> Inr (member_type_to_py c) | None \<Rightarrow> Inl (no_such_member key))"

section \<open>Round trips\<close>

fun desc_depth :: "field_desc \<Rightarrow> nat" where
  "desc_depth (DStructure sid fs) = Suc (Max (insert 0 ((\<lambda>(n, d). desc_depth d) ` set fs)))"
| "desc_depth (DStructureArray sid fs) = Suc (Max (insert 0 ((\<lambda>(n, d). desc_depth d) ` set fs)))"
| "desc_depth (DUnion sid fs) = Suc (Max (insert 0 ((\<lambda>(n, d). desc_depth d) ` set fs)))"
| "desc_depth (DUnionArray sid fs) = Suc (Max (insert 0 ((\<lambda>(n, d). desc_depth d) ` set fs)))"
| "desc_depth _ = 1"

lemma members_depth:
  "Max (insert 0 ((\<lambda>(n, d). desc_depth d) ` set fs)) \<le> k \<longleftrightarrow> (\<forall>(n, d) \<in> set fs. desc_depth d \<le> k)"
  by (auto simp: case_prod_beta)

lemma code_desc_code [simp]: "code_desc (scalar_code st) = Inr (DScalar st)"
  "code_desc (CHR ''a'' # scalar_code st) = Inr (DScalarArray st)"
  "code_desc ''v'' = Inr DVariant" "code_desc ''av'' = Inr DVariantArray"
  by (cases st; simp add: code_desc_def scalar_from_code_def)+

lemma compound_code [simp]: "compound ''S'' sid fs = Inr (DStructure sid fs)"
  "compound ''aS'' sid fs = Inr (DStructureArray sid fs)"
  "compound ''U'' sid fs = Inr (DUnion sid fs)" "compound ''aU'' sid fs = Inr (DUnionArray sid fs)"
  by (simp_all add: compound_def)

lemma member_pair_tuple [simp]: "member_pair L (PTuple [PStr k, s]) = Inr (k, s)"
  by (simp add: member_pair_def extract_str_def)

lemma desc_from_str [simp]: "desc_from_py L (Suc n) (PStr code) = of_res (code_desc code)"
  by (simp add: desc_from_py.simps)

lemma desc_from_spec:
  assumes "\<forall>(k, d) \<in> set fs. desc_from_py L n (desc_to_py d) = Ok d"
  shows "desc_from_py L (Suc n) (spec_tuple code sid (map (\<lambda>(k, d). PTuple [PStr k, desc_to_py d]) fs)) =
    of_res (compound code sid fs)"
proof -
  have "run_map (\<lambda>item. run_bind (of_res (bind_res item (member_pair L))) (\<lambda>(name, s).
      run_fmap (Pair name) (desc_from_py L n s))) (map Inr (map (\<lambda>(k, d). PTuple [PStr k, desc_to_py d]) fs)) = Ok fs"
    using assms by (induction fs) auto
  then have "members_from_py L n (PList (map (\<lambda>(k, d). PTuple [PStr k, desc_to_py d]) fs)) = Ok fs"
    by (subst members_from_py.simps) (simp add: py_iter_def)
  then show ?thesis by (simp add: desc_from_py.simps spec_tuple_def extract_str_def)
qed

lemma desc_roundtrip: "desc_depth d \<le> n \<Longrightarrow> desc_from_py L n (desc_to_py d) = Ok d"
proof (induction n arbitrary: d)
  case 0
  then show ?case by (cases d) simp_all
next
  case (Suc n)
  have members: "\<forall>(k, c) \<in> set fs. desc_from_py L n (desc_to_py c) = Ok c"
    if "Max (insert 0 ((\<lambda>(n, d). desc_depth d) ` set fs)) \<le> n" for fs
    using that Suc.IH by (auto simp: members_depth)
  from Suc.prems show ?case
    by (cases d) (simp_all add: desc_from_spec [OF members] del: Max_insert)
qed

text \<open>
  C8. A type survives the way to Python and back: the spec that \<open>aspy\<close> returns is read as the same
  descriptor, members, ids and order included, with a recursion as deep as the type is; \<open>Type\<close> takes it for
  every compound type, and another \<open>Type\<close> as it is.
\<close>

theorem type_spec_roundtrip:
  assumes "desc_depth d \<le> n"
  shows "desc_from_py L n (desc_to_py d) = Ok d \<and>
    (is_compound_spec (desc_to_py d) \<longrightarrow> type_new L n (desc_to_py d) None = Ok d) \<and>
    type_new L n (PType d) None = Ok d"
proof -
  obtain m where "n = Suc m" using assms by (cases n; cases d) auto
  with desc_roundtrip [OF assms] show ?thesis
    by (auto simp: type_new_def desc_from_py.simps split: field_desc.splits)
qed

theorem type_spec_roundtrip_witness:
  "desc_from_py ref_lib 3 (desc_to_py (DStructure ''id'' [(''x'', DScalar StInt), (''u'', DUnion [] [(''v'', DVariant)])])) =
     Ok (DStructure ''id'' [(''x'', DScalar StInt), (''u'', DUnion [] [(''v'', DVariant)])])"
  using type_spec_roundtrip [of "DStructure ''id'' [(''x'', DScalar StInt), (''u'', DUnion [] [(''v'', DVariant)])]" 3 ref_lib]
  by simp

text \<open>
  The spec of a scalar, array or variant type is a string, which \<open>Type\<close> takes for a list of
  members: it is refused.
\<close>

lemma plain_spec_is_refused:
  "type_new L (Suc n) (desc_to_py (DScalar st)) None = Raise bad_member"
  by (cases st)
    (simp_all add: type_new_def is_compound_spec_def members_from_py.simps py_iter_def member_pair_def)

text \<open>A type code that is neither one of the twelve scalars, their arrays, \<open>v\<close> nor \<open>av\<close> is refused.\<close>

lemma code_desc_iff:
  "code_desc code = Inr d \<longleftrightarrow>
     (\<exists>st. (d = DScalar st \<and> code = scalar_code st) \<or> (d = DScalarArray st \<and> code = CHR ''a'' # scalar_code st)) \<or>
     (d = DVariant \<and> code = ''v'') \<or> (d = DVariantArray \<and> code = ''av'')"
proof
  assume "code_desc code = Inr d"
  then show "(\<exists>st. (d = DScalar st \<and> code = scalar_code st) \<or> (d = DScalarArray st \<and> code = CHR ''a'' # scalar_code st)) \<or>
     (d = DVariant \<and> code = ''v'') \<or> (d = DVariantArray \<and> code = ''av'')"
    by (auto simp: code_desc_def ok_or_def scalar_from_code_iff
        split: list.splits if_splits option.splits)
qed auto

end
