(* ===== verification/PvFieldPy.thy ===== *)
theory PvFieldPy
  imports PvType
begin

text \<open>
  Reading a value from Python: \<open>field_to_py\<close>, \<open>field_to_plain_py\<close>, \<open>struct_to_list\<close> and the reading
  methods of \<open>Value\<close> in \<open>src/src/pva/value.rs\<close>. Every match on \<open>(desc, field)\<close> is taken apart by
  the field first: each of its arms names one constructor of the field. A view is a \<open>PValue\<close> with
  the root it shares, as it is when the view is made; a detached value has a root of its own.
\<close>

section \<open>Fields\<close>

definition detached :: "field_desc \<Rightarrow> pv_field \<Rightarrow> py" where
  "detached d f = PValue [] \<lparr>r_desc = d, r_field = f, r_marks = {}\<rparr>"

definition misfit :: "'a res" where
  "misfit = Inl (TypeError (Msg ''value {f} does not fit descriptor {d}'' []))"

text \<open>\<open>variants.get(usize::try_from(selector).unwrap_or(usize::MAX))\<close>.\<close>

definition variant_at :: "(string \<times> field_desc) list \<Rightarrow> i32 \<Rightarrow> (string \<times> field_desc) option" where
  "variant_at vs sel =
     (if sint sel < 0 then None
      else if nat (sint sel) < length vs then Some (vs ! nat (sint sel)) else None)"

definition element_to_py :: "string \<Rightarrow> (string \<times> field_desc) list \<Rightarrow> (string \<times> (string \<times> pv_field) list) option \<Rightarrow> py" where
  "element_to_py sid fs it =
     (case it of None \<Rightarrow> PNone | Some (i, vs) \<Rightarrow> detached (DStructure sid fs) (FStructure i vs))"

lemma pv_size_variant_box: "Suc (2 * size v) < 2 * size (FVariant od v)"
  by simp

lemma pv_size_element: "Some (i, vs) \<in> set items \<Longrightarrow> size (FStructure i vs) < size (FStructureArray items)"
  by (induction items) auto

function field_to_py :: "py_lib \<Rightarrow> field_desc \<Rightarrow> pv_field \<Rightarrow> py res"
  and variant_to_py :: "py_lib \<Rightarrow> field_desc option \<Rightarrow> pv_field \<Rightarrow> py res"
where
  "field_to_py L desc field =
     (case field of
        FScalar v \<Rightarrow> Inr (scalar_to_py L v)
      | FScalarArrayTyped a \<Rightarrow> Inr (typed_array_to_py L a)
      | FScalarArray v \<Rightarrow>
          (case desc of
             DScalarArray st \<Rightarrow> Inr (untyped_array_to_py L st v)
           | _ \<Rightarrow> Inr (untyped_array_to_py L (case v of [] \<Rightarrow> StDouble | s # _ \<Rightarrow> scalar_type_of s) v))
      | FStructure _ _ \<Rightarrow> (case desc of DStructure _ _ \<Rightarrow> Inr (detached desc field) | _ \<Rightarrow> misfit)
      | FStructureArray items \<Rightarrow>
          (case desc of
             DStructureArray sid fs \<Rightarrow> Inr (PList (map (element_to_py sid fs) items))
           | _ \<Rightarrow> misfit)
      | FUnion sel _ v \<Rightarrow>
          (case desc of
             DUnion _ vs \<Rightarrow>
               (case variant_at vs sel of Some (_, vdesc) \<Rightarrow> field_to_py L vdesc v | None \<Rightarrow> Inr PNone)
           | _ \<Rightarrow> misfit)
      | FUnionArray items \<Rightarrow>
          (case desc of
             DUnionArray _ vs \<Rightarrow>
               map_res PList (collect_res (map (\<lambda>it. case it of
                   Some (sel, _, v) \<Rightarrow>
                     (case variant_at vs sel of Some (_, vdesc) \<Rightarrow> field_to_py L vdesc v | None \<Rightarrow> Inr PNone)
                 | None \<Rightarrow> Inr PNone) items))
           | _ \<Rightarrow> misfit)
      | FVariant od v \<Rightarrow> variant_to_py L od v
      | FVariantArray items \<Rightarrow>
          map_res PList (collect_res (map (\<lambda>it. case it of
              Some (od, v) \<Rightarrow> variant_to_py L od v
            | None \<Rightarrow> Inr PNone) items))
      | FNull \<Rightarrow> Inr PNone)"
| "variant_to_py L od v =
     (case v of
        FNull \<Rightarrow> Inr PNone
      | _ \<Rightarrow> (case od of Some d \<Rightarrow> field_to_py L d v | None \<Rightarrow> field_to_py L (descriptor L v) v))"
  by pat_completeness auto
termination
  by (relation "measure (\<lambda>c. case c of Inl (L, d, f) \<Rightarrow> 2 * size f | Inr (L, od, v) \<Rightarrow> 2 * size v + 1)")
    (auto simp: pv_size_box pv_size_variant_box dest: pv_size_union pv_size_variant simp del: pv_field.size)

declare field_to_py.simps [simp del] variant_to_py.simps [simp del]

text \<open>Structures become dicts; the loop over the members skips one the field does not have.\<close>

definition dict_of :: "(string \<times> py) list \<Rightarrow> py" where
  "dict_of kvs = PDict (foldl (\<lambda>d (k, v). dict_set k v d) [] kvs)"

function field_to_plain_py :: "py_lib \<Rightarrow> field_desc \<Rightarrow> pv_field \<Rightarrow> py res" where
  "field_to_plain_py L desc field =
     (case (desc, field) of
        (DStructure _ members, FStructure _ vs) \<Rightarrow>
          map_res dict_of (collect_res (concat (map (\<lambda>(name, child).
              case map_of vs name of
                Some v \<Rightarrow> [map_res (Pair name) (field_to_plain_py L child v)]
              | None \<Rightarrow> []) members)))
      | (DStructureArray sid fs, FStructureArray items) \<Rightarrow>
          map_res PList (collect_res (map (\<lambda>it. case it of
              Some (i, vs) \<Rightarrow> field_to_plain_py L (DStructure sid fs) (FStructure i vs)
            | None \<Rightarrow> Inr PNone) items))
      | (DUnion _ vs, FUnion sel _ v) \<Rightarrow>
          (case variant_at vs sel of Some (_, vdesc) \<Rightarrow> field_to_plain_py L vdesc v | None \<Rightarrow> Inr PNone)
      | (_, FVariant od v) \<Rightarrow>
          (case v of
             FNull \<Rightarrow> Inr PNone
           | _ \<Rightarrow> (case od of
                    Some d \<Rightarrow> field_to_plain_py L d v
                  | None \<Rightarrow> field_to_plain_py L (descriptor L v) v))
      | _ \<Rightarrow> field_to_py L desc field)"
  by pat_completeness auto
termination
  by (relation "measure (\<lambda>(L, d, f). size f)")
    (auto simp: pv_size_box pv_size_element dest!: map_of_SomeD dest: pv_size_member simp del: pv_field.size)

declare field_to_plain_py.simps [simp del]

definition not_a_structure :: pyexc where
  "not_a_structure = TypeError (Msg ''not a structure'' [])"

function struct_to_list :: "py_lib \<Rightarrow> field_desc \<Rightarrow> pv_field \<Rightarrow> py res" where
  "struct_to_list L desc field =
     (case (desc, field) of
        (DStructure _ members, FStructure _ vs) \<Rightarrow>
          map_res PList (collect_res (concat (map (\<lambda>(name, child).
              case map_of vs name of
                Some v \<Rightarrow>
                  [map_res (\<lambda>conv. PTuple [PStr name, conv])
                     (if is_structure child then struct_to_list L child v else field_to_plain_py L child v)]
              | None \<Rightarrow> []) members)))
      | _ \<Rightarrow> Inl not_a_structure)"
  by pat_completeness auto
termination
  by (relation "measure (\<lambda>(L, d, f). size f)")
    (auto dest!: map_of_SomeD dest: pv_size_member simp del: pv_field.size)

declare struct_to_list.simps [simp del]

section \<open>Reading methods of a value\<close>

definition value_item :: "py_lib \<Rightarrow> string \<Rightarrow> root \<Rightarrow> string \<Rightarrow> py res" where
  "value_item L pre r key =
     (let path = join pre key in
      case desc_at (r_desc r) path of
        None \<Rightarrow> Inl (no_such_member key)
      | Some desc \<Rightarrow>
          if is_structure desc then Inr (PValue path r)
          else bind_res (ok_or (field_at (r_field r) path) (no_such_member key)) (field_to_py L desc))"

definition value_getattr :: "py_lib \<Rightarrow> string \<Rightarrow> root \<Rightarrow> string \<Rightarrow> py res" where
  "value_getattr L pre r name =
     (if take 1 name = ''_'' then Inl (AttributeError (Msg ''{name}'' [AStr name]))
      else (case value_item L pre r name of
              Inl _ \<Rightarrow> Inl (AttributeError (Msg ''no such member field {name:?}'' [AStr name]))
            | Inr v \<Rightarrow> Inr v))"

definition value_get :: "py_lib \<Rightarrow> string \<Rightarrow> root \<Rightarrow> string \<Rightarrow> py option \<Rightarrow> py res" where
  "value_get L pre r key dflt =
     (case value_item L pre r key of
        Inr v \<Rightarrow> Inr v
      | Inl (KeyError _) \<Rightarrow> Inr (case dflt of None \<Rightarrow> PNone | Some d \<Rightarrow> d)
      | Inl e \<Rightarrow> Inl e)"

definition value_items :: "py_lib \<Rightarrow> string \<Rightarrow> root \<Rightarrow> (string \<times> py) list res" where
  "value_items L pre r =
     bind_res (keys pre r) (\<lambda>ks. collect_res (map (\<lambda>k. map_res (Pair k) (value_item L pre r k)) ks))"

definition value_type :: "string \<Rightarrow> root \<Rightarrow> string option \<Rightarrow> py res" where
  "value_type pre r field =
     (let name = (case field of None \<Rightarrow> [] | Some f \<Rightarrow> f) in
      case desc_at (r_desc r) (join pre name) of
        Some d \<Rightarrow> Inr (member_type_to_py d)
      | None \<Rightarrow> Inl (no_such_member name))"

definition todict :: "py_lib \<Rightarrow> string \<Rightarrow> root \<Rightarrow> string list option \<Rightarrow> py res" where
  "todict L pre r wanted =
     bind_res (ok_or (desc_at (r_desc r) pre) path_vanished) (\<lambda>desc.
     bind_res (ok_or (field_at (r_field r) pre) path_vanished) (\<lambda>field.
       (case (desc, field) of
          (DStructure _ members, FStructure _ vs) \<Rightarrow>
            map_res dict_of (collect_res (concat (map (\<lambda>(name, child).
              if (case wanted of None \<Rightarrow> False | Some f \<Rightarrow> name \<notin> set f) then []
              else (case map_of vs name of
                      Some v \<Rightarrow> [map_res (Pair name) (field_to_plain_py L child v)]
                    | None \<Rightarrow> [])) members)))
        | _ \<Rightarrow> Inl not_a_structure)))"

definition tolist :: "py_lib \<Rightarrow> string \<Rightarrow> root \<Rightarrow> py res" where
  "tolist L pre r =
     bind_res (ok_or (desc_at (r_desc r) pre) path_vanished) (\<lambda>desc.
     bind_res (ok_or (field_at (r_field r) pre) path_vanished) (struct_to_list L desc))"

section \<open>Reading a conforming value\<close>

text \<open>
  A union selector is 32 bits and signed, so a member past \<open>2 ^ 31\<close> would be read as unselected, and
  of two members of one name only the first is found; \<open>readable_desc\<close> and \<open>readable_field\<close> say
  there are none, in the type and in the types variants carry.
\<close>

fun readable_desc :: "field_desc \<Rightarrow> bool" where
  "readable_desc (DStructure _ fs) = (distinct (map fst fs) \<and> list_all (\<lambda>(n, d). readable_desc d) fs)"
| "readable_desc (DStructureArray _ fs) = (distinct (map fst fs) \<and> list_all (\<lambda>(n, d). readable_desc d) fs)"
| "readable_desc (DUnion _ vs) = (length vs < 2 ^ 31 \<and> list_all (\<lambda>(n, d). readable_desc d) vs)"
| "readable_desc (DUnionArray _ vs) = (length vs < 2 ^ 31 \<and> list_all (\<lambda>(n, d). readable_desc d) vs)"
| "readable_desc _ = True"

fun readable_field :: "pv_field \<Rightarrow> bool" where
  "readable_field (FStructure _ vs) = list_all (\<lambda>(n, v). readable_field v) vs"
| "readable_field (FStructureArray items) =
     list_all (\<lambda>it. case it of None \<Rightarrow> True | Some (i, vs) \<Rightarrow> list_all (\<lambda>(n, v). readable_field v) vs) items"
| "readable_field (FUnion _ _ v) = readable_field v"
| "readable_field (FUnionArray items) =
     list_all (\<lambda>it. case it of None \<Rightarrow> True | Some (sel, n, v) \<Rightarrow> readable_field v) items"
| "readable_field (FVariant od v) = ((case od of None \<Rightarrow> True | Some d \<Rightarrow> readable_desc d) \<and> readable_field v)"
| "readable_field (FVariantArray items) =
     list_all (\<lambda>it. case it of None \<Rightarrow> True
       | Some (od, v) \<Rightarrow> (case od of None \<Rightarrow> True | Some d \<Rightarrow> readable_desc d) \<and> readable_field v) items"
| "readable_field _ = True"

lemma variant_at_selected:
  assumes "i < length vs" and "length vs < 2 ^ 31"
  shows "variant_at vs (of_nat i) = Some (vs ! i)"
proof -
  have "sint (of_nat i :: i32) = int i"
    using assms by (simp add: signed_of_nat signed_take_bit_int_eq_self)
  then show ?thesis using assms by (simp add: variant_at_def)
qed

lemma variant_at_unselected [simp]: "variant_at vs (- 1) = None"
  by (simp add: variant_at_def)

lemma collect_res_map_total: "(\<And>x. x \<in> set xs \<Longrightarrow> \<exists>y. g x = Inr y) \<Longrightarrow> \<exists>ys. collect_res (map g xs) = Inr ys"
  by (induction xs) fastforce+

lemma null_to_py [simp]: "field_to_py L d FNull = Inr PNone"
  by (simp add: field_to_py.simps)

lemma variant_to_py_not_null: "v \<noteq> FNull \<Longrightarrow> variant_to_py L (Some d) v = field_to_py L d v"
  by (subst variant_to_py.simps) (cases v; simp)

lemma variant_to_py_null [simp]: "variant_to_py L od FNull = Inr PNone"
  by (simp add: variant_to_py.simps)

lemma field_to_py_total:
  "conforms d f \<Longrightarrow> readable_desc d \<Longrightarrow> readable_field f \<Longrightarrow> \<exists>p. field_to_py L d f = Inr p"
proof (induction "size f" arbitrary: d f rule: less_induct)
  case less
  have member: "\<exists>p. (case variant_at vs (of_nat i) of Some (_, vdesc) \<Rightarrow> field_to_py L vdesc v | None \<Rightarrow> Inr PNone) = Inr p"
    if "i < length vs" "length vs < 2 ^ 31" "list_all (\<lambda>(n, d). readable_desc d) vs" "readable_field v"
      "conforms (snd (vs ! i)) v" "size v < size f" for vs :: "(string \<times> field_desc) list" and i v
    using that less.hyps [OF that(6), of "snd (vs ! i)"]
    by (auto simp: variant_at_selected list_all_length case_prod_beta)
  have carried: "\<exists>p. variant_to_py L od v = Inr p"
    if "case od of None \<Rightarrow> v = FNull | Some e \<Rightarrow> conforms e v" "case od of None \<Rightarrow> True | Some e \<Rightarrow> readable_desc e"
      "readable_field v" "size v < size f" for od v
    using that less.hyps by (cases od; cases "v = FNull") (auto simp: variant_to_py_not_null)
  from less.prems(1) show ?case
  proof (cases rule: conforms_cases)
    case (8 sid vs its)
    have "\<exists>xs. collect_res (map (\<lambda>it. case it of
        Some (sel, _, v) \<Rightarrow> (case variant_at vs sel of Some (_, vdesc) \<Rightarrow> field_to_py L vdesc v | None \<Rightarrow> Inr PNone)
      | None \<Rightarrow> Inr PNone) its) = Inr xs"
    proof (rule collect_res_map_total)
      fix it assume it: "it \<in> set its"
      show "\<exists>x. (case it of
          Some (sel, _, v) \<Rightarrow> (case variant_at vs sel of Some (_, vdesc) \<Rightarrow> field_to_py L vdesc v | None \<Rightarrow> Inr PNone)
        | None \<Rightarrow> Inr PNone) = Inr x"
      proof (cases it)
        case (Some t)
        then obtain sel n v where t: "it = Some (sel, n, v)" by (cases t) auto
        with 8 it obtain i where i: "i < length vs" "sel = of_nat i" "conforms (snd (vs ! i)) v" by blast
        from it t 8 have "size v < size f" by (simp add: pv_size_union del: pv_field.size)
        moreover have "length vs < 2 ^ 31" "list_all (\<lambda>(n, d). readable_desc d) vs" "readable_field v"
          using it t 8 less.prems(2,3) by (auto simp: list_all_iff)
        ultimately show ?thesis using member [OF i(1) _ _ _ i(3)] t i(2) by simp
      qed simp
    qed
    with 8 show ?thesis by (auto simp: field_to_py.simps)
  next
    case (11 its)
    have "\<exists>xs. collect_res (map (\<lambda>it. case it of Some (od, v) \<Rightarrow> variant_to_py L od v | None \<Rightarrow> Inr PNone) its) = Inr xs"
    proof (rule collect_res_map_total)
      fix it assume it: "it \<in> set its"
      show "\<exists>x. (case it of Some (od, v) \<Rightarrow> variant_to_py L od v | None \<Rightarrow> Inr PNone) = Inr x"
      proof (cases it)
        case (Some t)
        then obtain od v where t: "it = Some (od, v)" by (cases t) auto
        with 11 it have "case od of None \<Rightarrow> v = FNull | Some e \<Rightarrow> conforms e v" by blast
        moreover from it t 11 have "size v < size f" by (simp add: pv_size_variant del: pv_field.size)
        moreover have "case od of None \<Rightarrow> True | Some e \<Rightarrow> readable_desc e" "readable_field v"
          using it t 11 less.prems(3) by (auto simp: list_all_iff)
        ultimately show ?thesis using t carried by simp
      qed simp
    qed
    with 11 show ?thesis by (auto simp: field_to_py.simps)
  next
    case (7 sid vs i v)
    with less.prems member [of i vs v] show ?thesis by (simp add: field_to_py.simps)
  next
    case (10 e v)
    with less.prems carried [where od = "Some e" and v = v] show ?thesis by (simp add: field_to_py.simps)
  qed (auto simp: field_to_py.simps)
qed

text \<open>The members of a structure, converted in the order of the type.\<close>

definition plain_members :: "py_lib \<Rightarrow> (string \<times> field_desc) list \<Rightarrow> (string \<times> pv_field) list \<Rightarrow> (string \<times> py) res list" where
  "plain_members L members vs = concat (map (\<lambda>(name, child).
     case map_of vs name of
       Some v \<Rightarrow> [map_res (Pair name) (field_to_plain_py L child v)]
     | None \<Rightarrow> []) members)"

lemma plain_structure:
  "field_to_plain_py L (DStructure sid members) (FStructure i vs) =
     map_res dict_of (collect_res (plain_members L members vs))"
  by (subst field_to_plain_py.simps) (simp add: plain_members_def)

lemma plain_members_total:
  assumes "members_ok R fs vs" "\<And>n d v. (n, d) \<in> set fs \<Longrightarrow> map_of vs n = Some v \<Longrightarrow> \<exists>p. field_to_plain_py L d v = Inr p"
  shows "\<exists>kvs. collect_res (plain_members L fs vs) = Inr kvs \<and> map fst kvs = map fst fs"
proof -
  have "set gs \<subseteq> set fs \<Longrightarrow>
      \<exists>kvs. collect_res (plain_members L gs vs) = Inr kvs \<and> map fst kvs = map fst gs" for gs
  proof (induction gs)
    case (Cons m gs)
    obtain n d where m: "m = (n, d)" by (cases m)
    with Cons.prems have nd: "(n, d) \<in> set fs" by simp
    then have "map_of fs n \<noteq> None" by (auto dest: weak_map_of_SomeI)
    with assms(1) obtain v where v: "map_of vs n = Some v" by (cases "map_of vs n") (auto simp: members_ok_dom)
    with assms(2) nd Cons m show ?case by (fastforce simp: plain_members_def)
  qed (simp add: plain_members_def)
  then show ?thesis by blast
qed

lemma members_ok_at:
  assumes "members_ok R fs vs" "distinct (map fst fs)" "(n, d) \<in> set fs"
  shows "\<exists>v. map_of vs n = Some v \<and> R d v"
  using assms members_ok_get [of R fs vs n d] by (simp add: map_of_is_SomeI)

lemma plain_not_structured:
  "\<not> is_structure d \<Longrightarrow> (\<forall>i sid. f \<noteq> FStructureArray i) \<Longrightarrow> (\<forall>sel n v. f \<noteq> FUnion sel n v) \<Longrightarrow>
     (\<forall>od v. f \<noteq> FVariant od v) \<Longrightarrow> field_to_plain_py L d f = field_to_py L d f"
  by (subst field_to_plain_py.simps) (cases d; cases f; simp)

lemma plain_total:
  "conforms d f \<Longrightarrow> readable_desc d \<Longrightarrow> readable_field f \<Longrightarrow> \<exists>p. field_to_plain_py L d f = Inr p"
proof (induction "size f" arbitrary: d f rule: less_induct)
  case less
  have struct: "\<exists>p. field_to_plain_py L (DStructure sid fs) (FStructure i vs) = Inr p"
    if "members_ok conforms fs vs" "distinct (map fst fs)" "list_all (\<lambda>(n, d). readable_desc d) fs"
      "list_all (\<lambda>(n, v). readable_field v) vs" "size (FStructure i vs) \<le> size f" for sid fs i vs
  proof -
    have "\<exists>p. field_to_plain_py L d v = Inr p" if "(n, d) \<in> set fs" "map_of vs n = Some v" for n d v
    proof -
      from that(2) have v: "(n, v) \<in> set vs" by (rule map_of_SomeD)
      then have "size v < size f" using pv_size_member [of n v vs i] \<open>size (FStructure i vs) \<le> size f\<close> by simp
      moreover have "conforms d v"
        using members_ok_at [OF \<open>members_ok conforms fs vs\<close> \<open>distinct (map fst fs)\<close> that(1)] that(2) by auto
      moreover have "readable_desc d" "readable_field v"
        using that(1) v \<open>list_all (\<lambda>(n, d). readable_desc d) fs\<close> \<open>list_all (\<lambda>(n, v). readable_field v) vs\<close>
        by (auto simp: list_all_iff)
      ultimately show ?thesis by (rule less.hyps)
    qed
    then have "\<exists>kvs. collect_res (plain_members L fs vs) = Inr kvs \<and> map fst kvs = map fst fs"
      by (intro plain_members_total [OF \<open>members_ok conforms fs vs\<close>])
    then show ?thesis by (auto simp: plain_structure)
  qed
  from less.prems(1) show ?case
  proof (cases rule: conforms_cases)
    case (4 sid fs i vs)
    with less.prems struct show ?thesis by simp
  next
    case (5 sid fs its)
    have "\<exists>xs. collect_res (map (\<lambda>it. case it of
        Some (i, vs) \<Rightarrow> field_to_plain_py L (DStructure sid fs) (FStructure i vs)
      | None \<Rightarrow> Inr PNone) its) = Inr xs"
    proof (rule collect_res_map_total)
      fix it assume it: "it \<in> set its"
      show "\<exists>x. (case it of
          Some (i, vs) \<Rightarrow> field_to_plain_py L (DStructure sid fs) (FStructure i vs)
        | None \<Rightarrow> Inr PNone) = Inr x"
      proof (cases it)
        case (Some t)
        then obtain i vs where t: "it = Some (i, vs)" by (cases t) auto
        then have "size (FStructure i vs) \<le> size f" using it 5 pv_size_element [of i vs its] by simp
        moreover have "list_all (\<lambda>(n, v). readable_field v) vs"
          using it t 5 less.prems(3) by (fastforce simp: list_all_iff [of _ its])
        ultimately show ?thesis using it t 5 less.prems(2) struct [of fs vs i sid] by auto
      qed simp
    qed
    with 5 show ?thesis by (subst field_to_plain_py.simps) auto
  next
    case (6 sid vs)
    then show ?thesis by (subst field_to_plain_py.simps) auto
  next
    case (7 sid vs i v)
    then have "readable_desc (snd (vs ! i))" using less.prems(2) by (auto simp: list_all_length case_prod_beta)
    with 7 less.prems less.hyps [of v "snd (vs ! i)"] show ?thesis
      by (subst field_to_plain_py.simps) (simp add: variant_at_selected case_prod_beta)
  next
    case (10 e v)
    then have "v \<noteq> FNull" by auto
    with 10 less.prems less.hyps [of v e] show ?thesis
      by (subst field_to_plain_py.simps) (cases v; simp)
  qed (use less.prems field_to_py_total [OF less.prems] in \<open>auto simp: plain_not_structured,
      (subst field_to_plain_py.simps, simp)?\<close>)
qed

lemma readable_walk:
  "readable_desc d \<Longrightarrow> walk desc_child d ss = Some c \<Longrightarrow> readable_desc c"
proof (induction ss arbitrary: d)
  case (Cons s ss)
  then obtain sid fs e where "d = DStructure sid fs" "map_of fs s = Some e" "walk desc_child e ss = Some c"
    by (cases d) (auto simp: desc_child_map_of simp del: desc_child.simps(1) split: option.splits)
  with Cons show ?case by (auto simp: list_all_iff dest!: map_of_SomeD)
qed simp

lemma readable_walk_field:
  "readable_field f \<Longrightarrow> walk field_child f ss = Some v \<Longrightarrow> readable_field v"
proof (induction ss arbitrary: f)
  case (Cons s ss)
  then obtain i vs e where "f = FStructure i vs" "map_of vs s = Some e" "walk field_child e ss = Some v"
    by (cases f) (auto split: option.splits)
  with Cons show ?case by (auto simp: list_all_iff dest!: map_of_SomeD)
qed simp

lemma conforming_at:
  assumes "conforms (r_desc r) (r_field r)" "readable_desc (r_desc r)" "readable_field (r_field r)"
    and "desc_at (r_desc r) p = Some d"
  obtains f where "field_at (r_field r) p = Some f" "conforms d f" "readable_desc d" "readable_field f"
proof -
  from conforms_field_at [OF assms(1,4)] obtain f where "field_at (r_field r) p = Some f" "conforms d f" by blast
  with assms that show thesis by (auto simp: desc_at_def field_at_def intro: readable_walk readable_walk_field)
qed

section \<open>Properties\<close>

text \<open>
  C10. Reading a member never fails on a value that has its type: \<open>v[key]\<close> and \<open>v.get(key)\<close> return
  the same object for every path the type has. For any other path \<open>v[key]\<close> raises \<open>KeyError\<close>,
  \<open>v.key\<close> raises \<open>AttributeError\<close>, and \<open>v.get(key, default)\<close> returns the default.
\<close>

theorem member_reads:
  assumes "conforms (r_desc r) (r_field r)" "readable_desc (r_desc r)" "readable_field (r_field r)"
  shows "if has pre r key
    then \<exists>v. value_item L pre r key = Inr v \<and> value_get L pre r key dflt = Inr v \<and>
      (take 1 key \<noteq> ''_'' \<longrightarrow> value_getattr L pre r key = Inr v)
    else value_item L pre r key = Inl (no_such_member key) \<and>
      value_get L pre r key dflt = Inr (case dflt of None \<Rightarrow> PNone | Some d \<Rightarrow> d) \<and>
      (\<exists>m. value_getattr L pre r key = Inl (AttributeError m))"
proof (cases "desc_at (r_desc r) (join pre key)")
  case None
  then show ?thesis
    by (simp add: has_def value_item_def value_get_def value_getattr_def no_such_member_def)
next
  case (Some d)
  from conforming_at [OF assms Some] obtain f where
    f: "field_at (r_field r) (join pre key) = Some f" "conforms d f" "readable_desc d" "readable_field f" .
  have "\<exists>v. value_item L pre r key = Inr v"
    using Some f field_to_py_total [OF f(2-4), of L] by (auto simp: value_item_def Let_def)
  with Some show ?thesis by (auto simp: has_def value_get_def value_getattr_def)
qed

theorem member_reads_witness:
  "\<exists>v. value_item ref_lib ''s'' sample_root ''x'' = Inr v \<and> value_get ref_lib ''s'' sample_root ''x'' None = Inr v"
proof -
  have "readable_desc (r_desc sample_root)" "readable_field (r_field sample_root)"
    by (simp_all add: sample_root_def sample_desc_def)
  from member_reads [OF sample_conforms this, of "''s''" "''x''" ref_lib None] show ?thesis by auto
qed

lemma dict_set_new: "PStr k \<notin> fst ` set kvs \<Longrightarrow> dict_set k v kvs = kvs @ [(PStr k, v)]"
  by (induction kvs rule: dict_set.induct) auto

lemma dict_of_distinct:
  assumes "distinct (map fst kvs)"
  shows "dict_of kvs = PDict (map (\<lambda>(k, v). (PStr k, v)) kvs)"
proof -
  have "distinct (map fst kvs) \<Longrightarrow> \<forall>k \<in> fst ` set kvs. PStr k \<notin> fst ` set acc \<Longrightarrow>
      foldl (\<lambda>d (k, v). dict_set k v d) acc kvs = acc @ map (\<lambda>(k, v). (PStr k, v)) kvs" for acc
  proof (induction kvs arbitrary: acc)
    case (Cons kv kvs)
    obtain k v where kv: "kv = (k, v)" by (cases kv)
    with Cons.prems have "\<forall>j \<in> fst ` set kvs. PStr j \<notin> fst ` set (acc @ [(PStr k, v)])" by auto
    with Cons.IH Cons.prems(1) kv
    have "foldl (\<lambda>d (k, v). dict_set k v d) (acc @ [(PStr k, v)]) kvs =
        (acc @ [(PStr k, v)]) @ map (\<lambda>(k, v). (PStr k, v)) kvs" by simp
    moreover from Cons.prems(2) kv have "dict_set k v acc = acc @ [(PStr k, v)]" by (intro dict_set_new) simp
    ultimately show ?case using kv by simp
  qed simp
  from this [of "[]"] assms show ?thesis by (simp add: dict_of_def)
qed

lemma collect_res_eq_Inr: "collect_res rs = Inr xs \<longleftrightarrow> rs = map Inr xs"
  by (induction rs arbitrary: xs rule: collect_res.induct) (auto simp: Cons_eq_map_conv)

lemma plain_members_names:
  "\<forall>m \<in> set fs. map_of vs (fst m) \<noteq> None \<Longrightarrow> collect_res (plain_members L fs vs) = Inr kvs \<Longrightarrow>
     map fst kvs = map fst fs"
  unfolding collect_res_eq_Inr plain_members_def
  by (induction fs arbitrary: kvs) (auto simp: Cons_eq_map_conv)

lemma plain_members_at:
  assumes "collect_res (plain_members L fs vs) = Inr kvs" "(n, d) \<in> set fs" "map_of vs n = Some v"
  shows "\<exists>p. field_to_plain_py L d v = Inr p \<and> (n, p) \<in> set kvs"
proof -
  have "map_res (Pair n) (field_to_plain_py L d v) \<in> set (plain_members L fs vs)"
    using assms(2,3) by (force simp: plain_members_def)
  with assms(1) obtain kv where "map_res (Pair n) (field_to_plain_py L d v) = Inr kv" "kv \<in> set kvs"
    by (auto simp: collect_res_eq_Inr)
  then show ?thesis by auto
qed

text \<open>
  C11. \<open>todict\<close> of a structure view returns a dict with every member of the type, once and in the order of
  the type, each with the plain Python form of its field: nothing is dropped and nothing fails.
\<close>

theorem todict_members:
  assumes "conforms (r_desc r) (r_field r)" "readable_desc (r_desc r)" "readable_field (r_field r)"
    and "desc_at (r_desc r) pre = Some (DStructure sid fs)"
  shows "\<exists>i vs kvs. field_at (r_field r) pre = Some (FStructure i vs) \<and>
    todict L pre r None = Inr (PDict kvs) \<and> map fst kvs = map (PStr \<circ> fst) fs \<and>
    (\<forall>(n, d) \<in> set fs. \<exists>v p. map_of vs n = Some v \<and> field_to_plain_py L d v = Inr p \<and> (PStr n, p) \<in> set kvs)"
proof -
  from conforming_at [OF assms] obtain f where
    f: "field_at (r_field r) pre = Some f" "conforms (DStructure sid fs) f"
      "readable_desc (DStructure sid fs)" "readable_field f" .
  then obtain i vs where vs: "f = FStructure i vs" "members_ok conforms fs vs" by (auto simp: conforms_structure)
  from plain_total [OF f(2-4), of L] vs obtain kvs where
    kvs: "collect_res (plain_members L fs vs) = Inr kvs" by (auto simp: plain_structure)
  have at: "\<exists>v. map_of vs n = Some v" if "(n, d) \<in> set fs" for n d
    using members_ok_at [OF vs(2) _ that] f(3) by auto
  have "map fst kvs = map fst fs"
    by (rule plain_members_names [OF _ kvs]) (use at in fastforce)
  with f(3) have names: "map fst kvs = map fst fs" "distinct (map fst kvs)" by simp_all
  then have "todict L pre r None = Inr (PDict (map (\<lambda>(k, v). (PStr k, v)) kvs))"
    using f(1) vs(1) kvs assms(4)
    by (simp add: todict_def plain_members_def [symmetric] dict_of_distinct)
  moreover have "map fst (map (\<lambda>(k, v). (PStr k, v)) kvs) = map (PStr \<circ> fst) fs"
    using arg_cong [OF names(1), of "map PStr"] by (simp add: o_def case_prod_beta)
  moreover have "\<exists>v p. map_of vs n = Some v \<and> field_to_plain_py L d v = Inr p \<and>
      (PStr n, p) \<in> set (map (\<lambda>(k, v). (PStr k, v)) kvs)" if "(n, d) \<in> set fs" for n d
    using at [OF that] plain_members_at [OF kvs that] by force
  ultimately show ?thesis
    using f(1) vs(1) by blast
qed

theorem todict_members_witness:
  "\<exists>kvs. todict ref_lib ''s'' sample_root None = Inr (PDict kvs) \<and> map fst kvs = [PStr ''x'', PStr ''u'']"
proof -
  have "readable_desc (r_desc sample_root)" "readable_field (r_field sample_root)"
    "desc_at (r_desc sample_root) ''s'' =
       Some (DStructure [] [(''x'', DScalar StDouble), (''u'', DUnion [] [(''i'', DScalar StInt)])])"
    by (simp_all add: sample_root_def sample_desc_def desc_at_def)
  from todict_members [OF sample_conforms this, of ref_lib] show ?thesis by auto
qed

end
