(* ===== verification/PvAssign.thy ===== *)
theory PvAssign
  imports PvFieldPy
begin

text \<open>
  Assigning Python objects to a value: \<open>infer_desc\<close>, \<open>build\<close>, the union and variant builders,
  \<open>assign\<close>, and the operations of \<open>Value\<close> that call it, in \<open>src/src/pva/value.rs\<close>.

  \<open>assign\<close> changes the target and the marks in place, so it returns both as it leaves them, an error
  included: a structure keeps what was assigned before the failing member. A \<open>Value\<close> that is assigned is
  one of another root; a view of the same root would lock the root it has locked.
\<close>

section \<open>The descriptor an object implies\<close>

text \<open>\<open>dtype.kind\<close> and \<open>dtype.itemsize\<close> of the numpy types.\<close>

definition numpy_kind :: "scalar_type \<Rightarrow> string \<times> nat" where
  "numpy_kind st =
     (case st of
        StBoolean \<Rightarrow> (''b'', 1)
      | StByte \<Rightarrow> (''i'', 1) | StShort \<Rightarrow> (''i'', 2) | StInt \<Rightarrow> (''i'', 4) | StLong \<Rightarrow> (''i'', 8)
      | StUByte \<Rightarrow> (''u'', 1) | StUShort \<Rightarrow> (''u'', 2) | StUInt \<Rightarrow> (''u'', 4) | StULong \<Rightarrow> (''u'', 8)
      | StFloat \<Rightarrow> (''f'', 4) | StDouble \<Rightarrow> (''f'', 8)
      | StString \<Rightarrow> (''U'', 4))"

definition kind_type :: "string \<Rightarrow> nat \<Rightarrow> scalar_type" where
  "kind_type kind sz =
     (if kind = ''b'' then StBoolean
      else if kind = ''i'' then
        (if sz = 1 then StByte else if sz = 2 then StShort else if sz = 4 then StInt else StLong)
      else if kind = ''u'' then
        (if sz = 1 then StUByte else if sz = 2 then StUShort else if sz = 4 then StUInt else StULong)
      else if kind = ''f'' then (if sz = 4 then StFloat else StDouble)
      else StString)"

text \<open>Kind, item size and dimension of an object that has \<open>dtype\<close> and \<open>shape\<close>.\<close>

definition array_like :: "py_lib \<Rightarrow> py \<Rightarrow> (string \<times> nat \<times> nat) option" where
  "array_like L obj =
     (case obj of
        PArray a \<Rightarrow> (case numpy_kind (array_type_of a) of (k, n) \<Rightarrow> Some (k, n, 1))
      | POther i \<Rightarrow> dtype_of L i
      | _ \<Rightarrow> None)"

definition infer_desc :: "py_lib \<Rightarrow> py \<Rightarrow> field_desc option res" where
  "infer_desc L obj =
     (case obj of
        PNone \<Rightarrow> Inr None
      | PValue pre r \<Rightarrow> Inr (desc_at (r_desc r) pre)
      | PBool _ \<Rightarrow> Inr (Some (DScalar StBoolean))
      | PInt _ \<Rightarrow> Inr (Some (DScalar StLong))
      | PFloat _ \<Rightarrow> Inr (Some (DScalar StDouble))
      | PStr _ \<Rightarrow> Inr (Some (DScalar StString))
      | _ \<Rightarrow>
          (case array_like L obj of
             Some (kind, sz, ndim) \<Rightarrow>
               let st = kind_type kind sz
               in Inr (Some (if ndim = 0 then DScalar st else DScalarArray st))
           | None \<Rightarrow>
               (case obj of
                  PList xs \<Rightarrow>
                    Inr (Some (DScalarArray (if xs \<noteq> [] \<and> list_all is_str xs then StString else StDouble)))
                | _ \<Rightarrow>
                    if (case index_of L obj of Some i \<Rightarrow> fits_i128 i | None \<Rightarrow> False) then Inr (Some (DScalar StLong))
                    else if float_of L obj \<noteq> None then Inr (Some (DScalar StDouble))
                    else Inl (wrong_type L ''cannot infer a pvData type for {}'' obj))))"

section \<open>Picking a union member\<close>

definition accepts :: "field_desc option \<Rightarrow> field_desc \<Rightarrow> bool" where
  "accepts wanted d \<longleftrightarrow>
     (case (wanted, d) of
        (Some (DScalar w), DScalar st) \<Rightarrow>
          (w = StString \<and> st = StString) \<or> (w = StBoolean \<and> st = StBoolean) \<or>
          (w = StLong \<and> st \<noteq> StString \<and> st \<noteq> StBoolean) \<or>
          (w = StDouble \<and> (st = StDouble \<or> st = StFloat))
      | (Some (DScalarArray w), DScalarArray st) \<Rightarrow> w = st
      | (Some (DStructure _ _), DStructure _ _) \<Rightarrow> True
      | _ \<Rightarrow> False)"

definition accepts_loosely :: "field_desc option \<Rightarrow> field_desc \<Rightarrow> bool" where
  "accepts_loosely wanted d \<longleftrightarrow>
     (case (wanted, d) of
        (Some (DScalarArray _), DScalarArray _) \<Rightarrow> True
      | (Some (DScalar w), DScalar st) \<Rightarrow> w = StDouble \<and> st \<noteq> StString \<and> st \<noteq> StBoolean
      | _ \<Rightarrow> False)"

definition is_dict :: "py \<Rightarrow> bool" where
  "is_dict obj \<longleftrightarrow> (case obj of PDict _ \<Rightarrow> True | _ \<Rightarrow> False)"

definition pick_union_variant ::
  "py_lib \<Rightarrow> (string \<times> field_desc) list \<Rightarrow> py \<Rightarrow> (nat \<times> string \<times> field_desc) res"
where
  "pick_union_variant L vs obj =
     bind_res (infer_desc L obj) (\<lambda>wanted.
       case find_idx (\<lambda>(n, d). accepts wanted d) vs of
         Some found \<Rightarrow> Inr found
       | None \<Rightarrow>
           (case find_idx (\<lambda>(n, d). accepts_loosely wanted d) vs of
              Some found \<Rightarrow> Inr found
            | None \<Rightarrow>
                (case (if is_dict obj then find_idx (\<lambda>(n, d). is_structure d) vs else None) of
                   Some found \<Rightarrow> Inr found
                 | None \<Rightarrow>
                     Inl (ValueError (Msg ''no union member accepts a {}; select one with (name, value)''
                       [AStr (type_name L obj)])))))"

text \<open>The member \<open>build_union\<close> builds, and what from.\<close>

definition union_choice ::
  "py_lib \<Rightarrow> (string \<times> field_desc) list \<Rightarrow> py \<Rightarrow> (nat \<times> string \<times> field_desc \<times> py) res"
where
  "union_choice L vs obj =
     (case obj of
        PTuple [m, payload] \<Rightarrow>
          bind_res (extract_str L m) (\<lambda>name.
          bind_res (ok_or (find_idx (\<lambda>v. fst v = name) vs)
              (KeyError (Msg ''union has no member {name:?}'' [AStr name]))) (\<lambda>(idx, (n, d)).
            Inr (idx, n, d, payload)))
      | PTuple _ \<Rightarrow> Inl (ValueError (Msg ''union assignment tuple must be (member, value)'' []))
      | _ \<Rightarrow> map_res (\<lambda>(idx, n, d). (idx, n, d, obj)) (pick_union_variant L vs obj))"

section \<open>Assigning\<close>

text \<open>
  \<open>assign\<close>, \<open>build\<close>, \<open>build_union\<close> and \<open>build_variant\<close> call each other. Here the builders take the
  \<open>assign\<close> they call as an argument, and \<open>assign\<close> with depth \<open>Suc n\<close> gives them itself with depth
  \<open>n\<close>; at depth 0 it overflows.
\<close>

type_synonym assigner =
  "field_desc \<Rightarrow> pv_field \<Rightarrow> py \<Rightarrow> nat set \<Rightarrow> nat \<Rightarrow> (pv_field \<times> nat set) \<times> unit run"

definition build :: "py_lib \<Rightarrow> assigner \<Rightarrow> field_desc \<Rightarrow> py \<Rightarrow> pv_field run" where
  "build L A desc obj =
     (case A desc (default_for L desc) obj {} 0 of ((f, scratch), r) \<Rightarrow> run_fmap (\<lambda>_. f) r)"

definition build_union ::
  "py_lib \<Rightarrow> assigner \<Rightarrow> (string \<times> field_desc) list \<Rightarrow> py \<Rightarrow> pv_field run"
where
  "build_union L A vs obj =
     (if obj = PNone then Ok (FUnion (- 1) [] FNull)
      else run_bind (of_res (union_choice L vs obj)) (\<lambda>(idx, name, d, payload).
        run_fmap (FUnion (of_nat idx) name) (build L A d payload)))"

definition build_variant :: "py_lib \<Rightarrow> assigner \<Rightarrow> py \<Rightarrow> (field_desc option \<times> pv_field) run" where
  "build_variant L A obj =
     run_bind (of_res (infer_desc L obj)) (\<lambda>od.
       case od of
         None \<Rightarrow> Ok (None, FNull)
       | Some d \<Rightarrow> run_fmap (Pair (Some d)) (build L A d obj))"

text \<open>An \<open>unreachable!\<close> that is reached panics, which Python sees as an exception.\<close>

definition unreachable :: "string \<Rightarrow> pyexc" where
  "unreachable what = RuntimeError (Msg ''internal error: entered unreachable code: {}'' [AStr what])"

definition build_element ::
  "py_lib \<Rightarrow> assigner \<Rightarrow> field_desc \<Rightarrow> py \<Rightarrow> (string \<times> (string \<times> pv_field) list) option run"
where
  "build_element L A elem it =
     (if it = PNone then Ok None
      else run_bind (build L A elem it) (\<lambda>f.
        case f of
          FStructure i vs \<Rightarrow> Ok (Some (i, vs))
        | _ \<Rightarrow> Raise (unreachable ''a structure descriptor builds a structure'')))"

definition build_union_item ::
  "py_lib \<Rightarrow> assigner \<Rightarrow> (string \<times> field_desc) list \<Rightarrow> py \<Rightarrow> (i32 \<times> string \<times> pv_field) option run"
where
  "build_union_item L A vs it =
     run_bind (build_union L A vs it) (\<lambda>f.
       case f of
         FUnion sel name v \<Rightarrow> Ok (if sel = - 1 then None else Some (sel, name, v))
       | _ \<Rightarrow> Raise (unreachable ''build_union builds a union''))"

definition build_variant_item :: "py_lib \<Rightarrow> assigner \<Rightarrow> py \<Rightarrow> (field_desc option \<times> pv_field) option run" where
  "build_variant_item L A it =
     (if it = PNone then Ok None else run_fmap Some (build_variant L A it))"

text \<open>The loops over an iterable: \<open>for it in obj.try_iter()? { let it = it?; .. items.push(..) }\<close>.\<close>

definition build_items :: "py_lib \<Rightarrow> (py \<Rightarrow> 'a run) \<Rightarrow> py \<Rightarrow> 'a list run" where
  "build_items L mk obj =
     run_bind (of_res (py_iter L obj)) (run_map (\<lambda>it. run_bind (of_res it) mk))"

text \<open>\<open>*target = ..; marks.set(bit)\<close>, both only when the new field is made.\<close>

definition store ::
  "('a \<Rightarrow> pv_field) \<Rightarrow> 'a run \<Rightarrow> pv_field \<Rightarrow> nat set \<Rightarrow> nat \<Rightarrow> (pv_field \<times> nat set) \<times> unit run"
where
  "store g r target marks ix =
     (case r of
        Ok x \<Rightarrow> ((g x, insert ix marks), Ok ())
      | Raise e \<Rightarrow> ((target, marks), Raise e)
      | Overflow \<Rightarrow> ((target, marks), Overflow))"

text \<open>The loop over a dict; it stops at the first member that fails.\<close>

fun assign_loop :: "(py \<Rightarrow> py \<Rightarrow> 's \<Rightarrow> 's \<times> unit run) \<Rightarrow> (py \<times> py) list \<Rightarrow> 's \<Rightarrow> 's \<times> unit run" where
  "assign_loop f [] s = (s, Ok ())"
| "assign_loop f ((k, v) # kvs) s =
     (case f k v s of
        (s', Ok _) \<Rightarrow> assign_loop f kvs s'
      | (s', Raise e) \<Rightarrow> (s', Raise e)
      | (s', Overflow) \<Rightarrow> (s', Overflow))"

definition assign_member ::
  "py_lib \<Rightarrow> assigner \<Rightarrow> (string \<times> field_desc) list \<Rightarrow> nat list \<Rightarrow> py \<Rightarrow> py \<Rightarrow>
     (string \<times> pv_field) list \<times> nat set \<Rightarrow> ((string \<times> pv_field) list \<times> nat set) \<times> unit run"
where
  "assign_member L A fs offsets k v s =
     (case extract_str L k of
        Inl e \<Rightarrow> (s, Raise e)
      | Inr key \<Rightarrow>
          (case find_idx (\<lambda>m. fst m = key) fs of
             None \<Rightarrow> (s, Raise (no_such_member key))
           | Some (idx, (_, cdesc)) \<Rightarrow>
               (case map_of (fst s) key of
                  None \<Rightarrow> (s, Raise (no_such_member key))
                | Some ctarget \<Rightarrow>
                    (case A cdesc ctarget v (snd s) (offsets ! idx) of
                       ((c, marks), r) \<Rightarrow> ((update_first key c (fst s), marks), r)))))"

definition assign_structure ::
  "py_lib \<Rightarrow> (field_desc \<Rightarrow> nat) \<Rightarrow> assigner \<Rightarrow> field_desc \<Rightarrow> (string \<times> field_desc) list \<Rightarrow>
     pv_field \<Rightarrow> py \<Rightarrow> nat set \<Rightarrow> nat \<Rightarrow> (pv_field \<times> nat set) \<times> unit run"
where
  "assign_structure L tb A desc fs target obj marks ix =
     (case (case obj of PValue pre r \<Rightarrow> todict L pre r None | _ \<Rightarrow> Inr obj) of
        Inl e \<Rightarrow> ((target, marks), Raise e)
      | Inr (PDict kvs) \<Rightarrow>
          (case target of
             FStructure i vs \<Rightarrow>
               (case assign_loop (assign_member L A fs (map (snd \<circ> snd) (children tb desc ix))) kvs (vs, marks) of
                  ((vs', marks'), r) \<Rightarrow> ((FStructure i vs', marks'), r))
           | _ \<Rightarrow> ((target, marks), Raise (TypeError (Msg ''target is not a structure'' []))))
      | Inr other \<Rightarrow>
          ((target, marks), Raise (wrong_type L ''a structure takes a dict or Value, not {}'' other)))"

primrec assign :: "py_lib \<Rightarrow> (field_desc \<Rightarrow> nat) \<Rightarrow> nat \<Rightarrow> assigner" where
  "assign L tb 0 = (\<lambda>desc target obj marks ix. ((target, marks), Overflow))"
| "assign L tb (Suc n) = (\<lambda>desc target obj marks ix.
     case desc of
       DScalar st \<Rightarrow> store FScalar (of_res (py_to_scalar L obj st)) target marks ix
     | DScalarArray st \<Rightarrow> store FScalarArrayTyped (of_res (py_to_array L obj st)) target marks ix
     | DStructure _ fs \<Rightarrow> assign_structure L tb (assign L tb n) desc fs target obj marks ix
     | DStructureArray sid fs \<Rightarrow>
         store FStructureArray
           (build_items L (build_element L (assign L tb n) (DStructure sid fs)) obj) target marks ix
     | DUnion _ vs \<Rightarrow> store (\<lambda>u. u) (build_union L (assign L tb n) vs obj) target marks ix
     | DUnionArray _ vs \<Rightarrow>
         store FUnionArray (build_items L (build_union_item L (assign L tb n) vs) obj) target marks ix
     | DVariant \<Rightarrow>
         store (\<lambda>(od, v). FVariant od v) (build_variant L (assign L tb n) obj) target marks ix
     | DVariantArray \<Rightarrow>
         store FVariantArray (build_items L (build_variant_item L (assign L tb n)) obj) target marks ix)"

section \<open>Operations of a value\<close>

definition assign_at ::
  "py_lib \<Rightarrow> (field_desc \<Rightarrow> nat) \<Rightarrow> (field_desc \<Rightarrow> string \<Rightarrow> nat option) \<Rightarrow> nat \<Rightarrow> root \<Rightarrow> string \<Rightarrow>
     pyexc \<Rightarrow> py \<Rightarrow> root \<times> unit run"
where
  "assign_at L tb bp n r path missing obj =
     (case desc_at (r_desc r) path of
        None \<Rightarrow> (r, Raise missing)
      | Some sub \<Rightarrow>
          (case field_at (r_field r) path of
             None \<Rightarrow> (r, Raise missing)
           | Some target \<Rightarrow>
               let ix = (case bp (r_desc r) path of None \<Rightarrow> 0 | Some b \<Rightarrow> b) in
               (case assign L tb n sub target obj (r_marks r) ix of
                  ((f, marks), out) \<Rightarrow>
                    (r\<lparr>r_field := (case field_at_mut (r_field r) path (\<lambda>_. f) of None \<Rightarrow> r_field r | Some g \<Rightarrow> g),
                       r_marks := marks\<rparr>, out))))"

definition assign_root ::
  "py_lib \<Rightarrow> (field_desc \<Rightarrow> nat) \<Rightarrow> (field_desc \<Rightarrow> string \<Rightarrow> nat option) \<Rightarrow> nat \<Rightarrow> string \<Rightarrow> root \<Rightarrow> py \<Rightarrow>
     root \<times> unit run"
where
  "assign_root L tb bp n pre r obj = assign_at L tb bp n r pre path_vanished obj"

definition setitem ::
  "py_lib \<Rightarrow> (field_desc \<Rightarrow> nat) \<Rightarrow> (field_desc \<Rightarrow> string \<Rightarrow> nat option) \<Rightarrow> nat \<Rightarrow> string \<Rightarrow> root \<Rightarrow> string \<Rightarrow> py \<Rightarrow>
     root \<times> unit run"
where
  "setitem L tb bp n pre r key val = assign_at L tb bp n r (join pre key) (no_such_member key) val"

definition value_setattr ::
  "py_lib \<Rightarrow> (field_desc \<Rightarrow> nat) \<Rightarrow> (field_desc \<Rightarrow> string \<Rightarrow> nat option) \<Rightarrow> nat \<Rightarrow> string \<Rightarrow> root \<Rightarrow> string \<Rightarrow> py \<Rightarrow>
     root \<times> unit run"
where
  "value_setattr L tb bp n pre r name val =
     (if take 1 name = ''_'' then (r, Raise (AttributeError (Msg ''{name}'' [AStr name])))
      else setitem L tb bp n pre r name val)"

text \<open>\<open>Value::create\<close> and \<open>Value(type, initial)\<close>.\<close>

definition value_create ::
  "py_lib \<Rightarrow> (field_desc \<Rightarrow> nat) \<Rightarrow> (field_desc \<Rightarrow> string \<Rightarrow> nat option) \<Rightarrow> nat \<Rightarrow> field_desc \<Rightarrow> py option \<Rightarrow>
     root run"
where
  "value_create L tb bp n desc initial =
     (let v = \<lparr>r_desc = desc, r_field = default_for L desc, r_marks = {}\<rparr> in
      case initial of
        None \<Rightarrow> Ok v
      | Some init \<Rightarrow> (case assign_root L tb bp n [] v init of (v', r) \<Rightarrow> run_fmap (\<lambda>_. v') r))"

definition value_new ::
  "py_lib \<Rightarrow> (field_desc \<Rightarrow> nat) \<Rightarrow> (field_desc \<Rightarrow> string \<Rightarrow> nat option) \<Rightarrow> nat \<Rightarrow> py \<Rightarrow> py option \<Rightarrow> root run"
where
  "value_new L tb bp n spec initial =
     run_bind (case spec of PType d \<Rightarrow> Ok d | _ \<Rightarrow> desc_from_py L n spec) (\<lambda>desc.
       value_create L tb bp n desc initial)"

section \<open>What an assignment keeps\<close>

definition kept :: "(field_desc \<Rightarrow> nat) \<Rightarrow> field_desc \<Rightarrow> nat set \<Rightarrow> nat \<Rightarrow> pv_field \<times> nat set \<Rightarrow> bool" where
  "kept tb desc marks ix s \<longleftrightarrow>
     conforms desc (fst s) \<and> marks \<subseteq> snd s \<and> snd s \<subseteq> marks \<union> {ix..<ix + tb desc}"

definition keeps :: "(field_desc \<Rightarrow> nat) \<Rightarrow> assigner \<Rightarrow> bool" where
  "keeps tb A \<longleftrightarrow>
     (\<forall>desc target obj marks ix. conforms desc target \<longrightarrow> kept tb desc marks ix (fst (A desc target obj marks ix)))"

lemma kept_refl: "conforms desc target \<Longrightarrow> kept tb desc marks ix (target, marks)"
  by (auto simp: kept_def)

lemma build_conforms:
  assumes "keeps tb A" "lib_types_ok L" "build L A d obj = Ok f"
  shows "conforms d f"
proof -
  obtain g m r where out: "A d (default_for L d) obj {} 0 = ((g, m), r)" by (metis surj_pair)
  have "conforms d (default_for L d)" using assms(2) by (simp add: lib_types_ok_def)
  with assms(1) have "kept tb d {} 0 (g, m)" unfolding keeps_def by (metis fst_conv out)
  with assms(3) out show ?thesis by (auto simp: build_def kept_def)
qed

lemma pick_found:
  assumes "pick_union_variant L vs obj = Inr (idx, name, d)"
  shows "idx < length vs \<and> vs ! idx = (name, d)"
proof -
  from assms have "\<exists>P. find_idx P vs = Some (idx, name, d)"
    by (fastforce simp: pick_union_variant_def split: option.splits if_splits)
  then show ?thesis by (auto dest: find_idx_Some)
qed

lemma union_choice_found:
  assumes "union_choice L vs obj = Inr (idx, name, d, payload)"
  shows "idx < length vs \<and> vs ! idx = (name, d)"
proof (cases "\<exists>m p. obj = PTuple [m, p]")
  case True
  with assms have "\<exists>P. find_idx P vs = Some (idx, name, d)"
    by (fastforce simp: union_choice_def ok_or_def split: option.splits)
  then show ?thesis by (auto dest: find_idx_Some)
next
  case False
  with assms have "pick_union_variant L vs obj = Inr (idx, name, d)"
    by (auto simp: union_choice_def split: py.splits list.splits)
  then show ?thesis by (rule pick_found)
qed

lemma build_union_conforms:
  assumes "keeps tb A" "lib_types_ok L" "build_union L A vs obj = Ok f"
  shows "\<exists>sel n v. f = FUnion sel n v \<and>
    ((sel = - 1 \<and> v = FNull) \<or> (\<exists>i<length vs. sel = of_nat i \<and> n = fst (vs ! i) \<and> conforms (snd (vs ! i)) v))"
proof (cases "obj = PNone")
  case False
  with assms(3) obtain idx name d payload v where
    "union_choice L vs obj = Inr (idx, name, d, payload)" "build L A d payload = Ok v"
    "f = FUnion (of_nat idx) name v"
    by (auto simp: build_union_def)
  with union_choice_found [OF this(1)] build_conforms [OF assms(1,2) this(2)] show ?thesis by force
qed (use assms(3) in \<open>auto simp: build_union_def\<close>)

lemma build_variant_conforms:
  assumes "keeps tb A" "lib_types_ok L" "build_variant L A obj = Ok (od, v)"
  shows "case od of None \<Rightarrow> v = FNull | Some d \<Rightarrow> conforms d v"
  using assms(3) by (auto simp: build_variant_def split: option.splits dest!: build_conforms [OF assms(1,2)])

lemma build_items_Ok:
  "build_items L mk obj = Ok xs \<Longrightarrow> \<forall>x \<in> set xs. \<exists>it. mk it = Ok x"
  by (fastforce simp: build_items_def run_map_Ok list_all2_conv_all_nth in_set_conv_nth)

lemma store_kept:
  assumes "0 < tb d" "conforms d target" "\<And>x. r = Ok x \<Longrightarrow> conforms d (g x)"
  shows "kept tb d marks ix (fst (store g r target marks ix))"
  using assms by (cases r) (auto simp: store_def kept_def)

lemma assign_loop_invariant:
  "(\<And>k v s. I s \<Longrightarrow> I (fst (f k v s))) \<Longrightarrow> I s \<Longrightarrow> I (fst (assign_loop f kvs s))"
proof (induction f kvs s rule: assign_loop.induct)
  case (2 f k v kvs s)
  from "2.prems" have "I (fst (f k v s))" by blast
  with 2 show ?case by (cases "f k v s") (auto split: run.splits)
qed simp

lemma child_bits_nth:
  "idx < length fs \<Longrightarrow>
     snd (snd (child_bits tb b fs ! idx)) = b + sum_list (map (tb \<circ> snd) (take idx fs))"
  by (induction tb b fs arbitrary: idx rule: child_bits.induct) (auto simp: nth_Cons' take_Cons')

lemma child_bits_length [simp]: "length (child_bits tb b fs) = length fs"
  by (induction tb b fs rule: child_bits.induct) auto

lemma sum_list_take: "idx < length fs \<Longrightarrow> sum_list (map g (take idx fs)) + g (fs ! idx) \<le> sum_list (map g fs)"
  for g :: "'a \<Rightarrow> nat"
proof (induction fs arbitrary: idx)
  case (Cons x xs)
  then show ?case by (cases idx) auto
qed simp

lemma assign_member_kept:
  assumes A: "keeps tb A" and tb: "total_bits_ok tb"
    and s: "members_ok conforms fs (fst s)" "marks \<subseteq> snd s"
      "snd s \<subseteq> marks \<union> {ix..<ix + tb (DStructure sid fs)}"
  shows "let s' = fst (assign_member L A fs (map (snd \<circ> snd) (children tb (DStructure sid fs) ix)) k v s) in
    members_ok conforms fs (fst s') \<and> marks \<subseteq> snd s' \<and> snd s' \<subseteq> marks \<union> {ix..<ix + tb (DStructure sid fs)}"
proof (cases "extract_str L k")
  case (Inl e)
  with s show ?thesis by (simp add: assign_member_def)
next
  case (Inr key)
  show ?thesis
  proof (cases "find_idx (\<lambda>m. fst m = key) fs")
    case None
    with Inr s show ?thesis by (simp add: assign_member_def)
  next
    case (Some found)
    then obtain idx n d where found: "find_idx (\<lambda>m. fst m = key) fs = Some (idx, (n, d))" by (cases found) auto
    from found have fs: "idx < length fs" "fs ! idx = (key, d)" "n = key" by (auto dest: find_idx_Some)
    from found have m: "map_of fs key = Some d" by (simp add: map_of_find_idx)
    from members_ok_get [OF s(1) m] obtain ct where ct: "map_of (fst s) key = Some ct" "conforms d ct" by blast
    let ?off = "map (snd \<circ> snd) (children tb (DStructure sid fs) ix) ! idx"
    obtain c m' r where out: "A d ct v (snd s) ?off = ((c, m'), r)" by (metis surj_pair)
    have "kept tb d (snd s) ?off (c, m')" using A ct(2) out unfolding keeps_def by (metis fst_conv)
    moreover have "?off = Suc ix + sum_list (map (tb \<circ> snd) (take idx fs))"
      using fs(1) by (simp add: child_bits_nth)
    moreover have "sum_list (map (tb \<circ> snd) (take idx fs)) + tb d \<le> sum_list (map (tb \<circ> snd) fs)"
      using sum_list_take [OF fs(1), of "tb \<circ> snd"] fs(2) by simp
    ultimately have kept: "conforms d c" "snd s \<subseteq> m'" "m' \<subseteq> snd s \<union> {ix..<ix + tb (DStructure sid fs)}"
      using tb_structure [OF tb, of sid fs] by (fastforce simp: kept_def)+
    then show ?thesis
      using s Inr found ct(1) out members_ok_update [OF s(1) m kept(1)]
      by (auto simp: assign_member_def)
  qed
qed

lemma assign_structure_kept:
  assumes A: "keeps tb A" and tb: "total_bits_ok tb" and t: "conforms (DStructure sid fs) target"
  shows "kept tb (DStructure sid fs) marks ix
    (fst (assign_structure L tb A (DStructure sid fs) fs target obj marks ix))"
proof -
  from t obtain i vs where vs: "target = FStructure i vs" "members_ok conforms fs vs"
    by (auto simp: conforms_structure)
  define I where "I s \<longleftrightarrow> members_ok conforms fs (fst s) \<and> marks \<subseteq> snd s \<and>
    snd s \<subseteq> marks \<union> {ix..<ix + tb (DStructure sid fs)}" for s
  have "I (fst (assign_loop (assign_member L A fs (map (snd \<circ> snd) (children tb (DStructure sid fs) ix))) kvs (vs, marks)))"
    for kvs
  proof (rule assign_loop_invariant)
    fix k v s assume "I s"
    then show "I (fst (assign_member L A fs (map (snd \<circ> snd) (children tb (DStructure sid fs) ix)) k v s))"
      using assign_member_kept [OF A tb, of fs s marks ix sid L k v] by (simp add: I_def Let_def)
  qed (use vs in \<open>auto simp: I_def\<close>)
  note loop = this
  let ?obj = "case obj of PValue pre r \<Rightarrow> todict L pre r None | _ \<Rightarrow> Inr obj"
  show ?thesis
  proof (cases "\<exists>kvs. ?obj = Inr (PDict kvs)")
    case True
    then obtain kvs where kvs: "?obj = Inr (PDict kvs)" by blast
    obtain vs' m' r where out: "assign_loop (assign_member L A fs
        (map (snd \<circ> snd) (children tb (DStructure sid fs) ix))) kvs (vs, marks) = ((vs', m'), r)"
      by (metis surj_pair)
    with loop [of kvs] have "I (vs', m')" by simp
    with kvs out vs(1) show ?thesis
      by (simp add: assign_structure_def I_def kept_def conforms_structure)
  next
    case False
    then have "fst (assign_structure L tb A (DStructure sid fs) fs target obj marks ix) = (target, marks)"
      unfolding assign_structure_def by (cases ?obj) (auto split: py.split)
    with t show ?thesis by (simp add: kept_refl)
  qed
qed

lemma build_element_Some: "build_element L A elem it = Ok (Some (i, vs)) \<Longrightarrow> build L A elem it = Ok (FStructure i vs)"
  by (cases "build L A elem it") (auto simp: build_element_def split: if_splits pv_field.splits)

lemma build_union_item_Some:
  "build_union_item L A vs it = Ok (Some (sel, n, v)) \<Longrightarrow> build_union L A vs it = Ok (FUnion sel n v) \<and> sel \<noteq> - 1"
  by (cases "build_union L A vs it") (auto simp: build_union_item_def split: if_splits pv_field.splits)

lemma items_conform:
  assumes "keeps tb A" "lib_types_ok L"
  shows "build_items L (build_element L A (DStructure sid fs)) obj = Ok its \<Longrightarrow>
      conforms (DStructureArray sid fs) (FStructureArray its)"
    and "build_items L (build_union_item L A vs) obj = Ok us \<Longrightarrow> conforms (DUnionArray sid vs) (FUnionArray us)"
    and "build_items L (build_variant_item L A) obj = Ok ws \<Longrightarrow> conforms DVariantArray (FVariantArray ws)"
proof -
  assume its: "build_items L (build_element L A (DStructure sid fs)) obj = Ok its"
  have "members_ok conforms fs vs" if "Some (i, vs) \<in> set its" for i vs
    using build_items_Ok [OF its] that
    by (auto simp: conforms_structure dest!: bspec build_element_Some build_conforms [OF assms])
  then show "conforms (DStructureArray sid fs) (FStructureArray its)"
    by (subst conforms.simps) (auto simp: list_all_iff split: option.splits)
next
  assume us: "build_items L (build_union_item L A vs) obj = Ok us"
  have "\<exists>i<length vs. sel = of_nat i \<and> n = fst (vs ! i) \<and> conforms (snd (vs ! i)) v"
    if "Some (sel, n, v) \<in> set us" for sel n v
    using build_items_Ok [OF us] that
    by (fastforce dest!: bspec build_union_item_Some build_union_conforms [OF assms])
  then show "conforms (DUnionArray sid vs) (FUnionArray us)"
    by (subst conforms.simps) (auto simp: list_all_iff split: option.splits)
next
  assume ws: "build_items L (build_variant_item L A) obj = Ok ws"
  have "case od of None \<Rightarrow> v = FNull | Some d \<Rightarrow> conforms d v" if "Some (od, v) \<in> set ws" for od v
    using build_items_Ok [OF ws] that
    by (fastforce simp: build_variant_item_def split: if_splits dest!: build_variant_conforms [OF assms] bspec)
  then show "conforms DVariantArray (FVariantArray ws)"
    by (subst conforms.simps) (fastforce simp: list_all_iff split: option.splits)
qed

lemma assign_keeps:
  assumes L: "lib_types_ok L" and tb: "total_bits_ok tb"
  shows "keeps tb (assign L tb n)"
proof (induction n)
  case 0
  then show ?case by (simp add: keeps_def kept_refl)
next
  case (Suc n)
  have "kept tb desc marks ix (fst (assign L tb (Suc n) desc target obj marks ix))"
    if t: "conforms desc target" for desc target obj marks ix
  proof (cases desc)
    case (DStructure sid fs)
    with t assign_structure_kept [OF Suc tb] show ?thesis by simp
  next
    case (DScalar st)
    with t py_to_scalar_type [OF L] show ?thesis by (auto intro!: store_kept tb_pos [OF tb])
  next
    case (DScalarArray st)
    with t py_to_array_type [OF L] show ?thesis by (auto intro!: store_kept tb_pos [OF tb])
  next
    case DVariant
    with t show ?thesis
      by (auto intro!: store_kept tb_pos [OF tb] dest!: build_variant_conforms [OF Suc L])
  next
    case (DUnion sid vs)
    have "conforms desc f" if "build_union L (assign L tb n) vs obj = Ok f" for f
      using build_union_conforms [OF Suc L that] DUnion by (subst conforms.simps) auto
    with DUnion t show ?thesis by (auto intro!: store_kept tb_pos [OF tb])
  qed (use t items_conform [OF Suc L] in \<open>auto intro!: store_kept tb_pos [OF tb]\<close>)
  then show ?case by (simp add: keeps_def)
qed

lemma setitem_keeps:
  assumes L: "lib_types_ok L" and tb: "total_bits_ok tb" and bp: "bit_for_path_ok tb bp"
    and wf: "wf_desc (r_desc r)" and r: "conforms (r_desc r) (r_field r)"
    and clean: "clean_path pre" "clean_path key"
  shows "let r' = fst (setitem L tb bp n pre r key obj) in
    r_desc r' = r_desc r \<and> conforms (r_desc r') (r_field r') \<and> r_marks r \<subseteq> r_marks r' \<and>
    (\<forall>b \<in> r_marks r' - r_marks r.
      \<exists>q. clean_path q \<and> prefix (segments (join pre key)) (segments q) \<and> bp (r_desc r) q = Some b) \<and>
    (\<forall>q. \<not> related (join pre key) q \<longrightarrow> field_at (r_field r') q = field_at (r_field r) q)"
proof (cases "desc_at (r_desc r) (join pre key)")
  case None
  then show ?thesis using r by (simp add: setitem_def assign_at_def)
next
  case (Some sub)
  let ?p = "join pre key"
  have p: "clean_path ?p" using clean by (rule clean_path_join)
  from bp_defined [OF bp p Some] obtain ix where ix: "bp (r_desc r) ?p = Some ix" by blast
  from conforms_field_at [OF r Some] obtain target where target: "field_at (r_field r) ?p = Some target" "conforms sub target"
    by blast
  obtain f m out where out: "assign L tb n sub target obj (r_marks r) ix = ((f, m), out)" by (metis surj_pair)
  have kept: "kept tb sub (r_marks r) ix (f, m)"
    using assign_keeps [OF L tb, of n] target(2) out unfolding keeps_def by (metis fst_conv)
  from fld.put_total [OF target(1)] obtain g where g: "field_at_mut (r_field r) ?p (\<lambda>_. f) = Some g" by blast
  have "setitem L tb bp n pre r key obj = (r\<lparr>r_field := g, r_marks := m\<rparr>, out)"
    using Some target ix out g by (simp add: setitem_def assign_at_def)
  moreover have "conforms (r_desc r) g"
    by (rule conforms_field_at_mut [OF r Some g]) (use kept in \<open>simp add: kept_def\<close>)
  moreover have "field_at g q = field_at (r_field r) q" if "\<not> related ?p q" for q
    using fld.put_frame [OF g, of q] that by (auto simp: related_def)
  moreover have "\<exists>q. clean_path q \<and> prefix (segments ?p) (segments q) \<and> bp (r_desc r) q = Some b"
    if "b \<in> m" "b \<notin> r_marks r" for b
    using kept that span_paths [OF tb bp wf p Some ix, of b] by (fastforce simp: kept_def)
  ultimately show ?thesis using kept by (auto simp: kept_def)
qed

text \<open>
  C3. An assignment keeps a value well typed, however it ends: after \<open>v[key] = obj\<close>, whether it succeeds,
  raises halfway through a structure or runs out of stack, the type is the same, the field conforms to it, every
  mark that was set still is, the new marks are those of paths at or below the assigned one, and no field that
  is neither above nor below it has changed.
\<close>

theorem assign_keeps_type:
  assumes L: "lib_types_ok L" and tb: "total_bits_ok tb" and bp: "bit_for_path_ok tb bp"
    and wf: "wf_desc (r_desc r)" and r: "conforms (r_desc r) (r_field r)"
    and clean: "clean_path pre" "clean_path key"
  shows "let r' = fst (setitem L tb bp n pre r key obj) in
    r_desc r' = r_desc r \<and> conforms (r_desc r') (r_field r') \<and> r_marks r \<subseteq> r_marks r' \<and>
    (\<forall>b \<in> r_marks r' - r_marks r.
      \<exists>q. clean_path q \<and> prefix (segments (join pre key)) (segments q) \<and> bp (r_desc r) q = Some b) \<and>
    (\<forall>q. \<not> related (join pre key) q \<longrightarrow> field_at (r_field r') q = field_at (r_field r) q)"
  using assms by (rule setitem_keeps)

theorem assign_keeps_type_witness:
  "conforms (r_desc sample_root)
     (r_field (fst (setitem ref_lib ref_bits ref_bit_for_path 5 ''s'' sample_root ''x'' (PInt 3))))"
proof -
  have "clean_path ''s''" "clean_path ''x''" by (simp_all add: clean_path_plain)
  from assign_keeps_type [OF ref_lib_types ref_bits_ok ref_bit_for_path_ok sample_wf sample_conforms this,
      of 5 "PInt 3"]
  show ?thesis unfolding Let_def by metis
qed

section \<open>Depth\<close>

text \<open>The depth an assignment to a type needs when the object holds no \<open>Value\<close>.\<close>

fun assign_depth :: "field_desc \<Rightarrow> nat" where
  "assign_depth (DStructure _ fs) = Suc (Max (insert 0 ((\<lambda>(n, d). assign_depth d) ` set fs)))"
| "assign_depth (DStructureArray _ fs) = Suc (Suc (Max (insert 0 ((\<lambda>(n, d). assign_depth d) ` set fs))))"
| "assign_depth (DUnion _ vs) = Suc (Max (insert 0 ((\<lambda>(n, d). assign_depth d) ` set vs)))"
| "assign_depth (DUnionArray _ vs) = Suc (Max (insert 0 ((\<lambda>(n, d). assign_depth d) ` set vs)))"
| "assign_depth DVariant = 2"
| "assign_depth DVariantArray = 2"
| "assign_depth _ = 1"

lemma assign_depth_member:
  "Max (insert 0 ((\<lambda>(n, d). assign_depth d) ` set fs)) \<le> k \<Longrightarrow> (m, d) \<in> set fs \<Longrightarrow> assign_depth d \<le> k"
  by (auto simp: case_prod_beta)

fun value_free :: "py \<Rightarrow> bool" where
  "value_free (PList xs) = list_all value_free xs"
| "value_free (PTuple xs) = list_all value_free xs"
| "value_free (PDict kvs) = list_all (\<lambda>(k, v). value_free k \<and> value_free v) kvs"
| "value_free (PValue pre r) = False"
| "value_free _ = True"

text \<open>No iterator of the library's side hides a \<open>Value\<close>.\<close>

definition iterators_value_free :: "py_lib \<Rightarrow> bool" where
  "iterators_value_free L \<longleftrightarrow>
     (\<forall>i its x. other_iter L i = Inr its \<longrightarrow> Inr x \<in> set its \<longrightarrow> value_free x) \<and>
     (\<forall>a. list_all value_free (array_iter L a))"

lemma py_iter_value_free:
  "iterators_value_free L \<Longrightarrow> value_free obj \<Longrightarrow> py_iter L obj = Inr its \<Longrightarrow> Inr x \<in> set its \<Longrightarrow> value_free x"
  by (cases obj) (auto simp: py_iter_def list_all_iff iterators_value_free_def split: field_desc.splits, fastforce+)

lemma store_Overflow [simp]: "snd (store g r target marks ix) = Overflow \<longleftrightarrow> r = Overflow"
  by (cases r) (auto simp: store_def)

lemma run_fmap_Overflow [simp]: "run_fmap g r = Overflow \<longleftrightarrow> r = Overflow"
  by (cases r) auto

lemma build_Overflow: "build L A d obj = Overflow \<longleftrightarrow> snd (A d (default_for L d) obj {} 0) = Overflow"
  by (auto simp: build_def split: prod.splits)

lemma build_items_Overflow:
  assumes "iterators_value_free L" "value_free obj" "\<And>it. value_free it \<Longrightarrow> mk it \<noteq> Overflow"
  shows "build_items L mk obj \<noteq> Overflow"
proof (cases "py_iter L obj")
  case (Inr its)
  have "run_bind (of_res it) mk \<noteq> Overflow" if "it \<in> set its" for it
    using py_iter_value_free [OF assms(1,2) Inr] that assms(3) by (cases it) auto
  with Inr show ?thesis by (simp add: build_items_def run_map_not_Overflow)
qed (simp add: build_items_def)

lemma assign_loop_Overflow:
  "(\<And>k v s. (k, v) \<in> set kvs \<Longrightarrow> snd (f k v s) \<noteq> Overflow) \<Longrightarrow> snd (assign_loop f kvs s) \<noteq> Overflow"
proof (induction kvs arbitrary: s)
  case (Cons kv kvs)
  obtain k v where kv: "kv = (k, v)" by (cases kv)
  obtain s' r where out: "f k v s = (s', r)" by (cases "f k v s")
  have "snd (f k v s) \<noteq> Overflow" by (rule Cons.prems) (simp add: kv)
  moreover have "snd (assign_loop f kvs s') \<noteq> Overflow"
    by (rule Cons.IH, rule Cons.prems) simp
  ultimately show ?case using out kv by (cases r) auto
qed simp

lemma infer_value_free:
  "value_free obj \<Longrightarrow> infer_desc L obj = Inr (Some d) \<Longrightarrow> \<exists>st. d = DScalar st \<or> d = DScalarArray st"
  by (auto simp: infer_desc_def Let_def split: py.splits option.splits if_splits)

lemma assign_leaf: "snd (assign L tb (Suc n) (DScalar st) target obj marks ix) \<noteq> Overflow"
  "snd (assign L tb (Suc n) (DScalarArray st) target obj marks ix) \<noteq> Overflow"
  by simp_all

lemma build_variant_deep_enough:
  assumes "value_free obj"
  shows "build_variant L (assign L tb (Suc n)) obj \<noteq> Overflow"
proof
  assume "build_variant L (assign L tb (Suc n)) obj = Overflow"
  then obtain d where "infer_desc L obj = Inr (Some d)" "build L (assign L tb (Suc n)) d obj = Overflow"
    by (auto simp: build_variant_def run_bind_Overflow split: option.splits)
  with infer_value_free [OF assms this(1)] assign_leaf show False
    by (auto simp: build_Overflow simp del: assign.simps)
qed

lemma union_choice_value_free:
  "union_choice L vs obj = Inr (idx, name, d, payload) \<Longrightarrow> value_free obj \<Longrightarrow> value_free payload"
  by (auto simp: union_choice_def split: py.splits list.splits)

lemma build_union_deep_enough:
  assumes "value_free obj"
    and "\<And>d payload. d \<in> snd ` set vs \<Longrightarrow> value_free payload \<Longrightarrow> build L A d payload \<noteq> Overflow"
  shows "build_union L A vs obj \<noteq> Overflow"
proof
  assume "build_union L A vs obj = Overflow"
  then obtain idx name d payload where
    "union_choice L vs obj = Inr (idx, name, d, payload)" "build L A d payload = Overflow"
    by (auto simp: build_union_def run_bind_Overflow split: if_splits)
  moreover from union_choice_found [OF this(1)] have "d \<in> snd ` set vs" by (force simp: in_set_conv_nth)
  ultimately show False using assms union_choice_value_free by blast
qed

lemma assign_structure_deep_enough:
  assumes "value_free obj" "\<And>d t v m i. d \<in> snd ` set fs \<Longrightarrow> value_free v \<Longrightarrow> snd (A d t v m i) \<noteq> Overflow"
  shows "snd (assign_structure L tb A desc fs target obj marks ix) \<noteq> Overflow"
proof -
  have member: "snd (assign_member L A fs offs k v s) \<noteq> Overflow" if "value_free v" for offs k v s
  proof (cases "extract_str L k")
    case (Inr key)
    show ?thesis
    proof (cases "find_idx (\<lambda>m. fst m = key) fs")
      case (Some found)
      then obtain idx n d where f: "found = (idx, (n, d))" by (cases found) auto
      with Some have "d \<in> snd ` set fs" by (force dest!: find_idx_Some simp: in_set_conv_nth)
      show ?thesis
      proof (cases "map_of (fst s) key")
        case (Some ct)
        have "snd (A d ct v (snd s) (offs ! idx)) \<noteq> Overflow"
          by (rule assms(2)) (use \<open>d \<in> snd ` set fs\<close> that in auto)
        with Some \<open>find_idx _ fs = _\<close> f Inr show ?thesis
          by (simp add: assign_member_def case_prod_beta)
      qed (use \<open>find_idx _ fs = _\<close> f Inr in \<open>simp add: assign_member_def\<close>)
    qed (simp add: assign_member_def Inr)
  qed (simp add: assign_member_def)
  show ?thesis
  proof (cases obj)
    case (PDict kvs)
    show ?thesis
    proof (cases target)
      case (FStructure i vs)
      let ?f = "assign_member L A fs (map (snd \<circ> snd) (children tb desc ix))"
      have "snd (assign_loop ?f kvs (vs, marks)) \<noteq> Overflow"
        by (rule assign_loop_Overflow, rule member) (use PDict assms(1) in \<open>auto simp: list_all_iff\<close>)
      with PDict FStructure show ?thesis
        by (cases "assign_loop ?f kvs (vs, marks)") (auto simp: assign_structure_def)
    qed (simp_all add: PDict assign_structure_def)
  qed (use assms(1) in \<open>auto simp: assign_structure_def\<close>)
qed

text \<open>
  C7. An assignment ends: when the object holds no \<open>Value\<close>, the recursion of \<open>assign\<close> and the builders goes no
  deeper than the type is, so it returns or raises.
\<close>

theorem assign_ends:
  assumes L: "iterators_value_free L" and obj: "value_free obj"
    and n: "assign_depth desc \<le> n"
  shows "snd (assign L tb n desc target obj marks ix) \<noteq> Overflow"
  using obj n
proof (induction n arbitrary: desc target obj marks ix)
  case 0
  then show ?case by (cases desc) simp_all
next
  case (Suc n)
  have below: "build L (assign L tb n) d v \<noteq> Overflow" if "assign_depth d \<le> n" "value_free v" for d v
    using Suc.IH that by (simp add: build_Overflow)
  have depth2: "\<exists>m. n = Suc m" if "2 \<le> Suc n" using that by (cases n) auto
  show ?case
  proof (cases desc)
    case (DStructure sid fs)
    with Suc.prems have "Max (insert 0 ((\<lambda>(n, d). assign_depth d) ` set fs)) \<le> n" by simp
    from assign_depth_member [OF this] Suc.IH
    have "snd (assign_structure L tb (assign L tb n) desc fs target obj marks ix) \<noteq> Overflow"
      by (intro assign_structure_deep_enough [OF Suc.prems(1)]) auto
    with DStructure show ?thesis by simp
  next
    case (DStructureArray sid fs)
    with Suc.prems have "assign_depth (DStructure sid fs) \<le> n" by simp
    then have "build_element L (assign L tb n) (DStructure sid fs) it \<noteq> Overflow" if "value_free it" for it
      using below that by (auto simp: build_element_def run_bind_Overflow split: pv_field.splits)
    from DStructureArray build_items_Overflow [OF L Suc.prems(1) this] show ?thesis by simp
  next
    case (DUnion sid vs)
    with Suc.prems have "Max (insert 0 ((\<lambda>(n, d). assign_depth d) ` set vs)) \<le> n" by simp
    from assign_depth_member [OF this] below have "build_union L (assign L tb n) vs obj \<noteq> Overflow"
      by (intro build_union_deep_enough [OF Suc.prems(1)]) auto
    with DUnion show ?thesis by simp
  next
    case (DUnionArray sid vs)
    with Suc.prems have "Max (insert 0 ((\<lambda>(n, d). assign_depth d) ` set vs)) \<le> n" by simp
    from assign_depth_member [OF this] below
    have "build_union L (assign L tb n) vs it \<noteq> Overflow" if "value_free it" for it
      by (intro build_union_deep_enough [OF that]) auto
    then have "build_union_item L (assign L tb n) vs it \<noteq> Overflow" if "value_free it" for it
      using that by (auto simp: build_union_item_def run_bind_Overflow split: pv_field.splits)
    from DUnionArray build_items_Overflow [OF L Suc.prems(1) this] show ?thesis by simp
  next
    case DVariant
    with Suc.prems depth2 obtain m where "n = Suc m" by auto
    with DVariant build_variant_deep_enough [OF Suc.prems(1), of L tb m] show ?thesis by simp
  next
    case DVariantArray
    with Suc.prems depth2 obtain m where "n = Suc m" by auto
    then have "build_variant_item L (assign L tb n) it \<noteq> Overflow" if "value_free it" for it
      using build_variant_deep_enough [OF that, of L tb m] by (simp add: build_variant_item_def)
    from DVariantArray build_items_Overflow [OF L Suc.prems(1) this] show ?thesis by simp
  qed simp_all
qed

lemma ref_lib_value_free: "iterators_value_free ref_lib"
  by (simp add: iterators_value_free_def ref_lib_def)

theorem assign_ends_witness:
  "snd (assign ref_lib ref_bits 4 sample_desc FNull (PDict [(PStr ''a'', PInt 1), (PStr ''s'', PDict [])]) {} 0) \<noteq> Overflow"
  using assign_ends [OF ref_lib_value_free, of "PDict [(PStr ''a'', PInt 1), (PStr ''s'', PDict [])]" sample_desc 4]
  by (simp add: sample_desc_def del: assign.simps)

end
