(* ===== verification/PvCopy.thy ===== *)
theory PvCopy
  imports PvAssign
begin

text \<open>
  What assigning a \<open>Value\<close> does to another value of its type, and where the conversions of
  \<open>src/src/pva/value.rs\<close> do not meet: the objects that \<open>assign\<close> refuses although reading makes them.
\<close>

section \<open>Copying\<close>

text \<open>The types whose plain form says everything: structures of scalars and scalar arrays.\<close>

fun copyable :: "field_desc \<Rightarrow> bool" where
  "copyable (DScalar st) = True"
| "copyable (DScalarArray st) = True"
| "copyable (DStructure sid fs) = (distinct (map fst fs) \<and> list_all (\<lambda>(n, d). copyable d) fs)"
| "copyable d = False"

text \<open>Fields Python represents exactly; an array is a typed one.\<close>

fun exact :: "py_lib \<Rightarrow> pv_field \<Rightarrow> bool" where
  "exact L (FScalar v) = faithful L v"
| "exact L (FScalarArrayTyped a) = (case a of TaString xs \<Rightarrow> list_all (text_ok L) xs | _ \<Rightarrow> True)"
| "exact L (FStructure i vs) = list_all (\<lambda>(n, v). exact L v) vs"
| "exact L f = False"

text \<open>\<open>numpy.asarray\<close> of an array that has the dtype is the array, and \<open>str\<close> of a string the string.\<close>

definition numpy_exact :: "py_lib \<Rightarrow> bool" where
  "numpy_exact L \<longleftrightarrow>
     (\<forall>a. array_type_of a \<noteq> StString \<longrightarrow> asarray L (PArray a) (numpy_dtype (array_type_of a)) = Inr a) \<and>
     (\<forall>s. str_of L (PStr s) = Inr s)"

lemma array_roundtrip:
  assumes "numpy_exact L" "exact L (FScalarArrayTyped a)"
  shows "py_to_array L (typed_array_to_py L a) (array_type_of a) = Inr a"
proof (cases "\<exists>xs. a = TaString xs")
  case True
  then obtain xs where xs: "a = TaString xs" by blast
  have "collect_res (map ((\<lambda>it. bind_res it (str_of L)) \<circ> (Inr \<circ> (\<lambda>s. PStr (lossy L s)))) xs) = Inr xs"
    using assms xs by (induction xs arbitrary: a) (auto simp: numpy_exact_def text_ok_def)
  with xs show ?thesis by (simp add: py_to_array_def typed_array_to_py_def py_iter_def o_assoc)
next
  case False
  then have "array_type_of a \<noteq> StString" "typed_array_to_py L a = PArray a"
    by (cases a; simp add: typed_array_to_py_def)+
  with assms(1) show ?thesis by (simp add: py_to_array_def numpy_exact_def)
qed

text \<open>Every path of the type that ends in a leaf leads to the same field.\<close>

definition same_leaves :: "field_desc \<Rightarrow> pv_field \<Rightarrow> pv_field \<Rightarrow> bool" where
  "same_leaves d f g \<longleftrightarrow>
     (\<forall>ss c. walk desc_child d ss = Some c \<and> \<not> is_structure c \<longrightarrow> walk field_child g ss = walk field_child f ss)"

lemma same_leaves_refl: "same_leaves d f f"
  by (simp add: same_leaves_def)

lemma same_leaves_structure:
  assumes "\<And>k c. map_of fs k = Some c \<Longrightarrow>
    \<exists>v w. map_of vs k = Some v \<and> map_of ws k = Some w \<and> same_leaves c v w"
  shows "same_leaves (DStructure sid fs) (FStructure i vs) (FStructure j ws)"
  unfolding same_leaves_def
proof (intro allI impI)
  fix ss c assume w: "walk desc_child (DStructure sid fs) ss = Some c \<and> \<not> is_structure c"
  then obtain s ss' e where ss: "ss = s # ss'" "map_of fs s = Some e" "walk desc_child e ss' = Some c"
    by (cases ss) (auto simp: desc_child_map_of simp del: desc_child.simps(1) split: option.splits)
  with assms [OF ss(2)] w
  show "walk field_child (FStructure j ws) ss = walk field_child (FStructure i vs) ss"
    by (auto simp: same_leaves_def)
qed

text \<open>One member of a structure after the other.\<close>

definition copies :: "py_lib \<Rightarrow> assigner \<Rightarrow> field_desc \<Rightarrow> pv_field \<Rightarrow> bool" where
  "copies L A d f \<longleftrightarrow>
     (\<exists>p. field_to_plain_py L d f = Inr p \<and>
       (\<forall>t m ix. conforms d t \<longrightarrow> (\<exists>t' m'. A d t p m ix = ((t', m'), Ok ()) \<and> same_leaves d f t')))"

lemma assign_loop_copies:
  assumes fs: "distinct (map fst fs)"
    and each: "\<forall>(k, c) \<in> set fs. \<exists>v. map_of vs k = Some v \<and> copies L A c v"
  shows "set gs \<subseteq> set fs \<Longrightarrow> distinct (map fst gs) \<Longrightarrow>
    \<exists>kvs. collect_res (plain_members L gs vs) = Inr kvs \<and>
      (\<forall>ts m. (\<forall>(k, c) \<in> set gs. \<exists>t. map_of ts k = Some t \<and> conforms c t) \<longrightarrow>
        (\<exists>ts' m'. assign_loop (assign_member L A fs offs) (map (\<lambda>(k, v). (PStr k, v)) kvs) (ts, m) = ((ts', m'), Ok ()) \<and>
          (\<forall>(k, c) \<in> set gs. \<exists>v w. map_of vs k = Some v \<and> map_of ts' k = Some w \<and> same_leaves c v w) \<and>
          (\<forall>k. k \<notin> fst ` set gs \<longrightarrow> map_of ts' k = map_of ts k)))"
proof (induction gs)
  case Nil
  then show ?case by (simp add: plain_members_def)
next
  case (Cons g gs)
  obtain k c where g: "g = (k, c)" by (cases g)
  with Cons.prems have kc: "(k, c) \<in> set fs" and k: "k \<notin> fst ` set gs" by auto
  from each kc have "\<exists>v. map_of vs k = Some v \<and> copies L A c v" by blast
  then obtain v p where v: "map_of vs k = Some v" "field_to_plain_py L c v = Inr p"
    and A: "\<And>t m ix. conforms c t \<Longrightarrow> \<exists>t' m'. A c t p m ix = ((t', m'), Ok ()) \<and> same_leaves c v t'"
    unfolding copies_def by blast
  from Cons obtain kvs where kvs: "collect_res (plain_members L gs vs) = Inr kvs"
    and loop: "\<And>ts m. \<forall>(k, c) \<in> set gs. \<exists>t. map_of ts k = Some t \<and> conforms c t \<Longrightarrow>
      \<exists>ts' m'. assign_loop (assign_member L A fs offs) (map (\<lambda>(k, v). (PStr k, v)) kvs) (ts, m) = ((ts', m'), Ok ()) \<and>
        (\<forall>(k, c) \<in> set gs. \<exists>v w. map_of vs k = Some v \<and> map_of ts' k = Some w \<and> same_leaves c v w) \<and>
        (\<forall>k. k \<notin> fst ` set gs \<longrightarrow> map_of ts' k = map_of ts k)"
    by auto
  have members: "plain_members L (g # gs) vs = Inr (k, p) # plain_members L gs vs"
    using v g by (simp add: plain_members_def)
  from kc fs have "map_of fs k = Some c" by simp
  then obtain idx where idx: "find_idx (\<lambda>m. fst m = k) fs = Some (idx, (k, c))"
    by (auto simp: map_of_find_idx) (metis (mono_tags) find_idx_Some fst_conv)
  have "\<exists>ts' m'. assign_loop (assign_member L A fs offs) (map (\<lambda>(k, v). (PStr k, v)) ((k, p) # kvs)) (ts, m) = ((ts', m'), Ok ()) \<and>
      (\<forall>(k, c) \<in> set (g # gs). \<exists>v w. map_of vs k = Some v \<and> map_of ts' k = Some w \<and> same_leaves c v w) \<and>
      (\<forall>k. k \<notin> fst ` set (g # gs) \<longrightarrow> map_of ts' k = map_of ts k)"
    if ts: "\<forall>(k, c) \<in> set (g # gs). \<exists>t. map_of ts k = Some t \<and> conforms c t" for ts m
  proof -
    from ts g obtain t where t: "map_of ts k = Some t" "conforms c t" by auto
    from A [OF t(2)] obtain t' m' where t': "A c t p m (offs ! idx) = ((t', m'), Ok ())" "same_leaves c v t'" by blast
    let ?ts = "update_first k t' ts"
    have step: "assign_member L A fs offs (PStr k) p (ts, m) = ((?ts, m'), Ok ())"
      using idx t(1) t'(1) by (simp add: assign_member_def extract_str_def)
    have at: "map_of ?ts k = Some t'" "\<And>j. j \<noteq> k \<Longrightarrow> map_of ?ts j = map_of ts j"
      using map_of_SomeD [OF t(1)] by (auto simp: map_of_update_first intro: rev_image_eqI)
    have "\<forall>(k, c) \<in> set gs. \<exists>t. map_of ?ts k = Some t \<and> conforms c t"
    proof clarify
      fix j e assume je: "(j, e) \<in> set gs"
      with k have "j \<noteq> k" by force
      with ts je at(2) show "\<exists>t. map_of ?ts j = Some t \<and> conforms e t" by auto
    qed
    from loop [OF this, of m'] obtain ts' m'' where out:
      "assign_loop (assign_member L A fs offs) (map (\<lambda>(k, v). (PStr k, v)) kvs) (?ts, m') = ((ts', m''), Ok ())"
      "\<forall>(k, c) \<in> set gs. \<exists>v w. map_of vs k = Some v \<and> map_of ts' k = Some w \<and> same_leaves c v w"
      "\<forall>k. k \<notin> fst ` set gs \<longrightarrow> map_of ts' k = map_of ?ts k" by blast
    with step at k v t'(2) g show ?thesis by auto
  qed
  with members kvs show ?case by simp
qed

lemma assign_copies:
  assumes L: "numpy_exact L"
  shows "copyable d \<Longrightarrow> conforms d f \<Longrightarrow> exact L f \<Longrightarrow> assign_depth d \<le> n \<Longrightarrow> copies L (assign L tb n) d f"
proof (induction d arbitrary: f n rule: copyable.induct)
  case (1 st)
  then obtain m where m: "n = Suc m" by (cases n) auto
  from "1.prems"(2) obtain v where v: "f = FScalar v" "scalar_type_of v = st"
    by (cases rule: conforms_cases) auto
  with "1.prems" have "py_to_scalar L (scalar_to_py L v) st = Inr v" by (auto simp: scalar_survives)
  with v m show ?case
    by (auto simp: copies_def plain_not_structured field_to_py.simps store_def same_leaves_def walk_leaf)
next
  case (2 st)
  then obtain m where m: "n = Suc m" by (cases n) auto
  from "2.prems"(2,3) obtain a where a: "f = FScalarArrayTyped a" "array_type_of a = st"
    by (cases rule: conforms_cases) auto
  with "2.prems" array_roundtrip [OF L] have "py_to_array L (typed_array_to_py L a) st = Inr a" by auto
  with a m show ?case
    by (auto simp: copies_def plain_not_structured field_to_py.simps store_def same_leaves_def walk_leaf)
next
  case (3 sid fs)
  from "3.prems"(4) obtain m where m: "n = Suc m" "Max (insert 0 ((\<lambda>(n, d). assign_depth d) ` set fs)) \<le> m"
    by (cases n) auto
  from "3.prems"(2) obtain i vs where vs: "f = FStructure i vs" "members_ok conforms fs vs"
    by (auto simp: conforms_structure)
  from "3.prems"(1) have fs: "distinct (map fst fs)" by simp
  have each: "\<forall>(k, c) \<in> set fs. \<exists>v. map_of vs k = Some v \<and> copies L (assign L tb m) c v"
  proof clarify
    fix k c assume kc: "(k, c) \<in> set fs"
    from members_ok_at [OF vs(2) fs kc] obtain v where v: "map_of vs k = Some v" "conforms c v" by blast
    moreover have "copyable c" using "3.prems"(1) kc by (auto simp: list_all_iff)
    moreover have "exact L v" using "3.prems"(3) vs(1) map_of_SomeD [OF v(1)] by (auto simp: list_all_iff)
    ultimately show "\<exists>v. map_of vs k = Some v \<and> copies L (assign L tb m) c v"
      using "3.IH" [OF kc refl] assign_depth_member [OF m(2) kc] by blast
  qed
  have "\<exists>t' m'. assign L tb n (DStructure sid fs) t (PDict (map (\<lambda>(k, v). (PStr k, v)) kvs)) marks ix = ((t', m'), Ok ()) \<and>
      same_leaves (DStructure sid fs) f t'"
    if kvs: "collect_res (plain_members L fs vs) = Inr kvs" and t: "conforms (DStructure sid fs) t" for kvs t marks ix
  proof -
    from t obtain j ts where ts: "t = FStructure j ts" "members_ok conforms fs ts" by (auto simp: conforms_structure)
    let ?loop = "assign_loop (assign_member L (assign L tb m) fs (map (snd \<circ> snd) (children tb (DStructure sid fs) ix)))
        (map (\<lambda>(k, v). (PStr k, v)) kvs) (ts, marks)"
    let ?done = "\<lambda>ts'. \<forall>(k, c) \<in> set fs. \<exists>v w. map_of vs k = Some v \<and> map_of ts' k = Some w \<and> same_leaves c v w"
    have ready: "\<forall>(k, c) \<in> set fs. \<exists>t. map_of ts k = Some t \<and> conforms c t"
      using members_ok_at [OF ts(2) fs] by blast
    have "\<exists>ts' m'. ?loop = ((ts', m'), Ok ()) \<and> ?done ts' \<and> (\<forall>k. k \<notin> fst ` set fs \<longrightarrow> map_of ts' k = map_of ts k)"
      using assign_loop_copies [OF fs each subset_refl fs, of "map (snd \<circ> snd) (children tb (DStructure sid fs) ix)"]
        kvs by (elim exE conjE) (drule spec [of _ ts], drule spec [of _ marks], drule mp [OF _ ready], simp)
    then obtain ts' m' where out: "?loop = ((ts', m'), Ok ())" "?done ts'" by blast
    have "same_leaves (DStructure sid fs) f (FStructure j ts')"
      unfolding vs(1) by (rule same_leaves_structure) (use out(2) in \<open>fastforce dest: map_of_SomeD\<close>)
    with out(1) m(1) ts(1) show ?thesis by (simp add: assign_structure_def)
  qed
  moreover obtain kvs where kvs: "collect_res (plain_members L fs vs) = Inr kvs"
    using assign_loop_copies [OF fs each subset_refl fs] by blast
  moreover have "distinct (map fst kvs)"
    using plain_members_names [OF _ kvs] each fs by fastforce
  ultimately show ?case
    unfolding copies_def vs(1) by (simp add: plain_structure dict_of_distinct)
qed simp_all

lemma todict_plain:
  "desc_at (r_desc r) pre = Some (DStructure sid fs) \<Longrightarrow> field_at (r_field r) pre = Some (FStructure i vs) \<Longrightarrow>
     todict L pre r None = field_to_plain_py L (DStructure sid fs) (FStructure i vs)"
  by (simp add: todict_def plain_structure plain_members_def)

lemma assign_from_value:
  assumes "desc_at (r_desc r) pre = Some (DStructure sid fs)" "field_at (r_field r) pre = Some (FStructure i vs)"
    and "field_to_plain_py L (DStructure sid fs) (FStructure i vs) = Inr p"
  shows "assign L tb (Suc n) (DStructure sid fs) t (PValue pre r) m ix = assign L tb (Suc n) (DStructure sid fs) t p m ix"
proof -
  from assms(3) obtain kvs where "p = PDict kvs" by (auto simp: plain_structure dict_of_def)
  with assms show ?thesis by (simp add: assign_structure_def todict_plain)
qed


text \<open>Two values of one type to try it on.\<close>

definition point_desc :: field_desc where
  "point_desc = DStructure [] [(''p'', DStructure [] [(''x'', DScalar StInt), (''y'', DScalar StBoolean)])]"

definition point :: "int \<Rightarrow> bool \<Rightarrow> root" where
  "point x y = \<lparr>r_desc = point_desc,
     r_field = FStructure [] [(''p'', FStructure [] [(''x'', FScalar (SvInt (of_int x))), (''y'', FScalar (SvBoolean y))])],
     r_marks = {}\<rparr>"

lemma ref_lib_numpy_exact: "numpy_exact ref_lib"
  by (auto simp: numpy_exact_def ref_lib_def numpy_type_dtype)

lemma point_conforms: "conforms (r_desc (point x y)) (r_field (point x y))"
  by (simp add: point_def point_desc_def conforms_structure members_ok_def)


section \<open>Objects reading makes and assigning refuses\<close>

text \<open>A dict has no inferred type, so a structure in a variant is read as a dict that no variant takes back.\<close>

lemma dict_has_no_type:
  assumes "index_of L (PDict kvs) = None" "float_of L (PDict kvs) = None"
  shows "infer_desc L (PDict kvs) = Inl (wrong_type L ''cannot infer a pvData type for {}'' (PDict kvs))"
  using assms by (simp add: infer_desc_def array_like_def)

lemma dict_not_for_a_variant:
  assumes "index_of L (PDict kvs) = None" "float_of L (PDict kvs) = None"
  shows "assign L tb (Suc n) DVariant target (PDict kvs) marks ix =
    ((target, marks), Raise (wrong_type L ''cannot infer a pvData type for {}'' (PDict kvs)))"
  using dict_has_no_type [OF assms] by (simp add: build_variant_def store_def)

text \<open>For the same reason the union branch for dicts is never reached.\<close>

lemma dict_picks_no_member:
  assumes "index_of L (PDict kvs) = None" "float_of L (PDict kvs) = None"
  shows "pick_union_variant L vs (PDict kvs) =
    Inl (wrong_type L ''cannot infer a pvData type for {}'' (PDict kvs))"
  using dict_has_no_type [OF assms] by (simp add: pick_union_variant_def)

text \<open>A \<open>Value\<close> whose root is a variant, assigned to a variant, has itself as its type: no depth is enough.\<close>

lemma variant_of_variant_overflows:
  assumes "r_desc r = DVariant"
  shows "snd (assign L tb n DVariant target (PValue [] r) marks ix) = Overflow"
  using assms
  by (induction n arbitrary: target marks ix)
    (simp_all add: build_variant_def infer_desc_def build_Overflow desc_at_def)

end
