(* ===== verification/Drain.thy ===== *)
theory Drain
  imports Prelude
begin

text \<open>
  \<open>Drain\<close> of \<open>src/src/ca.rs\<close>: the slot behind an async mutex from which Python pulls, and the
  cancellation token \<open>close\<close> sets before it takes the slot.

  The tasks that call \<open>pull\<close> and \<open>close\<close> interleave, so the whole is a step relation: one rule per
  point between two awaits. \<open>F h r h'\<close> says that the future handed to \<open>pull\<close> can complete on handle
  \<open>h\<close> with result \<open>r\<close>, leaving \<open>h'\<close>; a future that is dropped while parked leaves the handle alone,
  as the futures of this program do (they await first and change the handle afterwards without
  awaiting). A pull that is interrupted by its timeout is dropped, which releases the lock.
\<close>

section \<open>State and steps\<close>

datatype 'r pc =
    Idle
  | PullWaits           \<comment> \<open>in \<open>self.slot.lock().await\<close>\<close>
  | PullLocked          \<comment> \<open>at \<open>guard.as_mut()?\<close>\<close>
  | PullParked          \<comment> \<open>in the \<open>select!\<close>\<close>
  | PullReturned "'r option"
  | PullDropped
  | CloseWaits          \<comment> \<open>token cancelled, in \<open>self.slot.lock().await\<close>\<close>
  | CloseReturned

record ('h, 'r) drain =
  slot :: "'h option"
  lock :: "nat option"
  closed :: bool
  pcs :: "nat \<Rightarrow> 'r pc"

definition drain_new :: "'h \<Rightarrow> ('h, 'r) drain" where
  "drain_new h = \<lparr>slot = Some h, lock = None, closed = False, pcs = (\<lambda>_. Idle)\<rparr>"

definition goto :: "nat \<Rightarrow> 'r pc \<Rightarrow> ('h, 'r) drain \<Rightarrow> ('h, 'r) drain" where
  "goto i p s = s\<lparr>pcs := (pcs s)(i := p)\<rparr>"

inductive drain_step ::
  "('h \<Rightarrow> 'r option \<Rightarrow> 'h \<Rightarrow> bool) \<Rightarrow> ('h, 'r) drain \<Rightarrow> ('h, 'r) drain \<Rightarrow> bool"
  for F :: "'h \<Rightarrow> 'r option \<Rightarrow> 'h \<Rightarrow> bool"
where
  pull_refused: "pcs s i = Idle \<Longrightarrow> closed s \<Longrightarrow> drain_step F s (goto i (PullReturned None) s)"
| pull_begin: "pcs s i = Idle \<Longrightarrow> \<not> closed s \<Longrightarrow> drain_step F s (goto i PullWaits s)"
| pull_lock: "pcs s i = PullWaits \<Longrightarrow> lock s = None \<Longrightarrow>
    drain_step F s (goto i PullLocked (s\<lparr>lock := Some i\<rparr>))"
| pull_empty: "pcs s i = PullLocked \<Longrightarrow> slot s = None \<Longrightarrow>
    drain_step F s (goto i (PullReturned None) (s\<lparr>lock := None\<rparr>))"
| pull_park: "pcs s i = PullLocked \<Longrightarrow> slot s = Some h \<Longrightarrow> drain_step F s (goto i PullParked s)"
| pull_ready: "pcs s i = PullParked \<Longrightarrow> slot s = Some h \<Longrightarrow> F h r h' \<Longrightarrow>
    drain_step F s (goto i (PullReturned r) (s\<lparr>slot := Some h', lock := None\<rparr>))"
| pull_cancelled: "pcs s i = PullParked \<Longrightarrow> closed s \<Longrightarrow>
    drain_step F s (goto i (PullReturned None) (s\<lparr>lock := None\<rparr>))"
| pull_drop_waiting: "pcs s i = PullWaits \<Longrightarrow> drain_step F s (goto i PullDropped s)"
| pull_drop_parked: "pcs s i = PullParked \<Longrightarrow>
    drain_step F s (goto i PullDropped (s\<lparr>lock := None\<rparr>))"
| close_begin: "pcs s i = Idle \<Longrightarrow> drain_step F s (goto i CloseWaits (s\<lparr>closed := True\<rparr>))"
| close_take: "pcs s i = CloseWaits \<Longrightarrow> lock s = None \<Longrightarrow>
    drain_step F s (goto i CloseReturned (s\<lparr>slot := None\<rparr>))"

text \<open>\<open>with\<close>: the handle behind the lock, or the error \<open>closed\<close>; it parks nowhere while it reads.\<close>

definition drain_with :: "u32 \<Rightarrow> ('h \<Rightarrow> 'a) \<Rightarrow> ('h, 'r) drain \<Rightarrow> 'a res" where
  "drain_with eca_internal f s =
     (case slot s of
        Some h \<Rightarrow> Inr (f h)
      | None \<Rightarrow> Inl (CaError (Msg ''closed'' []) eca_internal))"

abbreviation drain_steps ::
  "('h \<Rightarrow> 'r option \<Rightarrow> 'h \<Rightarrow> bool) \<Rightarrow> ('h, 'r) drain \<Rightarrow> ('h, 'r) drain \<Rightarrow> bool"
where "drain_steps F \<equiv> (drain_step F)\<^sup>*\<^sup>*"

inductive_cases drain_stepE: "drain_step F s t"

lemma goto_simps [simp]:
  "pcs (goto i p s) j = (if j = i then p else pcs s j)"
  "slot (goto i p s) = slot s" "lock (goto i p s) = lock s" "closed (goto i p s) = closed s"
  by (simp_all add: goto_def)

section \<open>Invariant\<close>

definition holds_lock :: "'r pc \<Rightarrow> bool" where
  "holds_lock p \<longleftrightarrow> p = PullLocked \<or> p = PullParked"

lemma holds_lock_simps [simp]:
  "\<not> holds_lock Idle" "\<not> holds_lock PullWaits" "holds_lock PullLocked" "holds_lock PullParked"
  "\<not> holds_lock (PullReturned r)" "\<not> holds_lock PullDropped" "\<not> holds_lock CloseWaits"
  "\<not> holds_lock CloseReturned"
  by (simp_all add: holds_lock_def)

definition drain_inv :: "('h, 'r) drain \<Rightarrow> bool" where
  "drain_inv s \<longleftrightarrow>
     (\<forall>i. lock s = Some i \<longleftrightarrow> holds_lock (pcs s i)) \<and>
     (\<forall>i. pcs s i = PullParked \<longrightarrow> slot s \<noteq> None) \<and>
     (\<forall>i. pcs s i = CloseWaits \<or> pcs s i = CloseReturned \<longrightarrow> closed s) \<and>
     (\<forall>i. pcs s i = CloseReturned \<longrightarrow> slot s = None) \<and>
     (slot s = None \<longrightarrow> closed s)"

lemma drain_inv_new: "drain_inv (drain_new h)"
  by (simp add: drain_inv_def drain_new_def)

lemma drain_invI:
  assumes "\<And>i. lock s = Some i \<longleftrightarrow> holds_lock (pcs s i)"
    and "\<And>i. pcs s i = PullParked \<Longrightarrow> slot s \<noteq> None"
    and "\<And>i. pcs s i = CloseWaits \<or> pcs s i = CloseReturned \<Longrightarrow> closed s"
    and "\<And>i. pcs s i = CloseReturned \<Longrightarrow> slot s = None"
    and "slot s = None \<Longrightarrow> closed s"
  shows "drain_inv s"
  unfolding drain_inv_def using assms by blast

lemma drain_invD:
  assumes "drain_inv s"
  shows "lock s = Some i \<longleftrightarrow> holds_lock (pcs s i)"
    and "pcs s i = PullParked \<Longrightarrow> slot s \<noteq> None"
    and "pcs s i = CloseWaits \<or> pcs s i = CloseReturned \<Longrightarrow> closed s"
    and "pcs s i = CloseReturned \<Longrightarrow> slot s = None"
    and "slot s = None \<Longrightarrow> closed s"
  using assms unfolding drain_inv_def by blast+

text \<open>One task moves: what it must establish, and what it must leave for the others.\<close>

lemma drain_inv_move:
  assumes inv: "drain_inv s" and t: "\<And>j. pcs t j = (if j = i then p else pcs s j)"
    and own: "lock t = Some i \<longleftrightarrow> holds_lock p" "p = PullParked \<Longrightarrow> slot t \<noteq> None"
      "p = CloseWaits \<or> p = CloseReturned \<Longrightarrow> closed t" "p = CloseReturned \<Longrightarrow> slot t = None"
    and others: "\<And>j. j \<noteq> i \<Longrightarrow> lock t = Some j \<longleftrightarrow> lock s = Some j"
      "\<And>j. j \<noteq> i \<Longrightarrow> pcs s j = PullParked \<Longrightarrow> slot t \<noteq> None"
      "\<And>j. j \<noteq> i \<Longrightarrow> pcs s j = CloseReturned \<Longrightarrow> slot t = None"
    and flag: "closed s \<Longrightarrow> closed t" "slot t = None \<Longrightarrow> closed t"
  shows "drain_inv t"
proof (rule drain_invI)
  fix j
  show "lock t = Some j \<longleftrightarrow> holds_lock (pcs t j)"
    using own(1) others(1) [of j] drain_invD(1) [OF inv, of j] by (cases "j = i") (simp_all add: t)
  show "slot t \<noteq> None" if "pcs t j = PullParked"
    using that own(2) others(2) [of j] by (cases "j = i") (simp_all add: t)
  show "closed t" if "pcs t j = CloseWaits \<or> pcs t j = CloseReturned"
    using that own(3) flag(1) drain_invD(3) [OF inv, of j] by (cases "j = i") (auto simp: t)
  show "slot t = None" if "pcs t j = CloseReturned"
    using that own(4) others(3) [of j] by (cases "j = i") (simp_all add: t)
qed (fact flag(2))

lemma inv_holder:
  "drain_inv s \<Longrightarrow> holds_lock (pcs s i) \<Longrightarrow> lock s = Some i"
  by (simp add: drain_invD(1))

lemma inv_returned:
  "drain_inv s \<Longrightarrow> slot s = Some h \<Longrightarrow> pcs s j \<noteq> CloseReturned"
  using drain_invD(4) [of s j] by auto

lemma drain_step_inv: "drain_step F s t \<Longrightarrow> drain_inv s \<Longrightarrow> drain_inv t"
proof (induction rule: drain_step.induct)
  case (pull_refused s i)
  then show ?case
    using drain_invD(5) [OF pull_refused(3)] drain_invD(2,4) [OF pull_refused(3)] drain_invD(1) [OF pull_refused(3), of i]
    by (intro drain_inv_move [OF pull_refused(3), where i = i and p = "PullReturned None"]) auto
next
  case (pull_begin s i)
  then show ?case
    using drain_invD(5) [OF pull_begin(3)] drain_invD(2,4) [OF pull_begin(3)] drain_invD(1) [OF pull_begin(3), of i]
    by (intro drain_inv_move [OF pull_begin(3), where i = i and p = PullWaits]) auto
next
  case (pull_lock s i)
  then show ?case
    using drain_invD(5) [OF pull_lock(3)] drain_invD(2,4) [OF pull_lock(3)] drain_invD(1) [OF pull_lock(3), of i]
    by (intro drain_inv_move [OF pull_lock(3), where i = i and p = PullLocked]) auto
next
  case (pull_empty s i)
  then show ?case
    using drain_invD(5) [OF pull_empty(3)] drain_invD(2,4) [OF pull_empty(3)] drain_invD(1) [OF pull_empty(3), of i] inv_holder [OF pull_empty(3), of i]
    by (intro drain_inv_move [OF pull_empty(3), where i = i and p = "PullReturned None"]) auto
next
  case (pull_park s i h)
  then show ?case
    using drain_invD(5) [OF pull_park(3)] drain_invD(2,4) [OF pull_park(3)] drain_invD(1) [OF pull_park(3), of i] inv_holder [OF pull_park(3), of i]
    by (intro drain_inv_move [OF pull_park(3), where i = i and p = PullParked]) auto
next
  case (pull_ready s i h r h')
  then show ?case
    using inv_returned [OF pull_ready(4,2)] inv_holder [OF pull_ready(4), of i]
    by (intro drain_inv_move [OF pull_ready(4), where i = i and p = "PullReturned r"]) auto
next
  case (pull_cancelled s i)
  then show ?case
    using drain_invD(5) [OF pull_cancelled(3)] drain_invD(2,4) [OF pull_cancelled(3)] drain_invD(1) [OF pull_cancelled(3), of i] inv_holder [OF pull_cancelled(3), of i]
    by (intro drain_inv_move [OF pull_cancelled(3), where i = i and p = "PullReturned None"]) auto
next
  case (pull_drop_waiting s i)
  then show ?case
    using drain_invD(5) [OF pull_drop_waiting(2)] drain_invD(2,4) [OF pull_drop_waiting(2)] drain_invD(1) [OF pull_drop_waiting(2), of i]
    by (intro drain_inv_move [OF pull_drop_waiting(2), where i = i and p = PullDropped]) auto
next
  case (pull_drop_parked s i)
  then show ?case
    using drain_invD(5) [OF pull_drop_parked(2)] drain_invD(2,4) [OF pull_drop_parked(2)] drain_invD(1) [OF pull_drop_parked(2), of i] inv_holder [OF pull_drop_parked(2), of i]
    by (intro drain_inv_move [OF pull_drop_parked(2), where i = i and p = PullDropped]) auto
next
  case (close_begin s i)
  then show ?case
    using drain_invD(5) [OF close_begin(2)] drain_invD(2,4) [OF close_begin(2)] drain_invD(1) [OF close_begin(2), of i]
    by (intro drain_inv_move [OF close_begin(2), where i = i and p = CloseWaits]) auto
next
  case (close_take s i)
  have "pcs s j \<noteq> PullParked" for j
    using drain_invD(1) [OF close_take(3), of j] close_take(2) by auto
  then show ?case
    using drain_invD(3) [OF close_take(3), of i] close_take
    by (intro drain_inv_move [OF close_take(3), where i = i and p = CloseReturned]) auto
qed

lemma drain_steps_inv: "drain_steps F s t \<Longrightarrow> drain_inv s \<Longrightarrow> drain_inv t"
  by (induction rule: rtranclp_induct) (auto intro: drain_step_inv)

lemma reachable_inv: "drain_steps F (drain_new h) s \<Longrightarrow> drain_inv s"
  by (rule drain_steps_inv [OF _ drain_inv_new])

section \<open>The contract of a source that can be stopped\<close>

text \<open>
  What a caller of \<open>pull\<close> or of a work queue's \<open>recv\<close> relies on: the stop is level-triggered. A
  call that has not begun when the stop is set is refused or stays unbegun, and a refusal is final.
\<close>

locale stoppable =
  fixes step :: "'s \<Rightarrow> 's \<Rightarrow> bool"
    and stopped :: "'s \<Rightarrow> bool"
    and idle :: "'s \<Rightarrow> nat \<Rightarrow> bool"
    and refused :: "'s \<Rightarrow> nat \<Rightarrow> bool"
    and answer :: "'s \<Rightarrow> nat \<Rightarrow> 'r option option"
  assumes stopped_stays: "step s t \<Longrightarrow> stopped s \<Longrightarrow> stopped t"
    and idle_next: "step s t \<Longrightarrow> stopped s \<Longrightarrow> idle s i \<Longrightarrow> idle t i \<or> refused t i"
    and refused_stays: "step s t \<Longrightarrow> refused s i \<Longrightarrow> refused t i"
    and idle_answer: "idle s i \<Longrightarrow> answer s i = None"
    and refused_answer: "refused s i \<Longrightarrow> answer s i \<noteq> Some (Some r)"
begin

lemma late_call:
  assumes "step\<^sup>*\<^sup>* s t" and "stopped s" and "idle s i"
  shows "stopped t \<and> (idle t i \<or> refused t i)"
  using assms by (induction rule: rtranclp_induct) (auto dest: stopped_stays idle_next refused_stays)

lemma late_call_gets_nothing:
  "step\<^sup>*\<^sup>* s t \<Longrightarrow> stopped s \<Longrightarrow> idle s i \<Longrightarrow> answer t i \<noteq> Some (Some r)"
  using late_call [of s t i] by (auto simp: idle_answer refused_answer)

end

definition pull_refusedp :: "('h, 'r) drain \<Rightarrow> nat \<Rightarrow> bool" where
  "pull_refusedp s i \<longleftrightarrow> pcs s i = PullReturned None \<or> pcs s i = CloseWaits \<or> pcs s i = CloseReturned"

definition pull_answer :: "('h, 'r) drain \<Rightarrow> nat \<Rightarrow> 'r option option" where
  "pull_answer s i = (case pcs s i of PullReturned r \<Rightarrow> Some r | _ \<Rightarrow> None)"

interpretation dr: stoppable "drain_step F" closed "\<lambda>s i. pcs s i = Idle" pull_refusedp pull_answer
  for F :: "'h \<Rightarrow> 'r option \<Rightarrow> 'h \<Rightarrow> bool"
  by unfold_locales
    (auto elim!: drain_stepE simp: pull_refusedp_def pull_answer_def split: if_splits pc.splits)

section \<open>Properties\<close>

lemma close_returned_step:
  assumes "drain_step F s t" and "drain_inv s" and "pcs s c = CloseReturned"
  shows "pcs t c = CloseReturned \<and> (pcs t i = PullReturned (Some r) \<longrightarrow> pcs s i = PullReturned (Some r))"
  using assms by (induction rule: drain_step.induct) (auto simp: drain_inv_def split: if_splits)

lemma close_returned_steps:
  "drain_steps F s t \<Longrightarrow> drain_inv s \<Longrightarrow> pcs s c = CloseReturned \<Longrightarrow>
     pcs t c = CloseReturned \<and> (pcs t i = PullReturned (Some r) \<longrightarrow> pcs s i = PullReturned (Some r))"
proof (induction rule: rtranclp_induct)
  case (step t u)
  with drain_steps_inv [OF step(1)] close_returned_step [OF step(2), of c i r] show ?case by blast
qed simp


text \<open>A run that parks a pull, closes the drain under it and starts another pull.\<close>

definition take_one :: "nat list \<Rightarrow> nat option \<Rightarrow> nat list \<Rightarrow> bool" where
  "take_one h r h' \<longleftrightarrow> (\<exists>x. h = x # h' \<and> r = Some x)"

definition parked_run :: "(nat list, nat) drain" where
  "parked_run = goto 1 CloseWaits ((goto 0 PullParked (goto 0 PullLocked
     ((goto 0 PullWaits (drain_new []))\<lparr>lock := Some 0\<rparr>)))\<lparr>closed := True\<rparr>)"

lemma parked_run_reachable: "drain_steps take_one (drain_new []) parked_run"
proof -
  let ?a = "goto 0 PullWaits (drain_new []) :: (nat list, nat) drain"
  let ?b = "goto 0 PullLocked (?a\<lparr>lock := Some 0\<rparr>)"
  let ?c = "goto 0 PullParked ?b"
  have "drain_step take_one (drain_new []) ?a"
    by (rule drain_step.pull_begin) (simp_all add: drain_new_def)
  moreover have "drain_step take_one ?a ?b"
    by (rule drain_step.pull_lock) (simp_all add: drain_new_def)
  moreover have "drain_step take_one ?b ?c"
    by (rule drain_step.pull_park) (simp_all add: drain_new_def goto_def)
  moreover have "drain_step take_one ?c parked_run"
    unfolding parked_run_def by (rule drain_step.close_begin) (simp add: drain_new_def goto_def)
  ultimately show ?thesis by (meson converse_rtranclp_into_rtranclp rtranclp.rtrancl_refl)
qed




end
