(* ===== verification/WorkQueue.thy ===== *)
theory WorkQueue
  imports Drain
begin

text \<open>
  \<open>CaWorkQueue\<close> of \<open>src/src/ca_server.rs\<close> and \<open>PvaWorkQueue\<close> of \<open>src/src/pva/server.rs\<close>, which
  have the same code: an unbounded channel of events, its receiver behind an async mutex, and the
  token \<open>stop\<close> cancels. \<open>do_recv\<close> looks at the token before it queues for the receiver and, being
  \<open>biased\<close>, again before it takes an event.

  A run is labelled with what enters and leaves the channel. The channel delivers in the order of
  its sends; \<open>senders\<close> says whether a sender is left, \<open>receiver\<close> whether the receiver is.
\<close>

section \<open>State and steps\<close>

datatype 'e wpc =
    WIdle
  | WWaits              \<comment> \<open>in \<open>rx.lock().await\<close>\<close>
  | WParked             \<comment> \<open>in the biased \<open>select!\<close>\<close>
  | WReturned "'e option"
  | WDropped

record 'e workq =
  wq_items :: "'e list"
  wq_senders :: bool
  wq_receiver :: bool
  wq_lock :: "nat option"
  wq_stopped :: bool
  wq_pcs :: "nat \<Rightarrow> 'e wpc"

datatype 'e wlabel = Sent 'e | Delivered 'e | Tau

definition workq_new :: "'e workq" where
  "workq_new = \<lparr>wq_items = [], wq_senders = True, wq_receiver = True, wq_lock = None,
     wq_stopped = False, wq_pcs = (\<lambda>_. WIdle)\<rparr>"

definition wgoto :: "nat \<Rightarrow> 'e wpc \<Rightarrow> 'e workq \<Rightarrow> 'e workq" where
  "wgoto i p q = q\<lparr>wq_pcs := (wq_pcs q)(i := p)\<rparr>"

text \<open>\<open>UnboundedSender::send\<close>: refused only when the receiver is gone.\<close>

definition workq_send :: "'e \<Rightarrow> 'e workq \<Rightarrow> 'e workq \<times> bool" where
  "workq_send e q =
     (if wq_receiver q then (q\<lparr>wq_items := wq_items q @ [e]\<rparr>, True) else (q, False))"

definition workq_stop :: "'e workq \<Rightarrow> 'e workq" where
  "workq_stop q = q\<lparr>wq_stopped := True\<rparr>"

inductive work_step :: "'e workq \<Rightarrow> 'e wlabel \<Rightarrow> 'e workq \<Rightarrow> bool" where
  recv_refused: "wq_pcs q i = WIdle \<Longrightarrow> wq_stopped q \<Longrightarrow> work_step q Tau (wgoto i (WReturned None) q)"
| recv_begin: "wq_pcs q i = WIdle \<Longrightarrow> \<not> wq_stopped q \<Longrightarrow> work_step q Tau (wgoto i WWaits q)"
| recv_lock: "wq_pcs q i = WWaits \<Longrightarrow> wq_lock q = None \<Longrightarrow>
    work_step q Tau (wgoto i WParked (q\<lparr>wq_lock := Some i\<rparr>))"
| recv_stopped: "wq_pcs q i = WParked \<Longrightarrow> wq_stopped q \<Longrightarrow>
    work_step q Tau (wgoto i (WReturned None) (q\<lparr>wq_lock := None\<rparr>))"
| recv_event: "wq_pcs q i = WParked \<Longrightarrow> \<not> wq_stopped q \<Longrightarrow> wq_items q = e # es \<Longrightarrow>
    work_step q (Delivered e) (wgoto i (WReturned (Some e)) (q\<lparr>wq_items := es, wq_lock := None\<rparr>))"
| recv_disconnected: "wq_pcs q i = WParked \<Longrightarrow> \<not> wq_stopped q \<Longrightarrow> wq_items q = [] \<Longrightarrow>
    \<not> wq_senders q \<Longrightarrow> work_step q Tau (wgoto i (WReturned None) (q\<lparr>wq_lock := None\<rparr>))"
| recv_drop_waiting: "wq_pcs q i = WWaits \<Longrightarrow> work_step q Tau (wgoto i WDropped q)"
| recv_drop_parked: "wq_pcs q i = WParked \<Longrightarrow>
    work_step q Tau (wgoto i WDropped (q\<lparr>wq_lock := None\<rparr>))"
| send_event: "wq_senders q \<Longrightarrow> workq_send e q = (q', True) \<Longrightarrow> work_step q (Sent e) q'"
| senders_gone: "work_step q Tau (q\<lparr>wq_senders := False\<rparr>)"
| stop_set: "work_step q Tau (workq_stop q)"

inductive_cases work_stepE: "work_step q l q'"

inductive work_run :: "'e workq \<Rightarrow> 'e wlabel list \<Rightarrow> 'e workq \<Rightarrow> bool" where
  run_nil: "work_run q [] q"
| run_snoc: "work_run q ls q' \<Longrightarrow> work_step q' l q'' \<Longrightarrow> work_run q (ls @ [l]) q''"

definition sent :: "'e wlabel list \<Rightarrow> 'e list" where
  "sent ls = List.map_filter (\<lambda>l. case l of Sent e \<Rightarrow> Some e | _ \<Rightarrow> None) ls"

definition delivered :: "'e wlabel list \<Rightarrow> 'e list" where
  "delivered ls = List.map_filter (\<lambda>l. case l of Delivered e \<Rightarrow> Some e | _ \<Rightarrow> None) ls"

lemma label_simps [simp]:
  "sent [] = []" "delivered [] = []"
  "sent (ls @ ms) = sent ls @ sent ms" "delivered (ls @ ms) = delivered ls @ delivered ms"
  "sent [Sent e] = [e]" "sent [Delivered e] = []" "sent [Tau] = []"
  "delivered [Sent e] = []" "delivered [Delivered e] = [e]" "delivered [Tau] = []"
  by (simp_all add: sent_def delivered_def map_filter_def)

lemma wgoto_simps [simp]:
  "wq_pcs (wgoto i p q) j = (if j = i then p else wq_pcs q j)"
  "wq_items (wgoto i p q) = wq_items q" "wq_lock (wgoto i p q) = wq_lock q"
  "wq_stopped (wgoto i p q) = wq_stopped q" "wq_receiver (wgoto i p q) = wq_receiver q"
  by (simp_all add: wgoto_def)

section \<open>The stop contract\<close>

definition recv_refusedp :: "'e workq \<Rightarrow> nat \<Rightarrow> bool" where
  "recv_refusedp q i \<longleftrightarrow> wq_pcs q i = WReturned None"

definition recv_answer :: "'e workq \<Rightarrow> nat \<Rightarrow> 'e option option" where
  "recv_answer q i = (case wq_pcs q i of WReturned r \<Rightarrow> Some r | _ \<Rightarrow> None)"

definition work_move :: "'e workq \<Rightarrow> 'e workq \<Rightarrow> bool" where
  "work_move q q' \<longleftrightarrow> (\<exists>l. work_step q l q')"

interpretation wq: stoppable work_move wq_stopped "\<lambda>q i. wq_pcs q i = WIdle" recv_refusedp recv_answer
  by unfold_locales
    (auto simp: work_move_def recv_refusedp_def recv_answer_def workq_send_def workq_stop_def
      elim!: work_stepE split: if_splits wpc.splits)

section \<open>Properties\<close>

lemma work_step_items: "work_step q l q' \<Longrightarrow> wq_items q @ sent [l] = delivered [l] @ wq_items q'"
  by (induction rule: work_step.induct)
    (auto simp: workq_send_def workq_stop_def split: if_splits)

lemma work_run_items: "work_run q ls q' \<Longrightarrow> wq_items q @ sent ls = delivered ls @ wq_items q'"
proof (induction rule: work_run.induct)
  case (run_snoc q ls q' l q'')
  with work_step_items [OF run_snoc(2)] show ?case by (metis append_assoc label_simps(3,4))
qed simp


definition one_event_run :: "nat workq" where
  "one_event_run = workq_new\<lparr>wq_items := [4]\<rparr>"

lemma one_event_run_reachable: "work_run workq_new [Sent 4] one_event_run"
  using work_run.run_snoc [OF work_run.run_nil work_step.send_event, of workq_new 4 one_event_run]
  by (simp add: workq_send_def workq_new_def one_event_run_def)


lemma stopped_step: "work_step q l q' \<Longrightarrow> wq_stopped q \<Longrightarrow> wq_stopped q' \<and> delivered [l] = []"
  by (induction rule: work_step.induct) (auto simp: workq_send_def workq_stop_def split: if_splits)

lemma stopped_run: "work_run q ls q' \<Longrightarrow> wq_stopped q \<Longrightarrow> wq_stopped q' \<and> delivered ls = []"
  by (induction rule: work_run.induct) (auto dest: stopped_step)

lemma receiver_step: "work_step q l q' \<Longrightarrow> wq_receiver q' = wq_receiver q"
  by (induction rule: work_step.induct)
    (auto simp: workq_send_def workq_stop_def wgoto_def split: if_splits)

lemma receiver_run: "work_run q ls q' \<Longrightarrow> wq_receiver q' = wq_receiver q"
  by (induction rule: work_run.induct) (auto dest: receiver_step)

lemma run_moves: "work_run q ls q' \<Longrightarrow> work_move\<^sup>*\<^sup>* q q'"
  by (induction rule: work_run.induct) (auto simp: work_move_def intro: rtranclp.rtrancl_into_rtrancl)

text \<open>
  After \<open>stop\<close> no event is delivered any more, neither to a parked receiver nor to one that
  calls later, which gets no event; but the queue does not refuse events either. A later send still succeeds and the event stays queued, unanswered,
  as long as the receiver lives.
\<close>

theorem stopped_queue_keeps_accepting:
  assumes "work_run (workq_stop q) ls q'" and "wq_receiver q"
  shows "delivered ls = [] \<and> wq_items q' = wq_items q @ sent ls \<and>
    (wq_pcs q i = WIdle \<longrightarrow> wq_pcs q' i \<noteq> WReturned (Some d)) \<and>
    (\<exists>q''. workq_send e q' = (q'', True) \<and> wq_items q'' = wq_items q @ sent ls @ [e])"
proof -
  have "wq_stopped (workq_stop q)" "wq_items (workq_stop q) = wq_items q"
    by (simp_all add: workq_stop_def)
  with stopped_run [OF assms(1)] work_run_items [OF assms(1)]
  have "delivered ls = []" "wq_items q' = wq_items q @ sent ls" by auto
  moreover have "wq_receiver q'"
    using receiver_run [OF assms(1)] assms(2) by (simp add: workq_stop_def)
  moreover have "wq_pcs q' i \<noteq> WReturned (Some d)" if "wq_pcs q i = WIdle"
    using wq.late_call_gets_nothing [OF run_moves [OF assms(1)], of i d] that
    by (auto simp: workq_stop_def recv_answer_def)
  ultimately show ?thesis by (simp add: workq_send_def)
qed

theorem stopped_queue_keeps_accepting_witness:
  "wq_items (workq_stop one_event_run) = [4] \<and> wq_pcs (workq_stop one_event_run) 0 \<noteq> WReturned (Some 3) \<and>
    (\<exists>q''. workq_send 9 (workq_stop one_event_run) = (q'', True) \<and> wq_items q'' = [4, 9])"
  using stopped_queue_keeps_accepting [OF work_run.run_nil [of "workq_stop one_event_run"], of 0 3 9]
  by (simp add: one_event_run_def workq_new_def)

end
