(* ===== verification/CaHub.thy ===== *)
theory CaHub
  imports Errors "HOL-Library.Sublist"
begin

text \<open>
  The monitor hub of \<open>src/src/hub.rs\<close>: the task \<open>run_subscription\<close> of one subscription, the
  bounded queue all tasks feed, and the operations of \<open>MonitorHub\<close>.

  Between two awaits a task reacts to one input: the first probe of the channel, the end of
  \<open>wait_connected\<close>, the connect deadline, a connection event, a control message, the outcome of
  subscribing, or a monitor item. A reaction updates the task's variables and leaves the items it
  sends, in order, in \<open>sub_todo\<close>; \<open>send!\<close> puts the first of them into the queue once there is
  room, or ends the task when the hub is closed. No input is taken while something is left to
  send. What the channel of the client library answers (its field type, element count and
  subscription outcome) arrives with the input; a snapshot is a value of an arbitrary type.
\<close>

section \<open>Items, inputs and the task\<close>

datatype 'v item =
    ItemValue u32 string 'v
  | ItemError u32 rs_ca_error
  | ItemConnectTimeout u32
  | ItemConnected u32
  | ItemEnd u32
  | ItemDisconnected u32
  | ItemAccessRights u32 bool bool

fun item_id :: "'v item \<Rightarrow> u32" where
  "item_id (ItemValue i _ _) = i"
| "item_id (ItemError i _) = i"
| "item_id (ItemConnectTimeout i) = i"
| "item_id (ItemConnected i) = i"
| "item_id (ItemEnd i) = i"
| "item_id (ItemDisconnected i) = i"
| "item_id (ItemAccessRights i _ _) = i"

datatype ctrl = CtrlPause | CtrlResume | CtrlClose

text \<open>A connection event; one that lagged comes with the state of the channel at that moment.\<close>

datatype conn_event =
    EvConnected
  | EvNativeTypeChanged
  | EvDisconnected
  | EvAccessRightsChanged bool bool
  | EvLagged bool
  | EvClosed

record subscribe_args =
  arg_deadband :: f64
  arg_mask :: u16
  arg_enum_as_string :: bool
  arg_float_as_string :: bool
  arg_count :: i64
  arg_connect_timeout :: "f64 option"
  arg_values :: bool
  arg_values_max_count :: "u32 option"

text \<open>
  The argument of \<open>Forwarding\<close> is the \<open>handle\<close> of phase 3: \<open>Some p\<close> for a monitor that is paused iff \<open>p\<close>, \<open>None\<close>
  for a lifecycle-only subscription.
\<close>

datatype phase = Starting | Connecting | Subscribing | Forwarding "bool option" | Ended | TaskPanicked

text \<open>What a subscribe request of the client library is given.\<close>

datatype readback = ReadbackLabel | ReadbackNative

record subscribe_request =
  rq_deadband :: f64
  rq_mask :: u16
  rq_readback :: readback
  rq_float_as_string :: bool
  rq_count :: "u32 option"

record 'v sub_task =
  sub_id :: u32
  sub_name :: string
  sub_connected :: bool
  sub_paused :: bool
  sub_deadline :: "f64 option"
  sub_phase :: phase
  sub_request :: "subscribe_request option"
  sub_todo :: "'v item list"
  sub_out :: "'v item list"

text \<open>
  The outcome of phase 2 is what \<open>element_count\<close> answers the two times it may be asked, and what
  the subscribe request answers.
\<close>

datatype 'v input =
    Probed bool
  | ConnectDone "rs_ca_error option"
  | DeadlinePassed
  | ConnEvent conn_event
  | Control "ctrl option"
  | SubscribeDone "rs_ca_error + u32" "rs_ca_error + u32" "rs_ca_error option"
  | MonitorItem "(rs_ca_error + 'v) option"

section \<open>Counts\<close>

text \<open>An \<open>i64\<close> count read as a request: what \<open>u32::try_from(n).unwrap_or(u32::MAX)\<close> gives.\<close>

definition to_u32_sat :: "i64 \<Rightarrow> u32" where
  "to_u32_sat n = (if 0 \<le> sint n \<and> sint n < 2 ^ 32 then of_int (sint n) else - 1)"

definition monitor_count :: "rs_ca_error + u32 \<Rightarrow> i64 \<Rightarrow> rs_ca_error + u32 option" where
  "monitor_count element_count count =
     (if count = 0 then Inr None
      else if sint count < 0 then
        (case element_count of Inl e \<Rightarrow> Inl e | Inr n \<Rightarrow> Inr (Some n))
      else Inr (Some (to_u32_sat count)))"

section \<open>The subscription task\<close>

abbreviation sends :: "'v item list \<Rightarrow> 'v sub_task \<Rightarrow> 'v sub_task" where
  "sends items t \<equiv> t\<lparr>sub_todo := items\<rparr>"

definition ends :: "'v item list \<Rightarrow> 'v sub_task \<Rightarrow> 'v sub_task" where
  "ends items t = t\<lparr>sub_todo := items @ [ItemEnd (sub_id t)], sub_phase := Ended\<rparr>"

text \<open>The \<open>forward_event!\<close> macro.\<close>

fun forward_event :: "conn_event \<Rightarrow> 'v sub_task \<Rightarrow> 'v sub_task" where
  "forward_event EvConnected t =
     (if \<not> sub_connected t
      then sends [ItemConnected (sub_id t)] (t\<lparr>sub_connected := True\<rparr>) else t)"
| "forward_event EvNativeTypeChanged t =
     (if \<not> sub_connected t
      then sends [ItemConnected (sub_id t)] (t\<lparr>sub_connected := True\<rparr>) else t)"
| "forward_event EvDisconnected t =
     (if sub_connected t
      then sends [ItemDisconnected (sub_id t)] (t\<lparr>sub_connected := False\<rparr>) else t)"
| "forward_event (EvAccessRightsChanged r w) t = sends [ItemAccessRights (sub_id t) r w] t"
| "forward_event (EvLagged now) t =
     (if now \<noteq> sub_connected t
      then sends [if now then ItemConnected (sub_id t) else ItemDisconnected (sub_id t)]
             (t\<lparr>sub_connected := now\<rparr>)
      else t)"
| "forward_event EvClosed t = ends [] t"

text \<open>
  What precedes phase 1: the probe of the channel and the deadline. A deadline that
  \<open>Duration::from_secs_f64\<close> cannot represent panics, which ends the task with no item.
\<close>

definition start_task :: "subscribe_args \<Rightarrow> bool \<Rightarrow> 'v sub_task \<Rightarrow> 'v sub_task" where
  "start_task args connected t =
     sends (if connected then [ItemConnected (sub_id t)] else [])
       (t\<lparr>sub_connected := connected, sub_paused := False,
          sub_deadline := arg_connect_timeout args,
          sub_phase := (case arg_connect_timeout args of
              None \<Rightarrow> Connecting
            | Some secs \<Rightarrow> if duration_panics secs then TaskPanicked else Connecting)\<rparr>)"

text \<open>Phase 1: the \<open>select!\<close> loop and what follows its \<open>break\<close>.\<close>

definition connecting :: "'v input \<Rightarrow> 'v sub_task \<Rightarrow> 'v sub_task" where
  "connecting i t =
     (case i of
        ConnectDone (Some e) \<Rightarrow> ends [ItemError (sub_id t) e] t
      | ConnectDone None \<Rightarrow>
          (if \<not> sub_connected t
           then sends [ItemConnected (sub_id t)] (t\<lparr>sub_connected := True, sub_phase := Subscribing\<rparr>)
           else t\<lparr>sub_phase := Subscribing\<rparr>)
      | DeadlinePassed \<Rightarrow>
          (if sub_deadline t \<noteq> None
           then sends [ItemConnectTimeout (sub_id t)] (t\<lparr>sub_deadline := None\<rparr>) else t)
      | ConnEvent ev \<Rightarrow> forward_event ev t
      | Control (Some CtrlPause) \<Rightarrow> t\<lparr>sub_paused := True\<rparr>
      | Control (Some CtrlResume) \<Rightarrow> t\<lparr>sub_paused := False\<rparr>
      | Control (Some CtrlClose) \<Rightarrow> ends [] t
      | Control None \<Rightarrow> ends [] t
      | _ \<Rightarrow> t)"

definition want_values :: "subscribe_args \<Rightarrow> rs_ca_error + u32 \<Rightarrow> bool" where
  "want_values args element_count \<longleftrightarrow>
     arg_values args \<and>
     (case arg_values_max_count args of
        None \<Rightarrow> True
      | Some m \<Rightarrow> (case element_count of Inl _ \<Rightarrow> False | Inr n \<Rightarrow> n \<le> m))"

definition request_for :: "subscribe_args \<Rightarrow> u32 option \<Rightarrow> subscribe_request" where
  "request_for args cap =
     \<lparr>rq_deadband = arg_deadband args, rq_mask = arg_mask args,
      rq_readback = (if arg_enum_as_string args then ReadbackLabel else ReadbackNative),
      rq_float_as_string = arg_float_as_string args, rq_count = cap\<rparr>"

text \<open>Phase 2.\<close>

definition subscribing ::
  "subscribe_args \<Rightarrow> rs_ca_error + u32 \<Rightarrow> rs_ca_error + u32 \<Rightarrow> rs_ca_error option \<Rightarrow> 'v sub_task \<Rightarrow>
     'v sub_task"
where
  "subscribing args count1 count2 outcome t =
     (if want_values args count1 then
        (case monitor_count count2 (arg_count args) of
           Inl e \<Rightarrow> ends [ItemError (sub_id t) e] t
         | Inr cap \<Rightarrow>
             (let t' = t\<lparr>sub_request := Some (request_for args cap)\<rparr> in
              case outcome of
                None \<Rightarrow> t'\<lparr>sub_phase := Forwarding (Some (sub_paused t))\<rparr>
              | Some e \<Rightarrow> ends [ItemError (sub_id t) e] t'))
      else t\<lparr>sub_phase := Forwarding None\<rparr>)"

text \<open>Phase 3.\<close>

definition forwarding :: "bool option \<Rightarrow> 'v input \<Rightarrow> 'v sub_task \<Rightarrow> 'v sub_task" where
  "forwarding handle i t =
     (case i of
        MonitorItem item \<Rightarrow>
          (if handle \<noteq> None then
             (case item of
                None \<Rightarrow> ends [] t
              | Some (Inr snap) \<Rightarrow> sends [ItemValue (sub_id t) (sub_name t) snap] t
              | Some (Inl e) \<Rightarrow> sends [ItemError (sub_id t) e] t)
           else t)
      | ConnEvent ev \<Rightarrow> forward_event ev t
      | Control (Some CtrlPause) \<Rightarrow> t\<lparr>sub_phase := Forwarding (map_option (\<lambda>_. True) handle)\<rparr>
      | Control (Some CtrlResume) \<Rightarrow> t\<lparr>sub_phase := Forwarding (map_option (\<lambda>_. False) handle)\<rparr>
      | Control (Some CtrlClose) \<Rightarrow> ends [] t
      | Control None \<Rightarrow> ends [] t
      | _ \<Rightarrow> t)"

text \<open>Which inputs a task waits for, and its reaction.\<close>

fun awaits :: "phase \<Rightarrow> f64 option \<Rightarrow> 'v input \<Rightarrow> bool" where
  "awaits Starting d i = (case i of Probed _ \<Rightarrow> True | _ \<Rightarrow> False)"
| "awaits Connecting d i =
     (case i of ConnectDone _ \<Rightarrow> True | DeadlinePassed \<Rightarrow> d \<noteq> None | ConnEvent _ \<Rightarrow> True
      | Control _ \<Rightarrow> True | _ \<Rightarrow> False)"
| "awaits Subscribing d i = (case i of SubscribeDone _ _ _ \<Rightarrow> True | _ \<Rightarrow> False)"
| "awaits (Forwarding h) d i =
     (case i of MonitorItem _ \<Rightarrow> h \<noteq> None | ConnEvent _ \<Rightarrow> True | Control _ \<Rightarrow> True | _ \<Rightarrow> False)"
| "awaits Ended d i = False"
| "awaits TaskPanicked d i = False"

definition react :: "subscribe_args \<Rightarrow> 'v input \<Rightarrow> 'v sub_task \<Rightarrow> 'v sub_task" where
  "react args i t =
     (case sub_phase t of
        Starting \<Rightarrow> (case i of Probed c \<Rightarrow> start_task args c t | _ \<Rightarrow> t)
      | Connecting \<Rightarrow> connecting i t
      | Subscribing \<Rightarrow> (case i of SubscribeDone c1 c2 r \<Rightarrow> subscribing args c1 c2 r t | _ \<Rightarrow> t)
      | Forwarding h \<Rightarrow> forwarding h i t
      | Ended \<Rightarrow> t
      | TaskPanicked \<Rightarrow> t)"

definition new_task :: "u32 \<Rightarrow> string \<Rightarrow> 'v sub_task" where
  "new_task i name =
     \<lparr>sub_id = i, sub_name = name, sub_connected = False, sub_paused = False, sub_deadline = None,
      sub_phase = Starting, sub_request = None, sub_todo = [], sub_out = []\<rparr>"

text \<open>
  One step of a task: a reaction, a send, or the end because a send failed. \<open>room\<close> says whether
  the queue has room, \<open>open\<close> whether the hub still has its receiver.
\<close>

datatype 'v act = React "'v input" | Send "'v item" | SendFailed

definition act_enabled :: "bool \<Rightarrow> bool \<Rightarrow> 'v sub_task \<Rightarrow> 'v act \<Rightarrow> bool" where
  "act_enabled open room t a =
     (case a of
        React i \<Rightarrow> sub_todo t = [] \<and> awaits (sub_phase t) (sub_deadline t) i
      | Send it \<Rightarrow> open \<and> room \<and> sub_todo t \<noteq> [] \<and> hd (sub_todo t) = it
      | SendFailed \<Rightarrow> \<not> open \<and> sub_todo t \<noteq> [])"

definition act :: "subscribe_args \<Rightarrow> 'v act \<Rightarrow> 'v sub_task \<Rightarrow> 'v sub_task" where
  "act args a t =
     (case a of
        React i \<Rightarrow> react args i t
      | Send it \<Rightarrow> t\<lparr>sub_todo := tl (sub_todo t), sub_out := sub_out t @ [it]\<rparr>
      | SendFailed \<Rightarrow> t\<lparr>sub_todo := [], sub_phase := Ended\<rparr>)"

text \<open>A run of the task, \<open>None\<close> if one of its steps is not possible where it is taken.\<close>

definition act_ok :: "'v sub_task \<Rightarrow> 'v act \<Rightarrow> bool" where
  "act_ok t a = act_enabled (a \<noteq> SendFailed) True t a"

fun task_run :: "subscribe_args \<Rightarrow> 'v act list \<Rightarrow> 'v sub_task \<Rightarrow> 'v sub_task option" where
  "task_run args [] t = Some t"
| "task_run args (a # as) t = (if act_ok t a then task_run args as (act args a t) else None)"

lemma act_enabled_ok: "act_enabled open room t a \<Longrightarrow> act_ok t a"
  by (auto simp: act_ok_def act_enabled_def split: act.splits)

lemma task_run_append: "task_run args (as @ bs) t = Option.bind (task_run args as t) (task_run args bs)"
  by (induction as arbitrary: t) auto

lemma task_run_invariant [consumes 1, case_names start step]:
  assumes "task_run args as t = Some t'" and "P t"
    and "\<And>a u. a \<in> set as \<Longrightarrow> P u \<Longrightarrow> act_ok u a \<Longrightarrow> P (act args a u)"
  shows "P t'"
  using assms by (induction as arbitrary: t) (auto split: if_splits)

lemma act_cases [consumes 1, case_names React Send SendFailed]:
  assumes "act_ok t a"
  obtains (React) i where "a = React i" "sub_todo t = []" "awaits (sub_phase t) (sub_deadline t) i"
  | (Send) it rest where "a = Send it" "sub_todo t = it # rest"
  | (SendFailed) "a = SendFailed" "sub_todo t \<noteq> []"
  using assms by (cases a; cases "sub_todo t") (auto simp: act_ok_def act_enabled_def)

section \<open>Invariants of a task\<close>

definition all_items :: "'v sub_task \<Rightarrow> 'v item list" where
  "all_items t = sub_out t @ sub_todo t"

definition transition :: "'v item \<Rightarrow> bool option" where
  "transition it = (case it of ItemConnected _ \<Rightarrow> Some True | ItemDisconnected _ \<Rightarrow> Some False | _ \<Rightarrow> None)"

definition transitions :: "'v item list \<Rightarrow> bool list" where
  "transitions its = List.map_filter transition its"

lemma transitions_append [simp]: "transitions (xs @ ys) = transitions xs @ transitions ys"
  by (simp add: transitions_def map_filter_def)

lemma transitions_Nil [simp]: "transitions [] = []"
  by (simp add: transitions_def map_filter_def)

lemma transitions_Cons [simp]:
  "transitions (it # its) = (case transition it of None \<Rightarrow> [] | Some b \<Rightarrow> [b]) @ transitions its"
  by (simp add: transitions_def map_filter_def split: option.splits)

lemma transition_simps [simp]:
  "transition (ItemValue i n v) = None" "transition (ItemError i e) = None"
  "transition (ItemConnectTimeout i) = None" "transition (ItemConnected i) = Some True"
  "transition (ItemEnd i) = None" "transition (ItemDisconnected i) = Some False"
  "transition (ItemAccessRights i r w) = None"
  by (simp_all add: transition_def)

text \<open>A reaction leaves what was sent alone and keeps the names.\<close>

lemmas react_defs = react_def start_task_def connecting_def subscribing_def Let_def forwarding_def ends_def

lemma forward_event_frame [simp]:
  "sub_out (forward_event ev t) = sub_out t" "sub_id (forward_event ev t) = sub_id t"
  "sub_name (forward_event ev t) = sub_name t" "sub_deadline (forward_event ev t) = sub_deadline t"
  "sub_paused (forward_event ev t) = sub_paused t"
  "sub_phase (forward_event ev t) = (if ev = EvClosed then Ended else sub_phase t)"
  by (cases ev; simp add: ends_def)+

lemma react_frame [simp]:
  "sub_out (react args i t) = sub_out t" "sub_id (react args i t) = sub_id t"
  "sub_name (react args i t) = sub_name t"
  by (simp_all add: react_defs split: phase.splits input.splits option.splits ctrl.splits sum.splits)

text \<open>
  Connection items alternate, starting with \<open>Connected\<close>, and \<open>sub_connected\<close> is what the last of
  them said.
\<close>

definition alternating :: "bool list \<Rightarrow> bool" where
  "alternating bs \<longleftrightarrow> (\<forall>k < length bs. bs ! k = even k)"

lemma alternating_Nil [simp]: "alternating []"
  by (simp add: alternating_def)

lemma alternating_snoc [simp]: "alternating (bs @ [b]) \<longleftrightarrow> alternating bs \<and> b = even (length bs)"
  by (auto simp: alternating_def nth_append less_Suc_eq)

lemma alternating_prefix: "alternating (bs @ cs) \<Longrightarrow> alternating bs"
  unfolding alternating_def by (metis length_append nth_append trans_less_add1)

lemma alternating_single [simp]: "alternating [b] = b"
  using alternating_snoc [of "[]" b] by simp

definition finished :: "'v sub_task \<Rightarrow> bool" where
  "finished t \<longleftrightarrow> sub_phase t = Ended \<or> sub_phase t = TaskPanicked"

definition lifecycle_inv :: "'v sub_task \<Rightarrow> bool" where
  "lifecycle_inv t \<longleftrightarrow>
     alternating (transitions (all_items t)) \<and>
     (finished t \<or> sub_connected t = odd (length (transitions (all_items t)))) \<and>
     (sub_phase t = Starting \<longrightarrow> all_items t = [])"

lemma forward_event_transition:
  "sub_todo t = [] \<Longrightarrow> transitions (sub_todo (forward_event ev t)) =
     (if sub_connected (forward_event ev t) = sub_connected t then []
      else [sub_connected (forward_event ev t)])"
  by (cases ev) (auto simp: ends_def)

lemma lifecycle_inv_react:
  assumes "lifecycle_inv t" and "sub_todo t = []" and "awaits (sub_phase t) (sub_deadline t) i"
  shows "lifecycle_inv (react args i t)"
proof (cases "sub_phase t")
  case Starting
  with assms show ?thesis
    by (auto simp: lifecycle_inv_def all_items_def react_defs finished_def split: input.splits option.splits)
next
  case Connecting
  with assms show ?thesis
    by (cases i)
      (auto simp: lifecycle_inv_def all_items_def react_defs finished_def forward_event_transition
        split: option.splits ctrl.splits)
next
  case Subscribing
  with assms show ?thesis
    by (auto simp: lifecycle_inv_def all_items_def react_defs finished_def
        split: input.splits option.splits sum.splits)
next
  case (Forwarding h)
  with assms show ?thesis
    by (cases i)
      (auto simp: lifecycle_inv_def all_items_def react_defs finished_def forward_event_transition
        split: option.splits ctrl.splits sum.splits)
qed (use assms in auto)

lemma lifecycle_inv_act:
  assumes "act_ok t a" and "lifecycle_inv t"
  shows "lifecycle_inv (act args a t)"
  using assms(1)
proof (cases rule: act_cases)
  case (Send it rest)
  with assms(2) show ?thesis by (simp add: act_def lifecycle_inv_def all_items_def finished_def)
next
  case SendFailed
  with assms(2) show ?thesis
    by (auto simp: act_def lifecycle_inv_def all_items_def finished_def intro: alternating_prefix)
qed (use assms(2) in \<open>auto simp: act_def lifecycle_inv_react\<close>)

text \<open>\<open>End\<close> is the last item of a task, if there is one.\<close>

fun is_end :: "'v item \<Rightarrow> bool" where
  "is_end (ItemEnd i) = True"
| "is_end it = False"

fun is_value :: "'v item \<Rightarrow> bool" where
  "is_value (ItemValue i n v) = True"
| "is_value it = False"

fun is_connect_timeout :: "'v item \<Rightarrow> bool" where
  "is_connect_timeout (ItemConnectTimeout i) = True"
| "is_connect_timeout it = False"

definition end_inv :: "'v sub_task \<Rightarrow> bool" where
  "end_inv t \<longleftrightarrow>
     (\<forall>it \<in> set (all_items t). item_id it = sub_id t) \<and>
     (\<forall>it \<in> set (butlast (all_items t)). \<not> is_end it) \<and>
     (sub_phase t = Ended \<or> (\<forall>it \<in> set (all_items t). \<not> is_end it))"

definition end_sent :: "'v sub_task \<Rightarrow> bool" where
  "end_sent t \<longleftrightarrow> sub_phase t = Ended \<longrightarrow> (\<exists>pre. all_items t = pre @ [ItemEnd (sub_id t)])"

lemma forward_event_items:
  "sub_todo t = [] \<Longrightarrow> ev \<noteq> EvClosed \<Longrightarrow>
     sub_todo (forward_event ev t) = [] \<or>
     (\<exists>it. sub_todo (forward_event ev t) = [it] \<and> item_id it = sub_id t \<and> \<not> is_end it \<and>
        \<not> is_value it \<and> \<not> is_connect_timeout it)"
  by (cases ev) auto

text \<open>The shapes of what a reaction leaves to send.\<close>

definition plain_item :: "u32 \<Rightarrow> 'v item \<Rightarrow> bool" where
  "plain_item i it \<longleftrightarrow> item_id it = i \<and> \<not> is_end it"

lemma react_items:
  assumes "sub_todo t = []" and "awaits (sub_phase t) (sub_deadline t) i"
  shows "sub_phase (react args i t) \<noteq> Ended \<and>
      (sub_todo (react args i t) = [] \<or> (\<exists>it. sub_todo (react args i t) = [it] \<and> plain_item (sub_id t) it)) \<or>
    sub_phase (react args i t) = Ended \<and>
      (sub_todo (react args i t) = [ItemEnd (sub_id t)] \<or>
       (\<exists>it. sub_todo (react args i t) = [it, ItemEnd (sub_id t)] \<and> plain_item (sub_id t) it))"
  using assms forward_event_items [OF assms(1)]
  by (cases "sub_phase t"; cases i)
    (auto simp: react_defs plain_item_def split: option.splits ctrl.splits sum.splits)

lemma end_inv_react:
  assumes "end_inv t" and "sub_todo t = []" and "awaits (sub_phase t) (sub_deadline t) i"
  shows "end_inv (react args i t) \<and> end_sent (react args i t)"
  using assms react_items [OF assms(2,3), of args]
  by (auto simp: end_inv_def end_sent_def all_items_def plain_item_def butlast_append dest: in_set_butlastD)

lemma end_inv_act:
  assumes "act_ok t a" and "end_inv t"
  shows "end_inv (act args a t)"
  using assms(1)
proof (cases rule: act_cases)
  case (SendFailed)
  with assms(2) show ?thesis
    by (auto simp: act_def end_inv_def all_items_def butlast_append dest: in_set_butlastD)
next
  case (Send it rest)
  with assms(2) show ?thesis by (simp add: act_def end_inv_def all_items_def)
qed (use assms(2) in \<open>auto simp: act_def end_inv_react\<close>)

lemma end_sent_act:
  assumes "act_ok t a" and "end_inv t" and "end_sent t" and "a \<noteq> SendFailed"
  shows "end_sent (act args a t)"
  using assms(1)
proof (cases rule: act_cases)
  case (Send it rest)
  with assms(3) show ?thesis by (simp add: act_def end_sent_def all_items_def)
qed (use assms in \<open>auto simp: act_def end_inv_react\<close>)

text \<open>A value comes after a connection and after every connect timeout.\<close>

definition values_ordered :: "'v item list \<Rightarrow> bool" where
  "values_ordered its \<longleftrightarrow>
     (\<forall>k < length its. is_value (its ! k) \<longrightarrow>
        transitions (take k its) \<noteq> [] \<and>
        (\<forall>j. k < j \<and> j < length its \<longrightarrow> \<not> is_connect_timeout (its ! j)))"

lemma values_ordered_Nil [simp]: "values_ordered []"
  by (simp add: values_ordered_def)

lemma values_ordered_snoc [simp]:
  "values_ordered (its @ [it]) \<longleftrightarrow> values_ordered its \<and> (is_value it \<longrightarrow> transitions its \<noteq> []) \<and>
     (is_connect_timeout it \<longrightarrow> (\<forall>x \<in> set its. \<not> is_value x))"
  (is "?l \<longleftrightarrow> ?r")
proof
  assume l: ?l
  have "\<not> is_value x" if "is_connect_timeout it" "x \<in> set its" for x
  proof -
    from that(2) obtain k where k: "k < length its" "its ! k = x" by (auto simp: in_set_conv_nth)
    have "is_value (its ! k) \<Longrightarrow> \<not> is_connect_timeout ((its @ [it]) ! length its)"
      using l [unfolded values_ordered_def, rule_format, of k] k(1)
      by (auto simp: nth_append dest: spec [of _ "length its"])
    with that(1) k(2) show ?thesis by auto
  qed
  moreover have "values_ordered its"
    unfolding values_ordered_def
  proof (intro allI impI)
    fix k
    assume k: "k < length its" "is_value (its ! k)"
    with l [unfolded values_ordered_def, rule_format, of k]
    have "transitions (take k its) \<noteq> []"
      and "\<forall>j. k < j \<and> j < length (its @ [it]) \<longrightarrow> \<not> is_connect_timeout ((its @ [it]) ! j)"
      by (auto simp: nth_append)
    then show "transitions (take k its) \<noteq> [] \<and> (\<forall>j. k < j \<and> j < length its \<longrightarrow> \<not> is_connect_timeout (its ! j))"
      by (auto simp: nth_append dest: spec)
  qed
  moreover have "transitions its \<noteq> []" if "is_value it"
    using l that by (auto simp: values_ordered_def dest!: spec [of _ "length its"])
  ultimately show ?r by blast
next
  assume ?r
  then show ?l
    by (auto simp: values_ordered_def nth_append less_Suc_eq)
qed

lemma values_ordered_few [simp]:
  "values_ordered [x] \<longleftrightarrow> \<not> is_value x"
  "values_ordered (its @ [x, ItemEnd i]) \<longleftrightarrow> values_ordered (its @ [x])"
  using values_ordered_snoc [of "[]" x] values_ordered_snoc [of "its @ [x]" "ItemEnd i"] by simp_all

lemma values_ordered_prefix: "values_ordered (xs @ ys) \<Longrightarrow> values_ordered xs"
  by (induction ys rule: rev_induct) (auto simp: append_assoc [symmetric] simp del: append_assoc)

definition value_inv :: "subscribe_args \<Rightarrow> 'v sub_task \<Rightarrow> bool" where
  "value_inv args t \<longleftrightarrow>
     values_ordered (all_items t) \<and>
     (\<forall>i n v. ItemValue i n v \<in> set (all_items t) \<longrightarrow> n = sub_name t \<and> arg_values args) \<and>
     (sub_phase t = Starting \<longrightarrow> all_items t = []) \<and>
     (sub_phase t = Starting \<or> sub_phase t = Connecting \<or> sub_phase t = Subscribing \<longrightarrow>
        (\<forall>it \<in> set (all_items t). \<not> is_value it)) \<and>
     (sub_phase t = Connecting \<and> sub_connected t \<longrightarrow> transitions (all_items t) \<noteq> []) \<and>
     (sub_phase t = Subscribing \<longrightarrow> transitions (all_items t) \<noteq> []) \<and>
     (\<forall>h. sub_phase t = Forwarding h \<longrightarrow> transitions (all_items t) \<noteq> [] \<and> (h = None \<or> arg_values args))"

lemma value_inv_forward_event:
  assumes "value_inv args t" and "sub_todo t = []" and "sub_phase t = Connecting \<or> sub_phase t = Forwarding h"
  shows "value_inv args (forward_event ev t)"
  using assms by (cases ev) (auto simp: value_inv_def all_items_def ends_def)

lemma value_inv_react:
  assumes "value_inv args t" and "sub_todo t = []" and "awaits (sub_phase t) (sub_deadline t) i"
  shows "value_inv args (react args i t)"
proof (cases "sub_phase t")
  case Starting
  with assms show ?thesis
    by (auto simp: value_inv_def all_items_def react_defs split: input.splits option.splits)
next
  case Connecting
  show ?thesis
  proof (cases "\<exists>ev. i = ConnEvent ev")
    case True
    with Connecting value_inv_forward_event [OF assms(1,2)] show ?thesis by (auto simp: react_defs)
  next
    case False
    with assms Connecting show ?thesis
      by (cases i)
        (auto simp: value_inv_def all_items_def react_defs split: option.splits ctrl.splits)
  qed
next
  case Subscribing
  with assms show ?thesis
    by (auto simp: value_inv_def all_items_def react_defs want_values_def
        split: input.splits option.splits sum.splits)
next
  case (Forwarding h)
  show ?thesis
  proof (cases "\<exists>ev. i = ConnEvent ev")
    case True
    with Forwarding value_inv_forward_event [OF assms(1,2)] show ?thesis by (auto simp: react_defs)
  next
    case False
    with assms Forwarding show ?thesis
      by (cases i)
        (auto simp: value_inv_def all_items_def react_defs split: option.splits ctrl.splits sum.splits)
  qed
qed (use assms in auto)

lemma value_inv_act:
  assumes "act_ok t a" and "value_inv args t"
  shows "value_inv args (act args a t)"
  using assms(1)
proof (cases rule: act_cases)
  case (Send it rest)
  with assms(2) show ?thesis by (simp add: act_def value_inv_def all_items_def)
next
  case SendFailed
  with assms(2) show ?thesis
    by (auto simp: act_def value_inv_def all_items_def intro: values_ordered_prefix)
qed (use assms(2) in \<open>auto simp: act_def value_inv_react\<close>)

text \<open>The connect timeout is reported once, and only when it was asked for.\<close>

definition timeout_inv :: "subscribe_args \<Rightarrow> 'v sub_task \<Rightarrow> bool" where
  "timeout_inv args t \<longleftrightarrow>
     length (filter is_connect_timeout (all_items t)) +
       (if sub_phase t = Starting \<and> arg_connect_timeout args \<noteq> None \<or> sub_deadline t \<noteq> None then 1 else 0) \<le>
     (if arg_connect_timeout args = None then 0 else 1 :: nat)"

lemma timeout_inv_react:
  assumes "timeout_inv args t" and "sub_todo t = []" and "awaits (sub_phase t) (sub_deadline t) i"
    and "sub_phase t = Starting \<Longrightarrow> sub_deadline t = None"
  shows "timeout_inv args (react args i t)"
proof (cases "\<exists>ev. i = ConnEvent ev")
  case True
  then obtain ev where "i = ConnEvent ev" by blast
  with assms show ?thesis
    by (cases "sub_phase t"; cases ev) (auto simp: timeout_inv_def all_items_def react_defs split: if_splits)
next
  case False
  with assms show ?thesis
    by (cases "sub_phase t"; cases i)
      (auto simp: timeout_inv_def all_items_def react_defs split: option.splits ctrl.splits sum.splits if_splits)
qed

definition pause_wanted :: "'v act list \<Rightarrow> bool" where
  "pause_wanted as =
     fold (\<lambda>a w. case a of React (Control (Some CtrlPause)) \<Rightarrow> True
       | React (Control (Some CtrlResume)) \<Rightarrow> False | _ \<Rightarrow> w) as False"

lemma timeout_inv_act:
  assumes "act_ok t a" and "timeout_inv args t \<and> (sub_phase t = Starting \<longrightarrow> sub_deadline t = None)"
  shows "timeout_inv args (act args a t) \<and>
    (sub_phase (act args a t) = Starting \<longrightarrow> sub_deadline (act args a t) = None)"
  using assms(1)
proof (cases rule: act_cases)
  case (React i)
  then have "sub_phase (react args i t) \<noteq> Starting"
    by (cases "sub_phase t"; cases i)
      (auto simp: react_defs split: option.splits ctrl.splits sum.splits)
  with React assms(2) show ?thesis by (auto simp: act_def timeout_inv_react)
next
  case (Send it rest)
  with assms(2) show ?thesis by (auto simp: act_def timeout_inv_def all_items_def split: if_splits)
next
  case SendFailed
  with assms(2) show ?thesis by (auto simp: act_def timeout_inv_def all_items_def split: if_splits)
qed

text \<open>A task that starts at \<^term>\<open>new_task i name\<close> keeps all of them.\<close>

lemma new_task_invs:
  "lifecycle_inv (new_task i name)" "end_inv (new_task i name)" "end_sent (new_task i name)"
  "value_inv args (new_task i name)"
  "timeout_inv args (new_task i name) \<and>
     (sub_phase (new_task i name) = Starting \<longrightarrow> sub_deadline (new_task i name) = None)"
  by (simp_all add: lifecycle_inv_def end_inv_def end_sent_def value_inv_def timeout_inv_def
      all_items_def new_task_def finished_def)

lemma run_names:
  "task_run args as (new_task i name) = Some t \<Longrightarrow> sub_id t = i \<and> sub_name t = name"
  by (induction rule: task_run_invariant) (auto simp: new_task_def act_def split: act.splits)

lemma run_invs:
  assumes "task_run args as (new_task i name) = Some t"
  shows "lifecycle_inv t" "end_inv t" "value_inv args t" "timeout_inv args t"
    and "SendFailed \<notin> set as \<Longrightarrow> end_sent t"
proof -
  show "lifecycle_inv t"
    using assms by (rule task_run_invariant) (simp_all add: new_task_invs lifecycle_inv_act)
  show "end_inv t"
    using assms by (rule task_run_invariant) (simp_all add: new_task_invs end_inv_act)
  show "value_inv args t"
    using assms by (rule task_run_invariant) (simp_all add: new_task_invs value_inv_act)
  have "timeout_inv args t \<and> (sub_phase t = Starting \<longrightarrow> sub_deadline t = None)"
    using assms
  proof (rule task_run_invariant)
    show "timeout_inv args (new_task i name) \<and>
        (sub_phase (new_task i name) = Starting \<longrightarrow> sub_deadline (new_task i name :: 'a sub_task) = None)"
      by (rule new_task_invs)
  qed (rule timeout_inv_act)
  then show "timeout_inv args t" by blast
  have "end_inv t \<and> end_sent t" if "SendFailed \<notin> set as"
    using assms by (rule task_run_invariant) (use that in \<open>auto simp: new_task_invs end_inv_act intro: end_sent_act\<close>)
  then show "SendFailed \<notin> set as \<Longrightarrow> end_sent t" by blast
qed

lemma run_pause:
  assumes "task_run args as (new_task i name) = Some t"
  shows "(sub_phase t = Starting \<longrightarrow> \<not> pause_wanted as) \<and>
    (sub_phase t = Connecting \<or> sub_phase t = Subscribing \<longrightarrow> sub_paused t = pause_wanted as) \<and>
    (\<forall>p. sub_phase t = Forwarding (Some p) \<longrightarrow> p = pause_wanted as)"
  using assms
proof (induction as arbitrary: t rule: rev_induct)
  case Nil
  then show ?case by (auto simp: new_task_def pause_wanted_def)
next
  case (snoc a as)
  then obtain u where u: "task_run args as (new_task i name) = Some u" "act_ok u a" "t = act args a u"
    by (auto simp: task_run_append bind_eq_Some_conv split: if_splits)
  note IH = snoc.IH [OF u(1)]
  from u(2) show ?case
  proof (cases rule: act_cases)
    case (React inp)
    with u IH show ?thesis
      by (cases "sub_phase u"; cases inp)
        (auto simp: act_def react_defs pause_wanted_def split: option.splits ctrl.splits sum.splits if_splits)
  qed (use u IH in \<open>auto simp: act_def pause_wanted_def\<close>)
qed

section \<open>Properties of a subscription\<close>

text \<open>
  C19. What Python hears of a channel's circuit alternates: connected, disconnected, connected and
  so on, starting with connected, whatever mix of events, lags, probes and failing sends the task
  meets; and while the task runs and has sent all it had to send, the last of them is the state
  the task believes in.
\<close>

theorem subscription_connection_alternates:
  assumes "task_run args as (new_task i name) = Some t"
  shows "(\<forall>k < length (transitions (sub_out t)). transitions (sub_out t) ! k = even k) \<and>
    (\<not> finished t \<and> sub_todo t = [] \<longrightarrow>
       sub_connected t = odd (length (transitions (sub_out t))))"
proof -
  have "alternating (transitions (sub_out t) @ transitions (sub_todo t))"
    using run_invs(1) [OF assms] by (simp add: lifecycle_inv_def all_items_def)
  then have "alternating (transitions (sub_out t))" by (rule alternating_prefix)
  with run_invs(1) [OF assms] show ?thesis
    by (auto simp: lifecycle_inv_def all_items_def alternating_def)
qed

text \<open>A run of a task: connected at once, a value, a disconnection, closed.\<close>

definition sample_args :: subscribe_args where
  "sample_args = \<lparr>arg_deadband = 0, arg_mask = 5, arg_enum_as_string = False,
     arg_float_as_string = False, arg_count = 0, arg_connect_timeout = Some 0, arg_values = True, arg_values_max_count = None\<rparr>"

definition sample_acts :: "nat act list" where
  "sample_acts =
     [React (Probed True), Send (ItemConnected 1), React (Control (Some CtrlPause)),
      React (ConnectDone None), React (SubscribeDone (Inr 1) (Inr 1) None),
      React (MonitorItem (Some (Inr 42))), Send (ItemValue 1 ''pv'' 42),
      React (ConnEvent EvDisconnected), Send (ItemDisconnected 1)]"

definition sample_task :: "nat sub_task" where
  "sample_task =
     \<lparr>sub_id = 1, sub_name = ''pv'', sub_connected = False, sub_paused = True, sub_deadline = Some 0,
      sub_phase = Forwarding (Some True), sub_request = Some (request_for sample_args None),
     sub_todo = [],
      sub_out = [ItemConnected 1, ItemValue 1 ''pv'' 42, ItemDisconnected 1]\<rparr>"

lemmas run_simps = act_ok_def act_enabled_def act_def react_defs new_task_def want_values_def monitor_count_def

lemma zero_secs [simp]: "\<not> duration_panics 0"
  by (simp add: duration_panics_def f64_exp_def)

lemma sample_run: "task_run sample_args sample_acts (new_task 1 ''pv'') = Some sample_task"
  by (simp add: sample_args_def sample_acts_def sample_task_def run_simps)

theorem subscription_connection_alternates_witness:
  "transitions (sub_out sample_task) = [True, False] \<and> \<not> sub_connected sample_task"
  using subscription_connection_alternates [OF sample_run] by (simp add: sample_task_def)

text \<open>
  C35. \<open>End\<close> is the last word of a subscription: it is sent at most once, nothing follows it, none
  is sent by a task that still runs, and a task that ended because of a close, a torn down
  channel or a failed subscribe, and not because the hub was closed, has sent it. Every item
  carries the id of its subscription.
\<close>

theorem subscription_end_is_last:
  assumes "task_run args as (new_task i name) = Some t"
  shows "(\<forall>it \<in> set (butlast (sub_out t)). \<not> is_end it) \<and>
    (sub_phase t \<noteq> Ended \<longrightarrow> (\<forall>it \<in> set (sub_out t). \<not> is_end it)) \<and>
    (sub_phase t = Ended \<and> sub_todo t = [] \<and> SendFailed \<notin> set as \<longrightarrow>
       sub_out t \<noteq> [] \<and> last (sub_out t) = ItemEnd i) \<and>
    (\<forall>it \<in> set (sub_out t). item_id it = i)"
proof -
  have inv: "end_inv t" and i: "sub_id t = i"
    using run_invs(2) [OF assms] run_names [OF assms] by blast+
  have "set (butlast (sub_out t)) \<subseteq> set (butlast (all_items t))"
    by (auto simp: all_items_def butlast_append dest: in_set_butlastD)
  with inv i run_invs(5) [OF assms] show ?thesis
    by (auto simp: end_inv_def end_sent_def all_items_def)
qed

theorem subscription_end_is_last_witness:
  "filter is_end (sub_out sample_task) = [] \<and> map item_id (sub_out sample_task) = [1, 1, 1]"
  using subscription_end_is_last [OF sample_run] by (auto simp: sample_task_def)



text \<open>
  Pausing is remembered: whether it came before or after the subscribe, the monitor is paused
  exactly when the last of the pause and resume messages was a pause.
\<close>

theorem subscription_pause_remembered:
  assumes "task_run args as (new_task i name) = Some t" and "sub_phase t = Forwarding (Some p)"
  shows "p = pause_wanted as"
  using run_pause [OF assms(1)] assms(2) by blast

theorem subscription_pause_remembered_witness: "pause_wanted sample_acts"
  using subscription_pause_remembered [OF sample_run, of True] by (simp add: sample_task_def)

text \<open>
  A close is obeyed: a task that waits for its channel or forwards a monitor answers a close
  message by sending \<open>End\<close> as its next and last item.
\<close>

theorem subscription_close_ends:
  assumes "task_run args as (new_task i name) = Some t" and "sub_todo t = []"
    and "sub_phase t = Connecting \<or> (\<exists>h. sub_phase t = Forwarding h)" and "c = Some CtrlClose \<or> c = None"
  shows "act_ok t (React (Control c)) \<and>
    task_run args [React (Control c), Send (ItemEnd i)] t =
      Some (t\<lparr>sub_todo := [], sub_out := sub_out t @ [ItemEnd i], sub_phase := Ended\<rparr>) \<and>
    (\<forall>a. \<not> act_ok (t\<lparr>sub_todo := [], sub_out := sub_out t @ [ItemEnd i], sub_phase := Ended\<rparr>) a)"
  using assms(2-4) run_names [OF assms(1)]
  by (auto simp: act_ok_def act_enabled_def act_def react_defs split: act.splits)

theorem subscription_close_ends_witness:
  "sub_out (sample_task\<lparr>sub_todo := [], sub_out := sub_out sample_task @ [ItemEnd 1], sub_phase := Ended\<rparr>) =
     [ItemConnected 1, ItemValue 1 ''pv'' 42, ItemDisconnected 1, ItemEnd 1] \<and>
   act_ok sample_task (React (Control None))"
  using subscription_close_ends [OF sample_run, of None] by (simp add: sample_task_def)

text \<open>
  The deadline is not disarmed by the connection: a channel that is connected from the start, and
  reported so, may still be reported as not connected in time.
\<close>

lemma connect_timeout_after_connected:
  "map_option sub_out (task_run sample_args
      [React (Probed True), Send (ItemConnected 1), React DeadlinePassed, Send (ItemConnectTimeout 1)]
      (new_task 1 ''pv'' :: nat sub_task)) =
    Some [ItemConnected 1, ItemConnectTimeout 1]"
  by (simp add: sample_args_def run_simps)

text \<open>An infinite connect timeout ends the task without an item.\<close>

lemma infinite_connect_timeout_panics:
  "map_option (\<lambda>t. (sub_phase t, sub_todo t, sub_out t))
     (task_run (sample_args\<lparr>arg_connect_timeout := Some 0x7FF0000000000000\<rparr>) [React (Probed False)]
       (new_task 1 ''pv'' :: nat sub_task)) =
    Some (TaskPanicked, [], [])"
  by (simp add: sample_args_def run_simps duration_panics_def f64_neg_def f64_is_nan_def f64_exp_def
      f64_frac_def)

end
