(* ===== verification/CaMonitorHub.thy ===== *)
theory CaMonitorHub
  imports CaHub
begin

text \<open>
  \<open>MonitorHub\<close> of \<open>src/src/hub.rs\<close>: the tasks of all subscriptions, their control channels, the
  bounded queue and the batches Python takes from it.

  A task is kept with its arguments and the messages waiting in its control channel; \<open>hub_subs\<close>
  maps an id to the task whose sender the hub holds. A bounded channel delivers in the order of
  its sends; a send waits for room. \<open>hub_taken\<close> is a ghost: everything handed to Python so far.
\<close>

section \<open>State and operations\<close>

record 'v monitor_hub =
  hub_open :: bool
  hub_queue :: "'v item list"
  hub_subs :: "u32 \<Rightarrow> nat option"
  hub_next_id :: u32
  hub_tasks :: "(subscribe_args \<times> 'v sub_task \<times> ctrl list) list"
  hub_taken :: "'v item list"

definition QUEUE :: nat where
  "QUEUE = 8192"

definition hub_new :: "'v monitor_hub" where
  "hub_new = \<lparr>hub_open = True, hub_queue = [], hub_subs = Map.empty, hub_next_id = 1,
     hub_tasks = [], hub_taken = []\<rparr>"

definition hub_subscribe ::
  "subscribe_args \<Rightarrow> string \<Rightarrow> 'v monitor_hub \<Rightarrow> 'v monitor_hub \<times> u32"
where
  "hub_subscribe args name h =
     (let i = hub_next_id h in
      (h\<lparr>hub_next_id := i + 1,
         hub_subs := (hub_subs h)(i \<mapsto> length (hub_tasks h)),
         hub_tasks := hub_tasks h @ [(args, new_task i name, [])]\<rparr>, i))"

definition push_ctrl :: "nat \<Rightarrow> ctrl \<Rightarrow> 'v monitor_hub \<Rightarrow> 'v monitor_hub" where
  "push_ctrl k c h =
     h\<lparr>hub_tasks := (hub_tasks h)[k := (case hub_tasks h ! k of (args, t, cs) \<Rightarrow> (args, t, cs @ [c]))]\<rparr>"

definition send_ctrl :: "u32 \<Rightarrow> ctrl \<Rightarrow> 'v monitor_hub \<Rightarrow> 'v monitor_hub" where
  "send_ctrl i c h = (case hub_subs h i of None \<Rightarrow> h | Some k \<Rightarrow> push_ctrl k c h)"

definition hub_pause :: "u32 \<Rightarrow> 'v monitor_hub \<Rightarrow> 'v monitor_hub" where
  "hub_pause i h = send_ctrl i CtrlPause h"

definition hub_resume :: "u32 \<Rightarrow> 'v monitor_hub \<Rightarrow> 'v monitor_hub" where
  "hub_resume i h = send_ctrl i CtrlResume h"

definition close_subscription :: "u32 \<Rightarrow> 'v monitor_hub \<Rightarrow> 'v monitor_hub" where
  "close_subscription i h =
     (case hub_subs h i of
        None \<Rightarrow> h
      | Some k \<Rightarrow> push_ctrl k CtrlClose (h\<lparr>hub_subs := (hub_subs h)(i := None)\<rparr>))"

definition hub_len :: "'v monitor_hub \<Rightarrow> nat" where
  "hub_len h = card (dom (hub_subs h))"

definition hub_close :: "'v monitor_hub \<Rightarrow> 'v monitor_hub" where
  "hub_close h = h\<lparr>hub_subs := Map.empty, hub_open := False, hub_queue := []\<rparr>"

text \<open>The \<open>while items.len() < cap\<close> loop over \<open>try_recv\<close>, and the future handed to \<open>pull\<close>.\<close>

definition batch_cap :: "nat \<Rightarrow> nat" where
  "batch_cap max_items = (if max_items = 0 then 2 ^ 64 - 1 else max_items)"

fun recv_more :: "nat \<Rightarrow> 'i list \<Rightarrow> 'i list \<Rightarrow> 'i list \<times> 'i list" where
  "recv_more cap items [] = (items, [])"
| "recv_more cap items (x # xs) =
     (if length items < cap then recv_more cap (items @ [x]) xs else (items, x # xs))"

definition hub_pull :: "nat \<Rightarrow> 'i list \<Rightarrow> ('i list \<times> 'i list) option" where
  "hub_pull max_items q =
     (case q of [] \<Rightarrow> None | x # xs \<Rightarrow> Some (recv_more (batch_cap max_items) [x] xs))"

text \<open>Entries of a batch; \<open>conv\<close> is \<open>Snapshot::from_rs\<close>.\<close>

datatype 's payload = PySnapshot 's | PyException pyexc | PyNone | PyRights bool bool

definition batch_item ::
  "eca_lib \<Rightarrow> (string \<Rightarrow> 'v \<Rightarrow> 's res) \<Rightarrow> 'v item \<Rightarrow> (u32 \<times> u8 \<times> 's payload) res"
where
  "batch_item eca conv it =
     (case it of
        ItemValue i name snap \<Rightarrow> map_res (\<lambda>s. (i, 0, PySnapshot s)) (conv name snap)
      | ItemError i e \<Rightarrow> Inr (i, 1, PyException (map_ca eca e))
      | ItemConnectTimeout i \<Rightarrow> Inr (i, 2, PyNone)
      | ItemConnected i \<Rightarrow> Inr (i, 3, PyNone)
      | ItemEnd i \<Rightarrow> Inr (i, 4, PyNone)
      | ItemDisconnected i \<Rightarrow> Inr (i, 5, PyNone)
      | ItemAccessRights i read write \<Rightarrow> Inr (i, 6, PyRights read write))"

definition hub_recv_batch ::
  "eca_lib \<Rightarrow> (string \<Rightarrow> 'v \<Rightarrow> 's res) \<Rightarrow> f64 option \<Rightarrow> 'v item list option future \<Rightarrow>
     (u32 \<times> u8 \<times> 's payload) list option outcome"
where
  "hub_recv_batch eca conv timeout pulled =
     (case bounded eca timeout pulled of
        Finished (Inl e) \<Rightarrow> Finished (Inl e)
      | Finished (Inr None) \<Rightarrow> Finished (Inr None)
      | Finished (Inr (Some items)) \<Rightarrow>
          Finished (map_res Some (collect_res (map (batch_item eca conv) items)))
      | Panicked \<Rightarrow> Panicked
      | Waiting \<Rightarrow> Waiting)"

section \<open>Steps\<close>

text \<open>A control input comes from the task's channel; the channel ends once its sender is gone.\<close>

definition ctrl_input_ok :: "'v monitor_hub \<Rightarrow> nat \<Rightarrow> ctrl list \<Rightarrow> 'v act \<Rightarrow> bool" where
  "ctrl_input_ok h k cs a =
     (case a of
        React (Control (Some c)) \<Rightarrow> cs \<noteq> [] \<and> hd cs = c
      | React (Control None) \<Rightarrow> cs = [] \<and> (\<forall>i. hub_subs h i \<noteq> Some k)
      | _ \<Rightarrow> True)"

definition task_act :: "nat \<Rightarrow> 'v act \<Rightarrow> 'v monitor_hub \<Rightarrow> 'v monitor_hub" where
  "task_act k a h =
     (case hub_tasks h ! k of (args, t, cs) \<Rightarrow>
        h\<lparr>hub_tasks := (hub_tasks h)[k := (args, act args a t,
              case a of React (Control (Some _)) \<Rightarrow> tl cs | _ \<Rightarrow> cs)],
          hub_queue := (case a of Send it \<Rightarrow> hub_queue h @ [it] | _ \<Rightarrow> hub_queue h)\<rparr>)"

inductive hub_step :: "'v monitor_hub \<Rightarrow> 'v monitor_hub \<Rightarrow> bool" where
  do_subscribe: "hub_subscribe args name h = (h', i) \<Longrightarrow> hub_step h h'"
| do_ctrl: "hub_step h (send_ctrl i c h)"
| do_close_subscription: "hub_step h (close_subscription i h)"
| do_close: "hub_step h (hub_close h)"
| do_task: "k < length (hub_tasks h) \<Longrightarrow> hub_tasks h ! k = (args, t, cs) \<Longrightarrow>
    act_enabled (hub_open h) (length (hub_queue h) < QUEUE) t a \<Longrightarrow> ctrl_input_ok h k cs a \<Longrightarrow>
    hub_step h (task_act k a h)"
| do_recv_batch: "hub_open h \<Longrightarrow> hub_pull n (hub_queue h) = Some (batch, rest) \<Longrightarrow>
    hub_step h (h\<lparr>hub_queue := rest, hub_taken := hub_taken h @ batch\<rparr>)"

abbreviation hub_reachable :: "'v monitor_hub \<Rightarrow> bool" where
  "hub_reachable \<equiv> hub_step\<^sup>*\<^sup>* hub_new"

section \<open>Batches\<close>

lemma recv_more_split: "recv_more cap items xs = (b, r) \<Longrightarrow> b @ r = items @ xs"
  by (induction cap items xs rule: recv_more.induct) (auto split: if_splits)

lemma recv_more_length:
  "recv_more cap items xs = (b, r) \<Longrightarrow> length items \<le> cap \<Longrightarrow>
     length b = min cap (length items + length xs)"
  by (induction cap items xs rule: recv_more.induct) (auto split: if_splits)

lemma hub_pull_append: "hub_pull n q = Some (b, r) \<Longrightarrow> b @ r = q"
  by (auto simp: hub_pull_def split: list.splits dest: recv_more_split)

lemma batch_cap_pos: "Suc 0 \<le> batch_cap n"
  by (simp add: batch_cap_def)

text \<open>
  A batch is the front of the queue: as many items as are there, oldest first, at most
  \<open>max_items\<close> of them (no bound for 0), at least one, and what is not in it stays queued in order.
\<close>

theorem hub_batch_is_front:
  assumes "hub_pull n q = Some (batch, rest)"
  shows "batch @ rest = q \<and> batch \<noteq> [] \<and> length batch = min (batch_cap n) (length q)"
proof -
  from assms obtain x xs where q: "q = x # xs" "recv_more (batch_cap n) [x] xs = (batch, rest)"
    by (auto simp: hub_pull_def split: list.splits)
  then have "length batch = min (batch_cap n) (length q)"
    using recv_more_length [OF q(2)] batch_cap_pos [of n] by simp
  with q batch_cap_pos [of n] hub_pull_append [OF assms] show ?thesis by auto
qed

theorem hub_batch_is_front_witness: "[1, 2] @ [3 :: nat] = [1, 2, 3]"
  using hub_batch_is_front [of 2 "[1, 2, 3 :: nat]" "[1, 2]" "[3]"] by (simp add: hub_pull_def batch_cap_def)

section \<open>Invariant\<close>

definition of_sub :: "nat \<Rightarrow> 'v item list \<Rightarrow> 'v item list" where
  "of_sub k its = filter (\<lambda>it. item_id it = nth_id k) its"

lemma of_sub_simps [simp]:
  "of_sub k [] = []" "of_sub k (xs @ ys) = of_sub k xs @ of_sub k ys"
  "of_sub k [it] = (if item_id it = nth_id k then [it] else [])"
  by (simp_all add: of_sub_def)

definition task_ok :: "nat \<Rightarrow> subscribe_args \<times> 'v sub_task \<times> ctrl list \<Rightarrow> bool" where
  "task_ok k e \<longleftrightarrow>
     (case e of (args, t, cs) \<Rightarrow> \<exists>as name. task_run args as (new_task (nth_id k) name) = Some t)"

definition stream_ok :: "'v monitor_hub \<Rightarrow> nat \<Rightarrow> bool" where
  "stream_ok h k \<longleftrightarrow>
     (case hub_tasks h ! k of (args, t, cs) \<Rightarrow>
        prefix (of_sub k (hub_taken h @ hub_queue h)) (sub_out t) \<and>
        (hub_open h \<longrightarrow> of_sub k (hub_taken h @ hub_queue h) = sub_out t))"

definition hub_inv :: "'v monitor_hub \<Rightarrow> bool" where
  "hub_inv h \<longleftrightarrow>
     length (hub_queue h) \<le> QUEUE \<and>
     hub_next_id h = nth_id (length (hub_tasks h)) \<and>
     (\<forall>k < length (hub_tasks h). task_ok k (hub_tasks h ! k)) \<and>
     (\<forall>i k. hub_subs h i = Some k \<longrightarrow> k < length (hub_tasks h) \<and> i = nth_id k) \<and>
     (\<forall>it \<in> set (hub_taken h @ hub_queue h). \<exists>k < length (hub_tasks h). item_id it = nth_id k) \<and>
     (length (hub_tasks h) \<le> 2 ^ 32 \<longrightarrow> (\<forall>k < length (hub_tasks h). stream_ok h k))"

lemma hub_inv_new: "hub_inv hub_new"
  by (simp add: hub_inv_def hub_new_def nth_id_def QUEUE_def)

lemma hub_inv_subscribe:
  assumes "hub_inv h" and "hub_subscribe args name h = (h', i)"
  shows "hub_inv h'"
proof -
  let ?n = "length (hub_tasks h)"
  have h': "h' = h\<lparr>hub_next_id := nth_id ?n + 1, hub_subs := (hub_subs h)(nth_id ?n \<mapsto> ?n),
      hub_tasks := hub_tasks h @ [(args, new_task (nth_id ?n) name, [])]\<rparr>"
    using assms by (auto simp: hub_subscribe_def hub_inv_def Let_def)
  have fresh: "of_sub ?n (hub_taken h @ hub_queue h) = []" if "Suc ?n \<le> 2 ^ 32"
  proof -
    have "item_id it \<noteq> nth_id ?n" if it: "it \<in> set (hub_taken h @ hub_queue h)" for it
    proof -
      from assms(1) it obtain k where "k < ?n" "item_id it = nth_id k"
        unfolding hub_inv_def by blast
      with \<open>Suc ?n \<le> 2 ^ 32\<close> show ?thesis by (simp add: nth_id_inject)
    qed
    then show ?thesis by (simp add: of_sub_def filter_empty_conv)
  qed
  have "task_ok ?n (args, new_task (nth_id ?n) name, [])"
    unfolding task_ok_def prod.case by (intro exI [of _ "[]"] exI [of _ name]) simp
  with assms(1) have "\<forall>k < Suc ?n. task_ok k (hub_tasks h' ! k)"
    by (auto simp: hub_inv_def h' nth_append less_Suc_eq)
  moreover have "\<forall>k < Suc ?n. stream_ok h' k" if "Suc ?n \<le> 2 ^ 32"
    using assms(1) fresh [OF that] that
    by (auto simp: hub_inv_def stream_ok_def h' nth_append less_Suc_eq new_task_def)
  ultimately show ?thesis
    using assms(1) by (auto simp: hub_inv_def h' nth_id_def less_Suc_eq)
qed

lemma hub_inv_push_ctrl:
  assumes "hub_inv h" and "k < length (hub_tasks h)"
  shows "hub_inv (push_ctrl k c h)"
proof -
  have "task_ok j (hub_tasks (push_ctrl k c h) ! j)" if "j < length (hub_tasks h)" for j
    using assms that
    by (cases "j = k") (auto simp: hub_inv_def push_ctrl_def task_ok_def split: prod.splits dest: spec [of _ k])
  moreover have "stream_ok (push_ctrl k c h) j = stream_ok h j" if "j < length (hub_tasks h)" for j
    using that by (cases "j = k") (auto simp: push_ctrl_def stream_ok_def split: prod.splits)
  ultimately show ?thesis
    using assms by (simp add: hub_inv_def) (simp add: push_ctrl_def)
qed

lemma task_act_inv:
  assumes inv: "hub_inv h" and k: "k < length (hub_tasks h)" "hub_tasks h ! k = (args, t, cs)"
    and a: "act_enabled (hub_open h) (length (hub_queue h) < QUEUE) t a"
  shows "hub_inv (task_act k a h)"
proof -
  let ?h = "task_act k a h"
  from inv k obtain as name where run: "task_run args as (new_task (nth_id k) name) = Some t"
    by (auto simp: hub_inv_def task_ok_def)
  have run': "task_run args (as @ [a]) (new_task (nth_id k) name) = Some (act args a t)"
    using run act_enabled_ok [OF a] by (simp add: task_run_append)
  have tasks: "length (hub_tasks ?h) = length (hub_tasks h)"
    "j \<noteq> k \<Longrightarrow> hub_tasks ?h ! j = hub_tasks h ! j" for j
    using k by (auto simp: task_act_def)
  have "task_ok j (hub_tasks ?h ! j)" if "j < length (hub_tasks h)" for j
    using inv that run' k by (cases "j = k") (auto simp: hub_inv_def task_ok_def task_act_def)
  moreover have "length (hub_queue ?h) \<le> QUEUE"
    using inv a k by (auto simp: hub_inv_def task_act_def act_enabled_def split: act.splits)
  moreover have own: "item_id it = nth_id k" if "a = Send it" for it
    using a that run_invs(2) [OF run] run_names [OF run]
    by (auto simp: act_enabled_def end_inv_def all_items_def dest: hd_in_set)
  moreover have "stream_ok ?h j" if "j < length (hub_tasks h)" "length (hub_tasks h) \<le> 2 ^ 32" for j
  proof (cases "j = k")
    case True
    from inv that have "stream_ok h j" by (simp add: hub_inv_def)
    with True k a own show ?thesis
      by (auto simp: stream_ok_def task_act_def act_def act_enabled_def split: act.splits)
  next
    case False
    with that k(1) have "nth_id k \<noteq> nth_id j" by (simp add: nth_id_inject)
    moreover from inv that have "stream_ok h j" by (simp add: hub_inv_def)
    ultimately show ?thesis
      using False k own by (auto simp: stream_ok_def task_act_def split: act.splits prod.splits)
  qed
  moreover have "\<exists>k < length (hub_tasks h). item_id it = nth_id k"
    if "it \<in> set (hub_taken ?h @ hub_queue ?h)" for it
    using inv that own k by (auto simp: hub_inv_def task_act_def split: act.splits)
  moreover have "hub_subs ?h = hub_subs h" "hub_next_id ?h = hub_next_id h"
    using k by (simp_all add: task_act_def)
  ultimately show ?thesis
    using inv by (simp add: hub_inv_def tasks(1))
qed

lemma hub_step_inv: "hub_step h h' \<Longrightarrow> hub_inv h \<Longrightarrow> hub_inv h'"
proof (induction rule: hub_step.induct)
  case (do_subscribe args name h h' i)
  then show ?case by (blast intro: hub_inv_subscribe)
next
  case (do_ctrl h i c)
  then show ?case
    by (auto simp: send_ctrl_def hub_inv_def [of h] split: option.splits intro: hub_inv_push_ctrl)
next
  case (do_close_subscription h i)
  have "hub_inv (h\<lparr>hub_subs := (hub_subs h)(i := None)\<rparr>)"
    using do_close_subscription by (auto simp: hub_inv_def stream_ok_def)
  then show ?case
    using do_close_subscription
    by (auto simp: close_subscription_def split: option.splits intro!: hub_inv_push_ctrl) (auto simp: hub_inv_def)
next
  case (do_close h)
  have "stream_ok (hub_close h) k" if "stream_ok h k" for k
    using that by (auto simp: stream_ok_def hub_close_def dest: append_prefixD split: prod.splits)
  with do_close show ?case by (auto simp: hub_inv_def hub_close_def)
next
  case (do_task k h args t cs a)
  then show ?case by (blast intro: task_act_inv)
next
  case (do_recv_batch h n batch rest)
  then have q: "hub_queue h = batch @ rest" by (simp add: hub_pull_append)
  with do_recv_batch show ?case by (auto simp: hub_inv_def stream_ok_def split: prod.splits)
qed

lemma hub_reachable_inv: "hub_reachable h \<Longrightarrow> hub_inv h"
  by (induction rule: rtranclp_induct) (auto intro: hub_inv_new hub_step_inv)

section \<open>Properties\<close>

text \<open>
  C14. What reaches Python. In every reachable hub with at most \<open>2 ^ 32\<close> subscriptions, the items of
  the \<open>k\<close>-th one that were taken, followed by those still queued, are what its task has sent, in
  order and without loss (a prefix of it once the hub is closed); the stream is that of a run of
  the task, and the queue never holds more than \<open>QUEUE\<close> items.
\<close>

theorem hub_streams_in_order:
  assumes "hub_reachable h" and "length (hub_tasks h) \<le> 2 ^ 32"
    and "k < length (hub_tasks h)" and "hub_tasks h ! k = (args, t, cs)"
  shows "prefix (of_sub k (hub_taken h @ hub_queue h)) (sub_out t) \<and>
    (hub_open h \<longrightarrow> of_sub k (hub_taken h @ hub_queue h) = sub_out t) \<and>
    (\<exists>as name. task_run args as (new_task (nth_id k) name) = Some t) \<and>
    length (hub_queue h) \<le> QUEUE"
proof -
  have inv: "hub_inv h" using assms(1) by (rule hub_reachable_inv)
  then have "stream_ok h k" "task_ok k (hub_tasks h ! k)" "length (hub_queue h) \<le> QUEUE"
    using assms(2,3) unfolding hub_inv_def by blast+
  with assms(4) show ?thesis by (simp add: stream_ok_def task_ok_def)
qed

text \<open>A hub with one subscription, connected at once; Python took the item.\<close>

definition sample_hub :: "nat monitor_hub" where
  "sample_hub = \<lparr>hub_open = True, hub_queue = [], hub_subs = [1 \<mapsto> 0], hub_next_id = 2,
     hub_tasks = [(sample_args, (new_task 1 ''pv'')\<lparr>sub_connected := True, sub_deadline := Some 0,
        sub_phase := Connecting, sub_out := [ItemConnected 1]\<rparr>, [])],
     hub_taken = [ItemConnected 1]\<rparr>"

lemma sample_hub_reachable: "hub_reachable sample_hub"
proof -
  let ?a = "fst (hub_subscribe sample_args ''pv'' hub_new) :: nat monitor_hub"
  let ?b = "task_act 0 (React (Probed True)) ?a"
  let ?c = "task_act 0 (Send (ItemConnected 1)) ?b"
  have "hub_step hub_new ?a" by (rule do_subscribe [where i = 1]) (simp add: hub_subscribe_def hub_new_def)
  moreover have "hub_step ?a ?b"
    by (rule do_task [where args = sample_args and t = "new_task 1 ''pv''" and cs = "[]"])
      (simp_all add: hub_subscribe_def hub_new_def ctrl_input_ok_def act_enabled_def new_task_def)
  moreover have "hub_step ?b ?c"
    by (rule do_task [where args = sample_args and cs = "[]" and
          t = "(new_task 1 ''pv'')\<lparr>sub_connected := True, sub_deadline := Some 0, sub_phase := Connecting,
            sub_todo := [ItemConnected 1]\<rparr>"])
      (simp_all add: hub_subscribe_def hub_new_def ctrl_input_ok_def task_act_def QUEUE_def run_simps sample_args_def)
  moreover have "hub_step ?c (?c\<lparr>hub_queue := [], hub_taken := hub_taken ?c @ [ItemConnected 1]\<rparr>)"
    by (rule do_recv_batch [where n = 0])
      (simp_all add: hub_subscribe_def hub_new_def task_act_def hub_pull_def run_simps sample_args_def)
  moreover have "?c\<lparr>hub_queue := [], hub_taken := hub_taken ?c @ [ItemConnected 1]\<rparr> = sample_hub"
    by (simp add: hub_subscribe_def hub_new_def task_act_def sample_hub_def run_simps sample_args_def)
  ultimately show ?thesis
    by (metis rtranclp.rtrancl_into_rtrancl rtranclp.rtrancl_refl)
qed

theorem hub_streams_in_order_witness:
  "of_sub 0 (hub_taken sample_hub @ hub_queue sample_hub) = [ItemConnected 1]"
  using hub_streams_in_order [OF sample_hub_reachable, of 0] by (simp add: sample_hub_def)

text \<open>
  The ids of a hub name its subscriptions: the sender kept under an id is the one of the task
  with that id, so \<open>pause\<close>, \<open>resume\<close> and \<open>close_subscription\<close> append their message to the control
  channel of that task and change no other; after \<open>close_subscription\<close> the id is gone, the hub
  counts one less, and a repeated or later control call does nothing.
\<close>

theorem hub_control_is_routed:
  assumes "hub_reachable h" and "hub_subs h i = Some k" and "hub_tasks h ! k = (args, t, cs)"
  shows "sub_id t = i \<and> k < length (hub_tasks h) \<and>
    hub_tasks (send_ctrl i c h) = (hub_tasks h)[k := (args, t, cs @ [c])] \<and>
    hub_tasks (close_subscription i h) = (hub_tasks h)[k := (args, t, cs @ [CtrlClose])] \<and>
    hub_subs (close_subscription i h) = (hub_subs h)(i := None) \<and>
    send_ctrl i c (close_subscription i h) = close_subscription i h \<and>
    close_subscription i (close_subscription i h) = close_subscription i h \<and>
    hub_len (close_subscription i h) = hub_len h - 1"
proof -
  have inv: "hub_inv h" using assms(1) by (rule hub_reachable_inv)
  with assms(2) have k: "k < length (hub_tasks h)" "i = nth_id k" unfolding hub_inv_def by blast+
  with inv have "task_ok k (hub_tasks h ! k)" unfolding hub_inv_def by blast
  with assms(3) k have "sub_id t = i" by (auto simp: task_ok_def dest: run_names)
  moreover have "card (dom (hub_subs h) - {i}) = card (dom (hub_subs h)) - 1"
    using assms(2) by (intro card_Diff_singleton) blast
  ultimately show ?thesis
    using assms(2,3) k(1) by (simp add: send_ctrl_def close_subscription_def push_ctrl_def hub_len_def)
qed

theorem hub_control_is_routed_witness:
  "map (\<lambda>(args, t, cs). (sub_id t, cs)) (hub_tasks (close_subscription 1 sample_hub)) = [(1, [CtrlClose])] \<and>
   hub_len (close_subscription 1 sample_hub) = hub_len sample_hub - 1"
  using hub_control_is_routed [OF sample_hub_reachable, of 1 0] by (simp add: sample_hub_def new_task_def)

end
