(* ===== verification/CaMonitor.thy ===== *)
theory CaMonitor
  imports Errors
begin

text \<open>
  \<open>Monitor\<close> and \<open>CaSubscription\<close> of \<open>src/src/ca.rs\<close>: a monitor handle with the one item that
  \<open>recv_batch\<close> looked at and must hand out on the next call.

  The handle belongs to the client library and is a parameter: \<open>poll h\<close> is \<open>None\<close> while
  \<open>handle.recv()\<close> is pending, and otherwise its result with the handle it leaves (\<open>None\<close> for the
  end of the stream). What the code relies on is the contract \<open>item_source\<close>: a list of items comes
  out one by one, in order.
\<close>

section \<open>Sources of items\<close>

locale item_source =
  fixes poll :: "'s \<Rightarrow> ('i option \<times> 's) option"
    and content :: "'s \<Rightarrow> 'i list"
    and ok :: "'s \<Rightarrow> bool"
  assumes poll_item: "ok s \<Longrightarrow> poll s = Some (Some x, s') \<Longrightarrow> content s = x # content s' \<and> ok s'"
    and poll_end: "ok s \<Longrightarrow> poll s = Some (None, s') \<Longrightarrow> content s = [] \<and> content s' = [] \<and> ok s'"
    and poll_pending: "ok s \<Longrightarrow> poll s = None \<Longrightarrow> content s = []"
begin

lemma poll_content: "ok s \<Longrightarrow> poll s = Some (r, s') \<Longrightarrow> content s = (case r of None \<Rightarrow> [] | Some x \<Rightarrow> [x]) @ content s' \<and> ok s'"
  by (cases r) (auto dest: poll_item poll_end)

lemma content_polled:
  assumes "ok s" and "content s = x # xs"
  shows "\<exists>s'. poll s = Some (Some x, s') \<and> content s' = xs"
proof (cases "poll s")
  case None
  with assms show ?thesis by (auto dest: poll_pending)
next
  case (Some rs)
  obtain r s' where "rs = (r, s')" by (cases rs)
  with Some assms poll_content [of s r s'] poll_end [of s s'] show ?thesis by (cases r) auto
qed

end

text \<open>
  The receiving end of a channel, with what is in it and whether a sender is left, is such a
  source.
\<close>

definition chan_poll :: "'i list \<times> bool \<Rightarrow> ('i option \<times> 'i list \<times> bool) option" where
  "chan_poll q =
     (case q of
        (x # xs, senders) \<Rightarrow> Some (Some x, xs, senders)
      | ([], True) \<Rightarrow> None
      | ([], False) \<Rightarrow> Some (None, [], False))"

interpretation chan: item_source chan_poll fst "\<lambda>_. True"
  by unfold_locales (auto simp: chan_poll_def split: list.splits prod.splits bool.splits)

text \<open>A source of monitor updates, values and errors.\<close>

locale update_source = item_source poll content ok
  for poll :: "'s \<Rightarrow> ((rs_ca_error + 'v) option \<times> 's) option" and content and ok

interpretation updates: update_source
    "chan_poll :: (rs_ca_error + 'v) list \<times> bool \<Rightarrow> ((rs_ca_error + 'v) option \<times> (rs_ca_error + 'v) list \<times> bool) option"
    fst "\<lambda>_. True"
  by unfold_locales

section \<open>The monitor\<close>

type_synonym 'v update = "rs_ca_error + 'v"

record ('h, 'v) ca_monitor =
  handle :: 'h
  stashed :: "'v update option option"

text \<open>\<open>next\<close>, when it is ready, and \<open>try_next\<close>: the stash first.\<close>

definition try_next ::
  "('h \<Rightarrow> ('v update option \<times> 'h) option) \<Rightarrow> ('h, 'v) ca_monitor \<Rightarrow>
     ('v update option \<times> ('h, 'v) ca_monitor) option"
where
  "try_next poll m =
     (case stashed m of
        Some item \<Rightarrow> Some (item, m\<lparr>stashed := None\<rparr>)
      | None \<Rightarrow> map_option (\<lambda>(item, h). (item, m\<lparr>handle := h\<rparr>)) (poll (handle m)))"

definition monitor_new :: "'h \<Rightarrow> ('h, 'v) ca_monitor" where
  "monitor_new h = \<lparr>handle = h, stashed = None\<rparr>"

text \<open>The \<open>while items.len() < cap\<close> loop of \<open>do_recv_batch\<close>.\<close>

function batch_loop ::
  "('h \<Rightarrow> ('v update option \<times> 'h) option) \<Rightarrow> nat \<Rightarrow> 'v list \<Rightarrow> ('h, 'v) ca_monitor \<Rightarrow>
     'v list \<times> ('h, 'v) ca_monitor"
where
  "batch_loop poll cap items m =
     (if length items < cap then
        (case try_next poll m of
           None \<Rightarrow> (items, m)
         | Some (Some (Inr v), m') \<Rightarrow> batch_loop poll cap (items @ [v]) m'
         | Some (other, m') \<Rightarrow> (items, m'\<lparr>stashed := Some other\<rparr>))
      else (items, m))"
  by pat_completeness auto
termination by (relation "measure (\<lambda>(poll, cap, items, m). cap - length items)") auto

declare batch_loop.simps [simp del]

text \<open>The future \<open>do_recv_batch\<close> pulls, and the one of \<open>do_recv\<close>; \<open>None\<close> while it is pending.\<close>

definition batch_future ::
  "('h \<Rightarrow> ('v update option \<times> 'h) option) \<Rightarrow> nat \<Rightarrow> ('h, 'v) ca_monitor \<Rightarrow>
     ((rs_ca_error + 'v list option) \<times> ('h, 'v) ca_monitor) option"
where
  "batch_future poll max_items m =
     (let cap = (if max_items = 0 then 2 ^ 64 - 1 else max_items) in
      case try_next poll m of
        None \<Rightarrow> None
      | Some (None, m') \<Rightarrow> Some (Inr None, m')
      | Some (Some (Inl e), m') \<Rightarrow> Some (Inl e, m')
      | Some (Some (Inr v), m') \<Rightarrow>
          (case batch_loop poll cap [v] m' of (items, m'') \<Rightarrow> Some (Inr (Some items), m'')))"

text \<open>What the two calls make of the result; \<open>conv\<close> is \<open>Snapshot::from_rs\<close>.\<close>

definition convert ::
  "eca_lib \<Rightarrow> (string \<Rightarrow> 'v \<Rightarrow> 's res) \<Rightarrow> string \<Rightarrow> 'v update option \<Rightarrow> 's option res"
where
  "convert eca conv name item =
     (case item of
        None \<Rightarrow> Inr None
      | Some (Inl e) \<Rightarrow> Inl (map_ca eca e)
      | Some (Inr snap) \<Rightarrow> map_res Some (conv name snap))"

definition sub_recv ::
  "eca_lib \<Rightarrow> (string \<Rightarrow> 'v \<Rightarrow> 's res) \<Rightarrow> string \<Rightarrow> f64 option \<Rightarrow> 'v update option future \<Rightarrow> 's option outcome"
where
  "sub_recv eca conv name timeout pulled =
     (case bounded eca timeout pulled of
        Finished (Inl e) \<Rightarrow> Finished (Inl e)
      | Finished (Inr item) \<Rightarrow> Finished (convert eca conv name item)
      | Panicked \<Rightarrow> Panicked
      | Waiting \<Rightarrow> Waiting)"

definition sub_recv_batch ::
  "eca_lib \<Rightarrow> (string \<Rightarrow> 'v \<Rightarrow> 's res) \<Rightarrow> string \<Rightarrow> f64 option \<Rightarrow>
     (rs_ca_error + 'v list option) future \<Rightarrow> 's list option outcome"
where
  "sub_recv_batch eca conv name timeout pulled =
     (case bounded eca timeout pulled of
        Finished (Inl e) \<Rightarrow> Finished (Inl e)
      | Finished (Inr (Inl e)) \<Rightarrow> Finished (Inl (map_ca eca e))
      | Finished (Inr (Inr None)) \<Rightarrow> Finished (Inr None)
      | Finished (Inr (Inr (Some items))) \<Rightarrow>
          Finished (map_res Some (collect_res (map (conv name) items)))
      | Panicked \<Rightarrow> Panicked
      | Waiting \<Rightarrow> Waiting)"

section \<open>The monitor is a source again\<close>

definition monitor_content :: "('h \<Rightarrow> 'v update list) \<Rightarrow> ('h, 'v) ca_monitor \<Rightarrow> 'v update list" where
  "monitor_content content m =
     (case stashed m of Some (Some x) \<Rightarrow> x # content (handle m) | _ \<Rightarrow> content (handle m))"

definition monitor_ok :: "('h \<Rightarrow> 'v update list) \<Rightarrow> ('h \<Rightarrow> bool) \<Rightarrow> ('h, 'v) ca_monitor \<Rightarrow> bool" where
  "monitor_ok content ok m \<longleftrightarrow>
     ok (handle m) \<and> (stashed m = Some None \<longrightarrow> content (handle m) = [])"

sublocale update_source \<subseteq> mon: item_source "try_next poll" "monitor_content content" "monitor_ok content ok"
proof unfold_locales
  fix m m' :: "('s, 'v) ca_monitor" and x
  assume "monitor_ok content ok m" and "try_next poll m = Some (Some x, m')"
  then show "monitor_content content m = x # monitor_content content m' \<and> monitor_ok content ok m'"
    by (auto simp: try_next_def monitor_content_def monitor_ok_def split: option.splits dest: poll_item)
next
  fix m m' :: "('s, 'v) ca_monitor"
  assume "monitor_ok content ok m" and "try_next poll m = Some (None, m')"
  then show "monitor_content content m = [] \<and> monitor_content content m' = [] \<and> monitor_ok content ok m'"
    by (auto simp: try_next_def monitor_content_def monitor_ok_def split: option.splits dest: poll_end)
next
  fix m :: "('s, 'v) ca_monitor"
  assume "monitor_ok content ok m" and "try_next poll m = None"
  then show "monitor_content content m = []"
    by (auto simp: try_next_def monitor_content_def monitor_ok_def split: option.splits dest: poll_pending)
qed

section \<open>Nothing is lost\<close>

text \<open>The two ways to take from a subscription, and what a result says was handed out.\<close>

datatype call = Recv | RecvBatch nat

datatype 'v answer = One "'v update option" | Batch "rs_ca_error + 'v list option"

definition take_call ::
  "('h \<Rightarrow> ('v update option \<times> 'h) option) \<Rightarrow> call \<Rightarrow> ('h, 'v) ca_monitor \<Rightarrow>
     ('v answer \<times> ('h, 'v) ca_monitor) option"
where
  "take_call poll c m =
     (case c of
        Recv \<Rightarrow> map_option (\<lambda>(item, m'). (One item, m')) (try_next poll m)
      | RecvBatch n \<Rightarrow> map_option (\<lambda>(b, m'). (Batch b, m')) (batch_future poll n m))"

fun take_calls ::
  "('h \<Rightarrow> ('v update option \<times> 'h) option) \<Rightarrow> call list \<Rightarrow> ('h, 'v) ca_monitor \<Rightarrow>
     'v answer list \<times> ('h, 'v) ca_monitor"
where
  "take_calls poll [] m = ([], m)"
| "take_calls poll (c # cs) m =
     (case take_call poll c m of
        None \<Rightarrow> ([], m)
      | Some (a, m') \<Rightarrow> (case take_calls poll cs m' of (as, m'') \<Rightarrow> (a # as, m'')))"

fun handed_out :: "'v answer \<Rightarrow> 'v update list" where
  "handed_out (One None) = []"
| "handed_out (One (Some x)) = [x]"
| "handed_out (Batch (Inl e)) = [Inl e]"
| "handed_out (Batch (Inr None)) = []"
| "handed_out (Batch (Inr (Some vs))) = map Inr vs"

context update_source
begin

lemma try_next_unstashed: "try_next poll m = Some (r, m') \<Longrightarrow> stashed m' = None"
  by (auto simp: try_next_def split: option.splits)

lemma stash_back:
  assumes "monitor_ok content ok m" and "try_next poll m = Some (r, m')"
  shows "monitor_content content (m'\<lparr>stashed := Some r\<rparr>) = monitor_content content m \<and>
    monitor_ok content ok (m'\<lparr>stashed := Some r\<rparr>)"
  using mon.poll_content [OF assms] mon.poll_end [OF assms(1), of m'] assms(2) try_next_unstashed [OF assms(2)]
  by (cases r) (auto simp: monitor_content_def monitor_ok_def)

lemma batch_loop_content:
  assumes "batch_loop poll cap items m = (items', m')" and "monitor_ok content ok m"
  shows "map Inr items @ monitor_content content m = map Inr items' @ monitor_content content m' \<and>
    monitor_ok content ok m' \<and> length items \<le> length items' \<and> length items' \<le> max cap (length items)"
  using assms
proof (induction "cap - length items" arbitrary: items m rule: less_induct)
  case less
  show ?case
  proof (cases "length items < cap")
    case False
    with less.prems show ?thesis by (subst (asm) batch_loop.simps) auto
  next
    case True
    show ?thesis
    proof (cases "try_next poll m")
      case None
      with less.prems True show ?thesis by (subst (asm) batch_loop.simps) auto
    next
      case (Some rm)
      obtain r n where rm: "rm = (r, n)" by (cases rm)
      note next' = Some [unfolded rm]
      show ?thesis
      proof (cases "\<exists>v. r = Some (Inr v)")
        case True': True
        then obtain v where v: "r = Some (Inr v)" by blast
        have rec: "batch_loop poll cap (items @ [v]) n = (items', m')"
          using less.prems(1) True next' v by (subst (asm) batch_loop.simps) auto
        have n: "monitor_ok content ok n" "monitor_content content m = Inr v # monitor_content content n"
          using mon.poll_item [OF less.prems(2)] next' v by auto
        have "cap - length (items @ [v]) < cap - length items" using True by simp
        from less.hyps [OF this rec n(1)] n(2) True show ?thesis by auto
      next
        case False
        then have "items' = items" "m' = n\<lparr>stashed := Some r\<rparr>"
          using less.prems(1) True next' by (subst (asm) batch_loop.simps, auto split: option.splits sum.splits)+
        with stash_back [OF less.prems(2) next'] show ?thesis by auto
      qed
    qed
  qed
qed

lemma take_call_content:
  assumes "take_call poll c m = Some (a, m')" and "monitor_ok content ok m"
  shows "monitor_content content m = handed_out a @ monitor_content content m' \<and> monitor_ok content ok m'"
proof (cases c)
  case Recv
  with assms mon.poll_content [OF assms(2)] show ?thesis
    by (auto simp: take_call_def split: option.splits)
next
  case (RecvBatch k)
  with assms(1) obtain r n where n: "try_next poll m = Some (r, n)"
    by (auto simp: take_call_def batch_future_def Let_def split: option.splits)
  note p = mon.poll_content [OF assms(2) n]
  let ?cap = "if k = 0 then 2 ^ 64 - 1 else k"
  show ?thesis
  proof (cases "\<exists>v. r = Some (Inr v)")
    case True
    then obtain v where v: "r = Some (Inr v)" by blast
    obtain items n' where l: "batch_loop poll ?cap [v] n = (items, n')" by (cases "batch_loop poll ?cap [v] n")
    with RecvBatch assms(1) n v have "a = Batch (Inr (Some items))" "m' = n'"
      by (auto simp: take_call_def batch_future_def Let_def)
    with batch_loop_content [OF l] p v show ?thesis by auto
  next
    case False
    with RecvBatch assms(1) n p show ?thesis
      by (auto simp: take_call_def batch_future_def Let_def split: option.splits sum.splits)
  qed
qed

lemma take_calls_content:
  "take_calls poll cs m = (as, m') \<Longrightarrow> monitor_ok content ok m \<Longrightarrow>
     monitor_content content m = concat (map handed_out as) @ monitor_content content m'"
  by (induction cs arbitrary: m as) (auto split: option.splits prod.splits dest!: take_call_content)

end

section \<open>Properties\<close>

text \<open>
  C34. A subscription loses, repeats and reorders nothing: whatever mix of \<open>recv\<close> and
  \<open>recv_batch\<close> calls with whatever caps is made, the updates and errors they hand out, one after
  the other, followed by what is left in the stash and the handle, are what the handle had.
\<close>

theorem subscription_hands_out_all:
  assumes "update_source poll content ok" and "ok h"
    and "take_calls poll cs (monitor_new h) = (as, m)"
  shows "content h = concat (map handed_out as) @ monitor_content content m"
  using update_source.take_calls_content [OF assms(1,3)] assms(2)
  by (simp add: monitor_new_def monitor_ok_def monitor_content_def)

theorem subscription_hands_out_all_witness:
  "concat (map handed_out [Batch (Inr (Some [1 :: nat, 2])), One (Some (Inl RsDisconnected)), Batch (Inr (Some [3]))])
     = [Inr 1, Inr 2, Inl RsDisconnected, Inr 3]"
proof -
  let ?q = "([Inr 1, Inr 2, Inl RsDisconnected, Inr (3 :: nat)], False)"
  have "take_calls chan_poll [RecvBatch 0, Recv, RecvBatch 1] (monitor_new ?q) =
      ([Batch (Inr (Some [1, 2])), One (Some (Inl RsDisconnected)), Batch (Inr (Some [3]))],
       monitor_new ([], False))"
    by (simp add: take_call_def batch_future_def try_next_def monitor_new_def chan_poll_def batch_loop.simps)
  from subscription_hands_out_all [OF updates.update_source_axioms _ this] show ?thesis
    by (simp add: monitor_new_def monitor_content_def)
qed

lemma batch_loop_maximal:
  assumes "batch_loop poll cap items m = (items', m')" and "length items' < cap"
  shows "\<nexists>v n. try_next poll m' = Some (Some (Inr v), n)"
  using assms
proof (induction poll cap items m rule: batch_loop.induct)
  case (1 poll cap items m)
  show ?case
  proof (cases "length items < cap")
    case False
    with "1.prems" show ?thesis by (subst (asm) batch_loop.simps) auto
  next
    case True
    show ?thesis
    proof (cases "\<exists>v n. try_next poll m = Some (Some (Inr v), n)")
      case True': True
      then obtain v n where n: "try_next poll m = Some (Some (Inr v), n)" by blast
      then have "batch_loop poll cap (items @ [v]) n = (items', m')"
        using "1.prems"(1) True by (subst (asm) batch_loop.simps) auto
      from "1.IH" [OF True n refl refl refl this "1.prems"(2)] show ?thesis .
    next
      case False
      with "1.prems" True show ?thesis
        by (subst (asm) batch_loop.simps)
          (auto simp: try_next_def split: option.splits sum.splits)
    qed
  qed
qed

lemma batch_loop_grows:
  "batch_loop poll cap items m = (items', m') \<Longrightarrow>
     length items \<le> length items' \<and> length items' \<le> max cap (length items)"
proof (induction poll cap items m rule: batch_loop.induct)
  case (1 poll cap items m)
  show ?case
  proof (cases "\<exists>v n. length items < cap \<and> try_next poll m = Some (Some (Inr v), n)")
    case True
    then obtain v n where n: "length items < cap" "try_next poll m = Some (Some (Inr v), n)" by blast
    then have "batch_loop poll cap (items @ [v]) n = (items', m')"
      using "1.prems" by (subst (asm) batch_loop.simps) auto
    from "1.IH" [OF n refl refl refl this] n(1) show ?thesis by auto
  next
    case False
    with "1.prems" show ?thesis
      by (subst (asm) batch_loop.simps) (auto split: if_splits option.splits sum.splits)
  qed
qed

text \<open>
  A batch is not empty, respects its cap (no cap for 0) and is as long as it can be: if it is
  shorter than the cap, what comes next is not an update that was already there, but an error,
  the end of the stream, or nothing yet.
\<close>

theorem subscription_batch_is_maximal:
  assumes "batch_future poll n m = Some (Inr (Some items), m')"
  shows "items \<noteq> [] \<and> (0 < n \<longrightarrow> length items \<le> n) \<and>
    (length items < (if n = 0 then 2 ^ 64 - 1 else n) \<longrightarrow>
       (\<nexists>v u. try_next poll m' = Some (Some (Inr v), u)))"
proof -
  let ?cap = "if n = 0 then 2 ^ 64 - 1 else n"
  from assms obtain v u where l: "batch_loop poll ?cap [v] u = (items, m')"
    by (auto simp: batch_future_def Let_def split: option.splits sum.splits prod.splits)
  have "1 \<le> length items" "length items \<le> max ?cap 1" using batch_loop_grows [OF l] by auto
  moreover have "\<nexists>v u. try_next poll m' = Some (Some (Inr v), u)" if "length items < ?cap"
    using batch_loop_maximal [OF l that] .
  ultimately show ?thesis by (auto simp: max_def split: if_splits)
qed

theorem subscription_batch_is_maximal_witness:
  "length [1, 2 :: nat] \<le> 3 \<and>
    (\<nexists>v u. try_next chan_poll \<lparr>handle = ([Inr (9 :: nat)], True), stashed = Some (Some (Inl RsTimeout))\<rparr> =
       Some (Some (Inr v), u))"
proof -
  have "batch_future chan_poll 3 (monitor_new ([Inr 1, Inr 2, Inl RsTimeout, Inr (9 :: nat)], True)) =
      Some (Inr (Some [1, 2]), \<lparr>handle = ([Inr 9], True), stashed = Some (Some (Inl RsTimeout))\<rparr>)"
    by (simp add: batch_future_def try_next_def monitor_new_def chan_poll_def batch_loop.simps)
  from subscription_batch_is_maximal [OF this] show ?thesis by simp
qed

end
