(* ===== verification/CaServer.thy ===== *)
theory CaServer
  imports Errors WorkQueue "HOL-Library.Sublist"
begin

text \<open>
  The Channel Access server side, \<open>src/src/ca_server.rs\<close>: operations that are answered once, the
  value state of a served PV, the write hook, the provider's table, the port choice and the server
  object. The work queue is theory \<open>WorkQueue\<close>.

  The database \<open>PvDatabase\<close> and its cells belong to the server library: a record of functions over
  a database state \<open>'d\<close>, whose documented behaviour is the locale \<open>pv_database\<close>.
\<close>

section \<open>Answering once\<close>

text \<open>
  The contract of an operation that is answered at most once: the first call is accepted and has
  its effect, every later one is refused and has none.
\<close>

fun calls_of :: "('a \<Rightarrow> 's \<Rightarrow> 'e list \<times> unit res \<times> 's) \<Rightarrow> 'a list \<Rightarrow> 's \<Rightarrow> 'e list \<times> unit res list" where
  "calls_of call [] s = ([], [])"
| "calls_of call (a # as) s =
     (case call a s of (es, r, s') \<Rightarrow>
        (case calls_of call as s' of (es', rs) \<Rightarrow> (es @ es', r # rs)))"

locale take_once =
  fixes call :: "'a \<Rightarrow> 's \<Rightarrow> 'e list \<times> unit res \<times> 's"
    and spent :: "'s \<Rightarrow> bool"
    and effect :: "'a \<Rightarrow> 's \<Rightarrow> 'e list"
  assumes first_call: "\<not> spent s \<Longrightarrow> \<exists>s'. call a s = (effect a s, Inr (), s') \<and> spent s'"
    and later_call: "spent s \<Longrightarrow> \<exists>e. call a s = ([], Inl e, s)"
begin

lemma calls_spent:
  "spent s \<Longrightarrow> fst (calls_of call as s) = [] \<and> (\<forall>r \<in> set (snd (calls_of call as s)). \<exists>e. r = Inl e)"
proof (induction as)
  case (Cons a as)
  then obtain e where "call a s = ([], Inl e, s)" using later_call by blast
  with Cons show ?case by (auto split: prod.splits)
qed simp

lemma calls_once:
  assumes "\<not> spent s"
  shows "fst (calls_of call (a # as) s) = effect a s \<and>
    (\<exists>rs. snd (calls_of call (a # as) s) = Inr () # rs \<and> (\<forall>r \<in> set rs. \<exists>e. r = Inl e))"
proof -
  obtain s' where "call a s = (effect a s, Inr (), s')" "spent s'"
    using first_call [OF assms] by blast
  with calls_spent [of s' as] show ?thesis by (auto split: prod.splits)
qed

end

text \<open>\<open>CaServerOperation::done\<close>. A verdict goes to the client only for a put callback.\<close>

datatype ca_reply = ReplyNotify | ReplyPlain | ReplyDone

datatype verdict = Succeed | Fail

text \<open>\<open>WriteContext\<close>: who writes. User and host are bytes.\<close>

record write_context =
  wc_peer :: string
  wc_user :: string
  wc_host :: string

record 'v ca_operation =
  cop_name :: string
  cop_value :: 'v
  cop_ctx :: write_context
  cop_reply :: ca_reply

definition ca_done :: "string option \<Rightarrow> 'v ca_operation \<Rightarrow> verdict list \<times> unit res \<times> 'v ca_operation" where
  "ca_done error op =
     (let op' = op\<lparr>cop_reply := ReplyDone\<rparr> in
      case cop_reply op of
        ReplyDone \<Rightarrow> ([], Inl (ValueError (Msg ''done() already called'' [])), op')
      | ReplyPlain \<Rightarrow> ([], Inr (), op')
      | ReplyNotify \<Rightarrow> ([case error of Some _ \<Rightarrow> Fail | None \<Rightarrow> Succeed], Inr (), op'))"

definition ca_verdict :: "string option \<Rightarrow> 'v ca_operation \<Rightarrow> verdict list" where
  "ca_verdict error op =
     (if cop_reply op = ReplyNotify then [case error of Some _ \<Rightarrow> Fail | None \<Rightarrow> Succeed] else [])"

lemma ca_operation_reply_id: "cop_reply op = r \<Longrightarrow> op\<lparr>cop_reply := r\<rparr> = op"
  by (cases op) simp

interpretation ca_once: take_once ca_done "\<lambda>op. cop_reply op = ReplyDone" ca_verdict
proof unfold_locales
  fix op :: "'v ca_operation" and a
  assume "cop_reply op \<noteq> ReplyDone"
  then show "\<exists>op'. ca_done a op = (ca_verdict a op, Inr (), op') \<and> cop_reply op' = ReplyDone"
    by (cases "cop_reply op") (auto simp: ca_done_def ca_verdict_def Let_def)
next
  fix op :: "'v ca_operation" and a
  assume "cop_reply op = ReplyDone"
  then show "\<exists>e. ca_done a op = ([], Inl e, op)"
    by (auto simp: ca_done_def Let_def ca_operation_reply_id)
qed

section \<open>The database of the server library\<close>

record ('d, 'v) db_ops =
  db_add :: "nat \<Rightarrow> string \<Rightarrow> 'v \<Rightarrow> 'd \<Rightarrow> rs_ca_error option \<times> 'd"
  db_find :: "nat \<Rightarrow> string \<Rightarrow> 'd \<Rightarrow> nat option"
  db_remove :: "nat \<Rightarrow> string \<Rightarrow> 'd \<Rightarrow> 'd"
  cell_set :: "nat \<Rightarrow> 'v \<Rightarrow> 'd \<Rightarrow> 'd"
  cell_get :: "nat \<Rightarrow> 'd \<Rightarrow> 'v"

text \<open>
  What the code relies on: an added PV is found, its cell holds the value it was added with, and a
  cell holds what was last set.
\<close>

locale pv_database =
  fixes L :: "('d, 'v) db_ops"
  assumes add_find: "db_add L b n v d = (None, d') \<Longrightarrow> db_find L b n d' = Some c \<Longrightarrow> cell_get L c d' = v"
    and set_get: "cell_get L c (cell_set L c v d) = v"

section \<open>The value state of a served PV\<close>

datatype 'v value_state = Closed | Detached 'v | Serving nat

record 'v ca_entry =
  ce_state :: "'v value_state"
  ce_reg :: "(nat \<times> string) option"
  ce_name :: "string option"

definition ca_entry_new :: "'v ca_entry" where
  "ca_entry_new = \<lparr>ce_state = Closed, ce_reg = None, ce_name = None\<rparr>"

definition install ::
  "eca_lib \<Rightarrow> ('d, 'v) db_ops \<Rightarrow> nat \<Rightarrow> string \<Rightarrow> 'v \<Rightarrow> 'd \<Rightarrow> nat res \<times> 'd"
where
  "install eca L b name value d =
     (case db_add L b name value d of
        (Some e, d') \<Rightarrow> (Inl (map_ca_write eca e), d')
      | (None, d') \<Rightarrow>
          (case db_find L b name d' of
             None \<Rightarrow> (Inl (CaError (Msg ''registered PV not found'' []) 0), d')
           | Some c \<Rightarrow> (Inr c, d')))"

definition ca_open ::
  "eca_lib \<Rightarrow> ('d, 'v) db_ops \<Rightarrow> 'v \<Rightarrow> 'v ca_entry \<times> 'd \<Rightarrow> unit res \<times> 'v ca_entry \<times> 'd"
where
  "ca_open eca L value ed =
     (case ed of (e, d) \<Rightarrow>
        (case ce_state e of
           Serving c \<Rightarrow> (Inr (), e, cell_set L c value d)
         | _ \<Rightarrow>
             (case ce_reg e of
                Some (b, name) \<Rightarrow>
                  (case install eca L b name value d of
                     (Inl err, d') \<Rightarrow> (Inl err, e, d')
                   | (Inr c, d') \<Rightarrow> (Inr (), e\<lparr>ce_state := Serving c\<rparr>, d'))
              | None \<Rightarrow> (Inr (), e\<lparr>ce_state := Detached value\<rparr>, d))))"

definition ca_post ::
  "('d, 'v) db_ops \<Rightarrow> 'v \<Rightarrow> 'v ca_entry \<times> 'd \<Rightarrow> unit res \<times> 'v ca_entry \<times> 'd"
where
  "ca_post L value ed =
     (case ed of (e, d) \<Rightarrow>
        (case ce_state e of
           Serving c \<Rightarrow> (Inr (), e, cell_set L c value d)
         | Detached _ \<Rightarrow> (Inr (), e\<lparr>ce_state := Detached value\<rparr>, d)
         | Closed \<Rightarrow> (Inl (CaError (Msg ''SharedPV not open'' []) 0), e, d)))"

definition ca_close :: "('d, 'v) db_ops \<Rightarrow> 'v ca_entry \<times> 'd \<Rightarrow> 'v ca_entry \<times> 'd" where
  "ca_close L ed =
     (case ed of (e, d) \<Rightarrow>
        (e\<lparr>ce_state := Closed\<rparr>,
         case ce_state e of
           Serving _ \<Rightarrow> (case ce_reg e of Some (b, name) \<Rightarrow> db_remove L b name d | None \<Rightarrow> d)
         | _ \<Rightarrow> d))"

definition ca_current :: "('d, 'v) db_ops \<Rightarrow> 'v ca_entry \<times> 'd \<Rightarrow> 'v option" where
  "ca_current L ed =
     (case ed of (e, d) \<Rightarrow>
        (case ce_state e of
           Serving c \<Rightarrow> Some (cell_get L c d)
         | Detached v \<Rightarrow> Some v
         | Closed \<Rightarrow> None))"

definition ca_is_open :: "'v ca_entry \<Rightarrow> bool" where
  "ca_is_open e = (case ce_state e of Closed \<Rightarrow> False | _ \<Rightarrow> True)"

text \<open>\<open>name.set\<close> of a \<open>OnceLock\<close> keeps the first name.\<close>

definition ca_adopt ::
  "eca_lib \<Rightarrow> ('d, 'v) db_ops \<Rightarrow> nat \<Rightarrow> string \<Rightarrow> 'v ca_entry \<times> 'd \<Rightarrow> unit res \<times> 'v ca_entry \<times> 'd"
where
  "ca_adopt eca L b name ed =
     (case ed of (e, d) \<Rightarrow>
        (case ce_state e of
           Serving _ \<Rightarrow> (Inl (ValueError (Msg ''PV {name:?} is already served'' [AStr name])), e, d)
         | Closed \<Rightarrow> (Inl (ValueError (Msg ''PV {name:?} was never opened'' [AStr name])), e, d)
         | Detached value \<Rightarrow>
             (case install eca L b name value d of
                (Inl err, d') \<Rightarrow> (Inl err, e, d')
              | (Inr c, d') \<Rightarrow>
                  (Inr (), e\<lparr>ce_name := (case ce_name e of None \<Rightarrow> Some name | Some n \<Rightarrow> Some n),
                     ce_reg := Some (b, name), ce_state := Serving c\<rparr>, d'))))"

section \<open>The write hook\<close>

datatype 'v pv_write = WriteValue 'v | WriteAlarmAck

datatype 'v ca_event = CaPutEvent 'v

text \<open>
  The hook refuses an alarm acknowledgement; otherwise it returns the forward, which makes the
  operation (with a reply slot for a put callback) and sends it to the queue.
\<close>

definition hook_forward ::
  "string option \<Rightarrow> 'v \<Rightarrow> write_context \<Rightarrow> bool \<Rightarrow> 'v ca_operation ca_event workq \<Rightarrow>
     rs_ca_error option \<times> 'v ca_operation ca_event workq"
where
  "hook_forward name value ctx notify q =
     (let op = \<lparr>cop_name = (case name of Some n \<Rightarrow> n | None \<Rightarrow> []), cop_value = value,
                cop_ctx = ctx, cop_reply = (if notify then ReplyNotify else ReplyPlain)\<rparr>
      in case workq_send (CaPutEvent op) q of
           (q', True) \<Rightarrow> (None, q')
         | (q', False) \<Rightarrow> (Some (RsInvalidValue ''SharedPV handler queue is stopped''), q'))"

definition write_hook ::
  "string option \<Rightarrow> 'v pv_write \<Rightarrow> write_context \<Rightarrow>
     (bool \<Rightarrow> 'v ca_operation ca_event workq \<Rightarrow> rs_ca_error option \<times> 'v ca_operation ca_event workq) option"
where
  "write_hook name write ctx =
     (case write of
        WriteValue value \<Rightarrow> Some (hook_forward name value ctx)
      | WriteAlarmAck \<Rightarrow> None)"

section \<open>Provider\<close>

text \<open>
  The contract of a provider's table, which both providers share: a name is added once, removing
  frees it, and \<open>keys\<close> lists the names in order.
\<close>

datatype 'a table_op = TableAdd string 'a | TableRemove string

fun table_run ::
  "(string \<Rightarrow> 'a \<Rightarrow> 't \<Rightarrow> unit res \<times> 't) \<Rightarrow> (string \<Rightarrow> 't \<Rightarrow> 'a option \<times> 't) \<Rightarrow> 'a table_op list \<Rightarrow> 't \<Rightarrow> 't"
where
  "table_run add remove [] t = t"
| "table_run add remove (TableAdd n a # ops) t = table_run add remove ops (snd (add n a t))"
| "table_run add remove (TableRemove n # ops) t = table_run add remove ops (snd (remove n t))"

text \<open>The specification: the first \<open>add\<close> of a name stays until the name is removed.\<close>

fun table_spec :: "'a table_op list \<Rightarrow> (string \<Rightarrow> 'a option) \<Rightarrow> string \<Rightarrow> 'a option" where
  "table_spec [] m = m"
| "table_spec (TableAdd n a # ops) m = table_spec ops (if m n = None then m(n \<mapsto> a) else m)"
| "table_spec (TableRemove n # ops) m = table_spec ops (m(n := None))"

locale pv_table =
  fixes add :: "string \<Rightarrow> 'a \<Rightarrow> 't \<Rightarrow> unit res \<times> 't"
    and remove :: "string \<Rightarrow> 't \<Rightarrow> 'a option \<times> 't"
    and keys :: "'t \<Rightarrow> string list"
    and lookup :: "'t \<Rightarrow> string \<Rightarrow> 'a option"
    and ok :: "'t \<Rightarrow> bool"
  assumes add_ok: "ok t \<Longrightarrow> ok (snd (add n a t))"
    and remove_ok: "ok t \<Longrightarrow> ok (snd (remove n t))"
    and add_result: "ok t \<Longrightarrow> fst (add n a t) = Inr () \<longleftrightarrow> lookup t n = None"
    and add_lookup: "ok t \<Longrightarrow> lookup (snd (add n a t)) = (if lookup t n = None then (lookup t)(n \<mapsto> a) else lookup t)"
    and remove_result: "ok t \<Longrightarrow> fst (remove n t) = lookup t n"
    and remove_lookup: "ok t \<Longrightarrow> lookup (snd (remove n t)) = (lookup t)(n := None)"
    and keys_sorted: "ok t \<Longrightarrow> sorted (keys t) \<and> distinct (keys t) \<and> set (keys t) = dom (lookup t)"
begin

lemma run_lookup: "ok t \<Longrightarrow> ok (table_run add remove ops t) \<and> lookup (table_run add remove ops t) = table_spec ops (lookup t)"
proof (induction ops arbitrary: t)
  case (Cons x ops)
  then show ?case
    by (cases x) (auto simp: add_ok remove_ok add_lookup remove_lookup fun_upd_def)
qed simp

lemma run_keys:
  "ok t \<Longrightarrow> sorted (keys (table_run add remove ops t)) \<and> distinct (keys (table_run add remove ops t)) \<and>
     set (keys (table_run add remove ops t)) = dom (table_spec ops (lookup t))"
  using run_lookup [of t ops] keys_sorted [of "table_run add remove ops t"] by simp

end

text \<open>The ordered table of a provider; an entry is named by an address \<open>'a\<close>.\<close>

definition ca_provider_add :: "string \<Rightarrow> 'a \<Rightarrow> (string \<times> 'a) list \<Rightarrow> unit res \<times> (string \<times> 'a) list" where
  "ca_provider_add name pv pvs =
     (if list_ex (\<lambda>e. fst e = name) pvs
      then (Inl (ValueError (Msg ''PV {name:?} already added'' [AStr name])), pvs)
      else (Inr (), pvs @ [(name, pv)]))"

text \<open>The removed entry is what \<open>remove\<close> then closes; the result is whether there was one.\<close>

definition ca_provider_remove :: "string \<Rightarrow> (string \<times> 'a) list \<Rightarrow> 'a option \<times> (string \<times> 'a) list" where
  "ca_provider_remove name pvs =
     (case find_idx (\<lambda>e. fst e = name) pvs of
        None \<Rightarrow> (None, pvs)
      | Some (i, e) \<Rightarrow> (Some (snd e), take i pvs @ drop (Suc i) pvs))"

definition ca_provider_keys :: "(string \<times> 'a) list \<Rightarrow> string list" where
  "ca_provider_keys pvs = sort (map fst pvs)"

lemma find_idx_distinct:
  "distinct (map fst pvs) \<Longrightarrow> find_idx (\<lambda>e. fst e = name) pvs = Some (i, e) \<Longrightarrow>
     map_of pvs name = Some (snd e) \<and> map_of (take i pvs @ drop (Suc i) pvs) = (map_of pvs)(name := None) \<and>
     distinct (map fst (take i pvs @ drop (Suc i) pvs))"
proof -
  assume d: "distinct (map fst pvs)" and f: "find_idx (\<lambda>e. fst e = name) pvs = Some (i, e)"
  from find_idx_Some [OF f] have i: "i < length pvs" "pvs ! i = e" "fst e = name" by auto
  then have p: "pvs = take i pvs @ e # drop (Suc i) pvs" using id_take_nth_drop [of i pvs] by simp
  obtain u v where uv: "pvs = u @ e # v" "u = take i pvs" "v = drop (Suc i) pvs" using p by blast
  from d i(3) uv(1) have n: "map_of u name = None" "map_of v name = None"
    by (auto simp: map_of_eq_None_iff)
  have "map_of (u @ v) = (map_of (u @ e # v))(name := None)"
  proof
    fix x
    show "map_of (u @ v) x = ((map_of (u @ e # v))(name := None)) x"
      using n i(3) by (cases e) (auto simp: map_add_def split: option.splits)
  qed
  moreover have "map_of (u @ e # v) name = Some (snd e)"
    using n i(3) by (cases e) (auto simp: map_add_def split: option.splits)
  moreover have "distinct (map fst (u @ v))" using d [unfolded uv(1)] by auto
  ultimately show ?thesis
    unfolding uv(2) [symmetric] uv(3) [symmetric] by (simp only: uv(1) simp_thms)
qed

interpretation ca_table: pv_table ca_provider_add ca_provider_remove ca_provider_keys map_of "\<lambda>pvs. distinct (map fst pvs)"
proof unfold_locales
  fix t :: "(string \<times> 'a) list" and n a
  assume d: "distinct (map fst t)"
  have none: "list_ex (\<lambda>e. fst e = n) t \<longleftrightarrow> map_of t n \<noteq> None"
    by (auto simp: list_ex_iff map_of_eq_None_iff)
  have find_none: "find_idx (\<lambda>e. fst e = n) t = None \<Longrightarrow> map_of t n = None"
    by (auto simp: find_idx_None map_of_eq_None_iff)
  show "distinct (map fst (snd (ca_provider_add n a t)))"
    using d by (auto simp: ca_provider_add_def list_ex_iff)
  show "fst (ca_provider_add n a t) = Inr () \<longleftrightarrow> map_of t n = None"
    using none by (auto simp: ca_provider_add_def)
  show "map_of (snd (ca_provider_add n a t)) = (if map_of t n = None then (map_of t)(n \<mapsto> a) else map_of t)"
    using none by (auto simp: ca_provider_add_def map_add_def fun_eq_iff split: option.splits)
  show "distinct (map fst (snd (ca_provider_remove n t)))"
    using d find_idx_distinct [OF d] by (auto simp: ca_provider_remove_def split: option.splits)
  show "fst (ca_provider_remove n t) = map_of t n"
    using find_idx_distinct [OF d, of n]
    by (auto simp: ca_provider_remove_def find_none split: option.splits)
  show "map_of (snd (ca_provider_remove n t)) = (map_of t)(n := None)"
    using find_idx_distinct [OF d, of n]
    by (auto simp: ca_provider_remove_def fun_eq_iff find_none split: option.splits)
  show "sorted (ca_provider_keys t) \<and> distinct (ca_provider_keys t) \<and> set (ca_provider_keys t) = dom (map_of t)"
    using d by (simp add: ca_provider_keys_def dom_map_of_conv_image_fst)
qed

section \<open>Port\<close>

definition DEFAULT_CA_PORT :: u16 where
  "DEFAULT_CA_PORT = 5064"

definition PORT_KEYS :: "string list" where
  "PORT_KEYS = [''EPICS_CAS_SERVER_PORT'', ''EPICS_CA_SERVER_PORT'']"

text \<open>The first key, in order, whose trimmed text parses.\<close>

fun first_port :: "(string \<Rightarrow> string option) \<Rightarrow> string list \<Rightarrow> u16 option" where
  "first_port lookup [] = None"
| "first_port lookup (k # ks) =
     (case lookup k of
        None \<Rightarrow> first_port lookup ks
      | Some v \<Rightarrow> (case parse_u16 (trim v) of Some p \<Rightarrow> Some p | None \<Rightarrow> first_port lookup ks))"

definition resolve_port ::
  "(string \<Rightarrow> string option) option \<Rightarrow> (string \<Rightarrow> string option) \<Rightarrow> bool \<Rightarrow> bool \<Rightarrow> u16"
where
  "resolve_port conf env useenv isolate =
     (if isolate then 0
      else case Option.bind conf (\<lambda>c. first_port c PORT_KEYS) of
             Some p \<Rightarrow> p
           | None \<Rightarrow>
               (case (if useenv then first_port env PORT_KEYS else None) of
                  Some p \<Rightarrow> p
                | None \<Rightarrow> DEFAULT_CA_PORT))"

section \<open>The server object\<close>

text \<open>
  \<open>CaServer::new\<close>: adopt every PV of every provider, in order, into a fresh database; the first
  failure returns. Entries live in a store, as providers share them with the \<open>SharedPV\<close> handles.
  \<open>started\<close> is the outcome of the library's \<open>from_parts\<close>: the two ports.
\<close>

fun adopt_all ::
  "eca_lib \<Rightarrow> ('d, 'v) db_ops \<Rightarrow> nat \<Rightarrow> (string \<times> nat) list \<Rightarrow> (nat \<Rightarrow> 'v ca_entry) \<times> 'd \<Rightarrow>
     unit res \<times> (nat \<Rightarrow> 'v ca_entry) \<times> 'd"
where
  "adopt_all eca L b [] sd = (Inr (), sd)"
| "adopt_all eca L b ((name, a) # pvs) (s, d) =
     (case ca_adopt eca L b name (s a, d) of
        (Inl err, e, d') \<Rightarrow> (Inl err, s(a := e), d')
      | (Inr _, e, d') \<Rightarrow> adopt_all eca L b pvs (s(a := e), d'))"

record ca_server =
  cs_inner :: "nat option"
  cs_tcp_port :: u16
  cs_udp_port :: u16

definition ca_server_new ::
  "eca_lib \<Rightarrow> ('d, 'v) db_ops \<Rightarrow> nat \<Rightarrow> (string \<times> nat) list list \<Rightarrow> (string \<Rightarrow> string option) option \<Rightarrow>
     (string \<Rightarrow> string option) \<Rightarrow> bool \<Rightarrow> bool \<Rightarrow> (u16 \<Rightarrow> rs_ca_error + u16 \<times> u16) \<Rightarrow>
     (nat \<Rightarrow> 'v ca_entry) \<times> 'd \<Rightarrow> ca_server res \<times> (nat \<Rightarrow> 'v ca_entry) \<times> 'd"
where
  "ca_server_new eca L b providers conf env useenv isolate from_parts sd =
     (case adopt_all eca L b (concat providers) sd of
        (Inl err, sd') \<Rightarrow> (Inl err, sd')
      | (Inr _, sd') \<Rightarrow>
          (case from_parts (resolve_port conf env useenv isolate) of
             Inl e \<Rightarrow> (Inl (map_ca eca e), sd')
           | Inr (tcp, udp) \<Rightarrow> (Inr \<lparr>cs_inner = Some b, cs_tcp_port = tcp, cs_udp_port = udp\<rparr>, sd')))"

definition ca_server_stop :: "ca_server \<Rightarrow> ca_server" where
  "ca_server_stop s = s\<lparr>cs_inner := None\<rparr>"

definition ca_server_running :: "ca_server \<Rightarrow> bool" where
  "ca_server_running s = (cs_inner s \<noteq> None)"

section \<open>Properties\<close>

text \<open>
  A put is answered once: of any calls of \<open>done\<close> on an operation, the first is accepted, gives
  the client its verdict if it waits for one (success without an error text, failure with one),
  and every later call is an error that tells the client nothing.
\<close>

theorem ca_done_answers_once:
  assumes "cop_reply op \<noteq> ReplyDone"
  shows "fst (calls_of ca_done (error # errors) op) =
      (if cop_reply op = ReplyNotify then [case error of Some _ \<Rightarrow> Fail | None \<Rightarrow> Succeed] else []) \<and>
    (\<exists>rs. snd (calls_of ca_done (error # errors) op) = Inr () # rs \<and> (\<forall>r \<in> set rs. \<exists>e. r = Inl e))"
  using ca_once.calls_once [OF assms, of error errors] by (simp add: ca_verdict_def)

definition sample_put :: "unit ca_operation" where
  "sample_put = \<lparr>cop_name = ''pv'', cop_value = (), cop_ctx = \<lparr>wc_peer = [], wc_user = [], wc_host = []\<rparr>,
     cop_reply = ReplyNotify\<rparr>"

theorem ca_done_answers_once_witness:
  "fst (calls_of ca_done [Some ''no'', None] sample_put) = [Fail]"
  using ca_done_answers_once [of sample_put "Some ''no''" "[None]"]
  by (simp add: sample_put_def)

text \<open>A life of a served PV.\<close>

datatype 'v pv_op = OpOpen 'v | OpPost 'v | OpClose | OpAdopt nat string

definition pv_step ::
  "eca_lib \<Rightarrow> ('d, 'v) db_ops \<Rightarrow> 'v pv_op \<Rightarrow> 'v ca_entry \<times> 'd \<Rightarrow> unit res \<times> 'v ca_entry \<times> 'd"
where
  "pv_step eca L op ed =
     (case op of
        OpOpen v \<Rightarrow> ca_open eca L v ed
      | OpPost v \<Rightarrow> ca_post L v ed
      | OpClose \<Rightarrow> (Inr (), ca_close L ed)
      | OpAdopt b n \<Rightarrow> ca_adopt eca L b n ed)"

fun pv_run ::
  "eca_lib \<Rightarrow> ('d, 'v) db_ops \<Rightarrow> 'v pv_op list \<Rightarrow> 'v ca_entry \<times> 'd \<Rightarrow>
     ('v pv_op \<times> unit res) list \<times> 'v ca_entry \<times> 'd"
where
  "pv_run eca L [] ed = ([], ed)"
| "pv_run eca L (op # ops) ed =
     (case pv_step eca L op ed of (r, ed') \<Rightarrow>
        (case pv_run eca L ops ed' of (log, ed'') \<Rightarrow> ((op, r) # log, ed'')))"

text \<open>The specification of the value: what was last opened or posted, until closed.\<close>

fun pv_spec :: "'v option \<Rightarrow> 'v pv_op \<times> unit res \<Rightarrow> 'v option" where
  "pv_spec cur (OpOpen v, Inr ()) = Some v"
| "pv_spec cur (OpPost v, Inr ()) = Some v"
| "pv_spec cur (OpClose, Inr ()) = None"
| "pv_spec cur (OpAdopt b n, Inr ()) = cur"
| "pv_spec cur (op, Inl e) = cur"

context pv_database
begin

lemma install_get: "install eca L b n v d = (Inr c, d') \<Longrightarrow> cell_get L c d' = v"
  by (auto simp: install_def add_find split: option.splits prod.splits)

lemma step_refines:
  "pv_step eca L op ed = (r, ed') \<Longrightarrow> ca_current L ed' = pv_spec (ca_current L ed) (op, r)"
  by (cases op; cases ed)
    (auto simp: pv_step_def ca_open_def ca_post_def ca_close_def ca_adopt_def ca_current_def set_get
      install_get split: value_state.splits option.splits prod.splits sum.splits)

lemma run_refines:
  "pv_run eca L ops ed = (log, ed') \<Longrightarrow> ca_current L ed' = foldl pv_spec (ca_current L ed) log"
  by (induction ops arbitrary: ed log) (auto simp: step_refines split: prod.splits)

end

text \<open>
  C15. A served PV refines its specification: whatever sequence of open, post, close and adoption
  is run on it, with whatever of them failing, \<open>current\<close> is the value last opened or posted
  successfully and none after a close; whether the value is held by the entry or by the database
  makes no difference, and \<open>isOpen\<close> says whether there is one.
\<close>

theorem ca_pv_value_refines_spec:
  assumes "pv_database L" and "pv_run eca L ops (ca_entry_new, d) = (log, e, d')"
  shows "ca_current L (e, d') = foldl pv_spec None log \<and> (ca_is_open e \<longleftrightarrow> foldl pv_spec None log \<noteq> None)"
proof -
  have "ca_current L (e, d') = foldl pv_spec None log"
    using pv_database.run_refines [OF assms] by (simp add: ca_current_def ca_entry_new_def)
  moreover have "ca_is_open e \<longleftrightarrow> ca_current L (e, d') \<noteq> None"
    by (auto simp: ca_is_open_def ca_current_def split: value_state.splits)
  ultimately show ?thesis by simp
qed

text \<open>A database of one list of cells, for the instances: a cell is an index, a PV its latest.\<close>

definition list_db :: "((nat \<times> string \<times> 'v) list, 'v) db_ops" where
  "list_db = \<lparr>db_add = (\<lambda>b n v d. (None, d @ [(b, n, v)])),
     db_find = (\<lambda>b n d. map_option (\<lambda>(i, e). length d - 1 - i) (find_idx (\<lambda>(b', n', _). b' = b \<and> n' = n) (rev d))),
     db_remove = (\<lambda>b n d. d),
     cell_set = (\<lambda>c v d. if c < length d then d[c := (fst (d ! c), fst (snd (d ! c)), v)]
        else d @ replicate (Suc c - length d) (0, [], v)),
     cell_get = (\<lambda>c d. snd (snd (d ! c)))\<rparr>"

interpretation list_db: pv_database list_db
proof unfold_locales
  fix b n and v :: 'v and d d' c
  assume "db_add list_db b n v d = (None, d')" and "db_find list_db b n d' = Some c"
  then show "cell_get list_db c d' = v" by (auto simp: list_db_def split: if_splits)
next
  fix c and v :: 'v and d
  show "cell_get list_db c (cell_set list_db c v d) = v"
    by (auto simp: list_db_def nth_append)
qed

lemmas pv_eval = pv_step_def ca_open_def ca_post_def ca_close_def ca_adopt_def install_def ca_entry_new_def

lemma sample_pv_run:
  "pv_run any_eca list_db [OpPost 1, OpOpen (2 :: nat), OpAdopt 0 ''pv'', OpPost 3] (ca_entry_new, []) =
     ([(OpPost 1, Inl (CaError (Msg ''SharedPV not open'' []) 0)), (OpOpen 2, Inr ()), (OpAdopt 0 ''pv'', Inr ()),
       (OpPost 3, Inr ())],
      \<lparr>ce_state = Serving 0, ce_reg = Some (0, ''pv''), ce_name = Some ''pv''\<rparr>, [(0, ''pv'', 3)])"
  by (simp add: pv_eval list_db_def)

theorem ca_pv_value_refines_spec_witness:
  "ca_current list_db (\<lparr>ce_state = Serving 0, ce_reg = Some (0, ''pv''), ce_name = Some ''pv''\<rparr>, [(0, ''pv'', 3 :: nat)]) = Some 3"
  using ca_pv_value_refines_spec [OF list_db.pv_database_axioms sample_pv_run] by simp

text \<open>Once adopted, a PV never holds its value itself again.\<close>

definition adopted_inv :: "'v ca_entry \<Rightarrow> bool" where
  "adopted_inv e \<longleftrightarrow> ce_reg e \<noteq> None \<and> (\<forall>v. ce_state e \<noteq> Detached v)"

lemma adopted_step:
  "pv_step eca L op (e, d) = (r, e', d') \<Longrightarrow> adopted_inv e \<Longrightarrow>
     adopted_inv e' \<and> (\<forall>b n. op = OpAdopt b n \<longrightarrow> r \<noteq> Inr ())"
  by (cases op)
    (auto simp: pv_step_def ca_open_def ca_post_def ca_close_def ca_adopt_def adopted_inv_def
      split: value_state.splits option.splits prod.splits sum.splits)

lemma adopted_run:
  "pv_run eca L ops (e, d) = (log, e', d') \<Longrightarrow> adopted_inv e \<Longrightarrow> (OpAdopt b n, Inr ()) \<notin> set log"
proof (induction ops arbitrary: e d log)
  case (Cons op ops)
  obtain r e1 d1 where s: "pv_step eca L op (e, d) = (r, e1, d1)"
    by (cases "pv_step eca L op (e, d)") auto
  obtain log' where l: "pv_run eca L ops (e1, d1) = (log', e', d')" "log = (op, r) # log'"
    using Cons.prems(1) s by (auto split: prod.splits)
  from adopted_step [OF s Cons.prems(2)] Cons.IH [OF l(1)] l(2) show ?case by auto
qed simp

lemma adopt_reaches:
  "pv_step eca L (OpAdopt b n) (e, d) = (Inr (), e', d') \<Longrightarrow> adopted_inv e'"
  by (auto simp: pv_step_def ca_adopt_def adopted_inv_def split: value_state.splits prod.splits sum.splits)

text \<open>
  A PV is adopted at most once in its life: after a server has taken it over, no later
  adoption succeeds, whatever closes, opens and posts come between. So a PV cannot be served again
  by another server after its first one has stopped.
\<close>

theorem ca_pv_adopted_once:
  assumes "pv_run eca L (ops @ OpAdopt b n # ops') (e, d) = (log @ (OpAdopt b n, Inr ()) # log', ed)"
    and "length log = length ops"
  shows "(OpAdopt b' n', Inr ()) \<notin> set log'"
proof -
  have split: "\<exists>ed1. pv_run eca L ops ed0 = (log, ed1) \<and> pv_run eca L (OpAdopt b n # ops') ed1 = ((OpAdopt b n, Inr ()) # log', ed)"
    if "pv_run eca L (ops @ OpAdopt b n # ops') ed0 = (log @ (OpAdopt b n, Inr ()) # log', ed)" "length log = length ops" for ed0
    using that
  proof (induction ops arbitrary: ed0 log)
    case (Cons op ops)
    then obtain x xs where x: "log = x # xs" "length xs = length ops" by (cases log) auto
    obtain r ed1 where s: "pv_step eca L op ed0 = (r, ed1)" by (cases "pv_step eca L op ed0")
    with Cons.prems(1) x have "pv_run eca L (ops @ OpAdopt b n # ops') ed1 = (xs @ (OpAdopt b n, Inr ()) # log', ed)" "x = (op, r)"
      by (auto split: prod.splits)
    with Cons.IH [OF _ x(2)] x s show ?case by fastforce
  qed simp
  from split [OF assms] obtain e1 d1 where r: "pv_run eca L (OpAdopt b n # ops') (e1, d1) = ((OpAdopt b n, Inr ()) # log', ed)"
    by (metis surj_pair)
  obtain r' e2 d2 where s: "pv_step eca L (OpAdopt b n) (e1, d1) = (r', e2, d2)"
    by (cases "pv_step eca L (OpAdopt b n) (e1, d1)") auto
  with r have "r' = Inr ()" "pv_run eca L ops' (e2, d2) = (log', ed)" by (auto split: prod.splits)
  with s show ?thesis using adopted_run [of eca L ops' e2 d2 log' "fst ed" "snd ed"] adopt_reaches by force
qed

theorem ca_pv_adopted_once_witness:
  "(OpAdopt 1 ''pv'', Inr ()) \<notin> set [(OpClose, Inr ()), (OpOpen (5 :: nat), Inr ()),
     (OpAdopt 1 ''pv'', Inl (ValueError (Msg ''PV {name:?} is already served'' [AStr ''pv''])))]"
proof -
  have "pv_run any_eca list_db ([OpOpen (2 :: nat)] @ OpAdopt 0 ''pv'' # [OpClose, OpOpen 5, OpAdopt 1 ''pv'']) (ca_entry_new, []) =
     ([(OpOpen 2, Inr ())] @ (OpAdopt 0 ''pv'', Inr ()) # [(OpClose, Inr ()), (OpOpen 5, Inr ()),
        (OpAdopt 1 ''pv'', Inl (ValueError (Msg ''PV {name:?} is already served'' [AStr ''pv''])))],
      \<lparr>ce_state = Serving 1, ce_reg = Some (0, ''pv''), ce_name = Some ''pv''\<rparr>, [(0, ''pv'', 2), (0, ''pv'', 5)])"
    by (simp add: pv_eval list_db_def)
  from ca_pv_adopted_once [OF this] show ?thesis by simp
qed

text \<open>
  A client's put reaches Python: the hook refuses an alarm acknowledgement, and for a value
  appends exactly one operation to the queue, with the PV's name, the value, the client, and a reply
  slot iff the client waits for an answer; if the queue's receiver is gone the forward fails and nothing
  is queued.
\<close>

theorem ca_write_hook_routes:
  "write_hook name WriteAlarmAck ctx = None \<and>
   (\<exists>f. write_hook name (WriteValue v) ctx = Some f \<and>
      f notify q =
        (if wq_receiver q
         then (None, q\<lparr>wq_items := wq_items q @ [CaPutEvent \<lparr>cop_name = case_option [] id name, cop_value = v,
                 cop_ctx = ctx, cop_reply = if notify then ReplyNotify else ReplyPlain\<rparr>]\<rparr>)
         else (Some (RsInvalidValue ''SharedPV handler queue is stopped''), q)))"
  by (cases name) (simp_all add: write_hook_def hook_forward_def workq_send_def)

text \<open>
  A Channel Access provider is a table: after any sequence of adds and removes its entries are
  those of the specification (the first add of a name stays until its removal), and \<open>keys\<close> lists
  exactly their names, sorted and without repetition.
\<close>

theorem ca_provider_is_table:
  "map_of (table_run ca_provider_add ca_provider_remove ops []) = table_spec ops Map.empty \<and>
   sorted (ca_provider_keys (table_run ca_provider_add ca_provider_remove ops [])) \<and>
   distinct (ca_provider_keys (table_run ca_provider_add ca_provider_remove ops [])) \<and>
   set (ca_provider_keys (table_run ca_provider_add ca_provider_remove ops [])) = dom (table_spec ops Map.empty)"
  using ca_table.run_lookup [of "[]" ops] ca_table.run_keys [of "[]" ops] by simp

definition port_candidates :: "(string \<Rightarrow> string option) \<Rightarrow> u16 list" where
  "port_candidates lookup = List.map_filter (\<lambda>k. Option.bind (lookup k) (\<lambda>v. parse_u16 (trim v))) PORT_KEYS"

lemma first_port_candidates:
  "first_port lookup ks =
     (case List.map_filter (\<lambda>k. Option.bind (lookup k) (\<lambda>v. parse_u16 (trim v))) ks of [] \<Rightarrow> None | p # _ \<Rightarrow> Some p)"
  by (induction ks) (auto simp: map_filter_simps split: option.splits)

lemma first_port_keys:
  "first_port lookup PORT_KEYS = (case port_candidates lookup of [] \<Rightarrow> None | p # _ \<Rightarrow> Some p)"
  unfolding port_candidates_def by (rule first_port_candidates)

text \<open>
  The port is the first that parses: of the two keys in \<open>conf\<close>, then, when the environment is
  used, of the two in the environment, the server key before the client key, and 5064 if none
  does; an isolated server always takes an ephemeral port.
\<close>

theorem resolve_port_is_first_candidate:
  "resolve_port conf env useenv isolate =
     (if isolate then 0
      else hd (case_option [] port_candidates conf @ (if useenv then port_candidates env else []) @ [DEFAULT_CA_PORT]))"
  by (cases conf) (auto simp: resolve_port_def first_port_keys hd_append split: list.splits)

lemma adopt_all_serves:
  assumes "adopt_all eca L b pvs (s, d) = (Inr (), s', d')"
  shows "distinct (map snd pvs) \<and>
    (\<forall>(name, a) \<in> set pvs. (\<exists>v. ce_state (s a) = Detached v) \<and> (\<exists>c. ce_state (s' a) = Serving c) \<and> ce_reg (s' a) = Some (b, name)) \<and>
    (\<forall>a. a \<notin> snd ` set pvs \<longrightarrow> s' a = s a)"
  using assms
proof (induction pvs arbitrary: s d)
  case (Cons p pvs)
  obtain name a where p: "p = (name, a)" by (cases p)
  obtain r e d1 where ad: "ca_adopt eca L b name (s a, d) = (r, e, d1)"
    by (cases "ca_adopt eca L b name (s a, d)") auto
  with Cons.prems p have r: "r = Inr ()" and rest: "adopt_all eca L b pvs (s(a := e), d1) = (Inr (), s', d')"
    by (auto split: sum.splits)
  from ad r have e: "\<exists>v. ce_state (s a) = Detached v" "\<exists>c. ce_state e = Serving c" "ce_reg e = Some (b, name)"
    by (auto simp: ca_adopt_def split: value_state.splits prod.splits sum.splits)
  from Cons.IH [OF rest] have IH: "distinct (map snd pvs)"
    "\<And>n x. (n, x) \<in> set pvs \<Longrightarrow> (\<exists>v. ce_state ((s(a := e)) x) = Detached v) \<and> (\<exists>c. ce_state (s' x) = Serving c) \<and> ce_reg (s' x) = Some (b, n)"
    "\<And>x. x \<notin> snd ` set pvs \<Longrightarrow> s' x = (s(a := e)) x" by auto
  have a: "a \<notin> snd ` set pvs"
  proof
    assume "a \<in> snd ` set pvs"
    then obtain n where "(n, a) \<in> set pvs" by auto
    from IH(2) [OF this] e(2) show False by auto
  qed
  show ?case
  proof (intro conjI ballI)
    show "distinct (map snd (p # pvs))" using IH(1) a p by simp
    show "\<forall>x. x \<notin> snd ` set (p # pvs) \<longrightarrow> s' x = s x" using IH(3) p by auto
    fix q
    assume q: "q \<in> set (p # pvs)"
    obtain n x where nx: "q = (n, x)" by (cases q)
    show "case q of (name, a) \<Rightarrow> (\<exists>v. ce_state (s a) = Detached v) \<and> (\<exists>c. ce_state (s' a) = Serving c) \<and> ce_reg (s' a) = Some (b, name)"
    proof (cases "q = p")
      case True
      with nx p e IH(3) [OF a] show ?thesis by auto
    next
      case False
      with q nx have m: "(n, x) \<in> set pvs" by auto
      moreover have "x \<noteq> a" using m a by force
      ultimately show ?thesis using IH(2) [OF m] nx by auto
    qed
  qed
qed simp


definition sample_store :: "nat \<Rightarrow> nat ca_entry" where
  "sample_store a = (if a = 0 then ca_entry_new\<lparr>ce_state := Detached 7\<rparr> else ca_entry_new)"


text \<open>
  A server that fails to start keeps what it had adopted: the PVs before the failing one stay
  bound to the database that is thrown away.
\<close>

lemma failed_server_keeps_adopted:
  "\<exists>e s' d'. ca_server_new any_eca list_db 4 [[(''pv'', 0), (''never_opened'', 1)]] None (\<lambda>_. None) False True
       (\<lambda>p. Inr (p, p)) (sample_store, []) = (Inl e, s', d') \<and>
     ce_state (s' 0) = Serving 0 \<and> ce_reg (s' 0) = Some (4, ''pv'')"
  by (simp add: ca_server_new_def ca_adopt_def install_def sample_store_def list_db_def ca_entry_new_def)

end
