(* ===== verification/CaValue.thy ===== *)
theory CaValue
  imports PvScalar
begin

text \<open>
  Channel Access values at the Python boundary: \<open>src/src/value.rs\<close> and \<open>py_to_value\<close> of
  \<open>src/src/ca_server.rs\<close>. An \<open>EpicsValue\<close> has the constructors the code names; the width of \<open>Char\<close>
  is the library's, so a \<open>Char\<close> is the integer it reads as, and \<open>chars\<close> the numpy array over a
  \<open>CharArray\<close>. A numpy array that is put is contiguous.
\<close>

datatype epics_value =
    EvString string
  | EvShort i16
  | EvFloat f32
  | EvEnum u16
  | EvEnumWithChoices u16 "string list"
  | EvChar int
  | EvLong i32
  | EvDouble f64
  | EvInt64 i64
  | EvUInt64 u64
  | EvUShort u16
  | EvULong u32
  | EvUChar u8
  | EvShortArray "i16 list"
  | EvFloatArray "f32 list"
  | EvEnumArray "u16 list"
  | EvDoubleArray "f64 list"
  | EvLongArray "i32 list"
  | EvCharArray "int list"
  | EvInt64Array "i64 list"
  | EvUInt64Array "u64 list"
  | EvUShortArray "u16 list"
  | EvULongArray "u32 list"
  | EvUCharArray "u8 list"
  | EvStringArray "string list"

section \<open>To Python\<close>

fun ca_to_py :: "py_lib \<Rightarrow> (int list \<Rightarrow> py) \<Rightarrow> epics_value \<Rightarrow> py" where
  "ca_to_py L chars (EvString s) = PStr (lossy L s)"
| "ca_to_py L chars (EvShort x) = PInt (sint x)"
| "ca_to_py L chars (EvFloat x) = PFloat (f32_to_f64 x)"
| "ca_to_py L chars (EvEnum x) = PInt (uint x)"
| "ca_to_py L chars (EvEnumWithChoices ix _) = PInt (uint ix)"
| "ca_to_py L chars (EvChar x) = PInt x"
| "ca_to_py L chars (EvLong x) = PInt (sint x)"
| "ca_to_py L chars (EvDouble x) = PFloat x"
| "ca_to_py L chars (EvInt64 x) = PInt (sint x)"
| "ca_to_py L chars (EvUInt64 x) = PInt (uint x)"
| "ca_to_py L chars (EvUShort x) = PInt (uint x)"
| "ca_to_py L chars (EvULong x) = PInt (uint x)"
| "ca_to_py L chars (EvUChar x) = PInt (uint x)"
| "ca_to_py L chars (EvShortArray a) = PArray (TaShort a)"
| "ca_to_py L chars (EvFloatArray a) = PArray (TaFloat a)"
| "ca_to_py L chars (EvEnumArray a) = PArray (TaUShort a)"
| "ca_to_py L chars (EvDoubleArray a) = PArray (TaDouble a)"
| "ca_to_py L chars (EvLongArray a) = PArray (TaInt a)"
| "ca_to_py L chars (EvCharArray a) = chars a"
| "ca_to_py L chars (EvInt64Array a) = PArray (TaLong a)"
| "ca_to_py L chars (EvUInt64Array a) = PArray (TaULong a)"
| "ca_to_py L chars (EvUShortArray a) = PArray (TaUShort a)"
| "ca_to_py L chars (EvULongArray a) = PArray (TaUInt a)"
| "ca_to_py L chars (EvUCharArray a) = PArray (TaUByte a)"
| "ca_to_py L chars (EvStringArray a) = PList (map (\<lambda>s. PStr (lossy L s)) a)"

section \<open>From Python\<close>

datatype put_request = PutStr string | PutStrArray "string list" | PutValue epics_value

definition fits_i64 :: "int \<Rightarrow> bool" where
  "fits_i64 i \<longleftrightarrow> - (2 ^ 63) \<le> i \<and> i < 2 ^ 63"

definition too_big :: "string \<Rightarrow> pyexc" where
  "too_big what = OverflowError (Msg what [])"

text \<open>
  \<open>extract::<f64>()\<close>: a float, an int that does not round to infinity, a bool, or what \<open>__float__\<close> or
  \<open>__index__\<close> answers.
\<close>

definition int_as_f64 :: "int \<Rightarrow> f64 res" where
  "int_as_f64 i =
     (if f64_exp (int_to_f64 i) = 2047 then Inl (too_big ''int too large to convert to float'')
      else Inr (int_to_f64 i))"

definition extract_f64 :: "py_lib \<Rightarrow> py \<Rightarrow> f64 res" where
  "extract_f64 L obj =
     (case obj of
        PFloat f \<Rightarrow> Inr f
      | PInt i \<Rightarrow> int_as_f64 i
      | PBool b \<Rightarrow> int_as_f64 (of_bool b)
      | _ \<Rightarrow>
          (case float_of L obj of
             Some f \<Rightarrow> Inr f
           | None \<Rightarrow>
               (case index_of L obj of
                  Some i \<Rightarrow> int_as_f64 i
                | None \<Rightarrow> Inl (wrong_type L ''must be real number, not {}'' obj))))"

text \<open>The dtypes \<open>numpy_to_value\<close> tries; no array of another type matches one.\<close>

definition numpy_to_value :: "py \<Rightarrow> epics_value option" where
  "numpy_to_value obj =
     (case obj of
        PArray a \<Rightarrow>
          (case a of
             TaDouble xs \<Rightarrow> Some (EvDoubleArray xs)
           | TaFloat xs \<Rightarrow> Some (EvFloatArray xs)
           | TaLong xs \<Rightarrow> Some (EvInt64Array xs)
           | TaInt xs \<Rightarrow> Some (EvLongArray xs)
           | TaShort xs \<Rightarrow> Some (EvShortArray xs)
           | TaUByte xs \<Rightarrow> Some (EvUCharArray xs)
           | TaUShort xs \<Rightarrow> Some (EvUShortArray xs)
           | TaUInt xs \<Rightarrow> Some (EvULongArray xs)
           | TaULong xs \<Rightarrow> Some (EvUInt64Array xs)
           | _ \<Rightarrow> None)
      | _ \<Rightarrow> None)"

definition ca_from_py :: "py_lib \<Rightarrow> py \<Rightarrow> put_request res" where
  "ca_from_py L obj =
     (case obj of
        PStr s \<Rightarrow> Inr (PutStr s)
      | PBool b \<Rightarrow> Inr (PutValue (EvLong (of_bool b)))
      | PInt i \<Rightarrow>
          if fits_i64 i then Inr (PutValue (EvInt64 (of_int i)))
          else Inl (too_big ''Python int too large to convert to C long'')
      | PFloat f \<Rightarrow> Inr (PutValue (EvDouble f))
      | PList xs \<Rightarrow>
          if xs \<noteq> [] \<and> list_all is_str xs
          then map_res PutStrArray (collect_res (map (extract_str L) xs))
          else map_res (PutValue \<circ> EvDoubleArray) (collect_res (map (extract_f64 L) xs))
      | _ \<Rightarrow>
          (case numpy_to_value obj of
             Some v \<Rightarrow> Inr (PutValue v)
           | None \<Rightarrow>
               (case index_of L obj of
                  Some i \<Rightarrow>
                    if fits_i64 i then Inr (PutValue (EvInt64 (of_int i)))
                    else (case extract_f64 L obj of
                            Inr f \<Rightarrow> Inr (PutValue (EvDouble f))
                          | Inl _ \<Rightarrow> Inl (wrong_type L ''cannot put a value of type {}'' obj))
                | None \<Rightarrow>
                    (case extract_f64 L obj of
                       Inr f \<Rightarrow> Inr (PutValue (EvDouble f))
                     | Inl _ \<Rightarrow> Inl (wrong_type L ''cannot put a value of type {}'' obj)))))"

text \<open>What a served PV stores.\<close>

definition py_to_value :: "py_lib \<Rightarrow> py \<Rightarrow> epics_value res" where
  "py_to_value L obj =
     map_res (\<lambda>rq. case rq of
         PutStr s \<Rightarrow> EvString s
       | PutStrArray v \<Rightarrow> EvStringArray v
       | PutValue ev \<Rightarrow> ev) (ca_from_py L obj)"

section \<open>Reading a value and putting it back\<close>

text \<open>
  What a value is after it was read and put: integers of every width become 64-bit, floats double,
  an enum its index; an array keeps its type, but an enum array becomes one of its indices.
\<close>

fun widened :: "epics_value \<Rightarrow> epics_value" where
  "widened (EvShort x) = EvInt64 (scast x)"
| "widened (EvFloat x) = EvDouble (f32_to_f64 x)"
| "widened (EvEnum x) = EvInt64 (ucast x)"
| "widened (EvEnumWithChoices ix _) = EvInt64 (ucast ix)"
| "widened (EvLong x) = EvInt64 (scast x)"
| "widened (EvUInt64 x) = EvInt64 (ucast x)"
| "widened (EvUShort x) = EvInt64 (ucast x)"
| "widened (EvULong x) = EvInt64 (ucast x)"
| "widened (EvUChar x) = EvInt64 (ucast x)"
| "widened (EvChar x) = EvInt64 (of_int x)"
| "widened (EvEnumArray a) = EvUShortArray a"
| "widened v = v"

text \<open>
  The values that come back: text is UTF-8, a 64-bit unsigned number fits 64 bits signed, and a string
  array is not empty. \<open>CharArray\<close> is left out, as its dtype is not known here.
\<close>

fun puts_back :: "py_lib \<Rightarrow> epics_value \<Rightarrow> bool" where
  "puts_back L (EvString s) = (lossy L s = s)"
| "puts_back L (EvChar x) = fits_i64 x"
| "puts_back L (EvUInt64 x) = (uint x < 2 ^ 63)"
| "puts_back L (EvCharArray a) = False"
| "puts_back L (EvStringArray a) = (a \<noteq> [] \<and> list_all (\<lambda>s. lossy L s = s) a)"
| "puts_back L v = True"

lemma word_fits_i64:
  "LENGTH('a::len) \<le> 64 \<Longrightarrow> fits_i64 (sint (x :: 'a word))"
  "LENGTH('a::len) < 64 \<Longrightarrow> fits_i64 (uint (x :: 'a word))"
proof -
  assume l: "LENGTH('a) \<le> 64"
  have "(2 :: int) ^ (LENGTH('a) - Suc 0) \<le> 2 ^ 63" by (rule power_increasing) (use l in simp_all)
  with sint_greater_eq [of x] sint_less [of x] show "fits_i64 (sint x)"
    unfolding fits_i64_def by simp
next
  assume l: "LENGTH('a) < 64"
  have "(2 :: int) ^ LENGTH('a) \<le> 2 ^ 63" by (rule power_increasing) (use l in simp_all)
  moreover have "0 \<le> uint x" "uint x < 2 ^ LENGTH('a)" by (auto intro: unsigned_less)
  ultimately show "fits_i64 (uint x)" unfolding fits_i64_def by linarith
qed

lemma u64_fits_i64: "uint (x :: u64) < 2 ^ 63 \<Longrightarrow> fits_i64 (uint x)"
  by (simp add: fits_i64_def order_trans [of _ 0])

lemma strings_extracted:
  "\<forall>s \<in> set a. lossy L s = s \<Longrightarrow> collect_res (map (extract_str L \<circ> (\<lambda>s. PStr (lossy L s))) a) = Inr a"
  by (induction a) (auto simp: extract_str_def)

lemma value_put_back: "puts_back L v \<Longrightarrow> py_to_value L (ca_to_py L chars v) = Inr (widened v)"
  by (cases v)
    (simp_all add: py_to_value_def ca_from_py_def numpy_to_value_def word_fits_i64 u64_fits_i64 is_str_def
      list_all_iff strings_extracted)



text \<open>The values that do not come back.\<close>

lemma big_unsigned_refused:
  "2 ^ 63 \<le> uint x \<Longrightarrow>
     py_to_value L (ca_to_py L chars (EvUInt64 x)) =
       Inl (too_big ''Python int too large to convert to C long'')"
  by (simp add: py_to_value_def ca_from_py_def fits_i64_def)

lemma empty_strings_become_numbers:
  "py_to_value L (ca_to_py L chars (EvStringArray [])) = Inr (EvDoubleArray [])"
  by (simp add: py_to_value_def ca_from_py_def)

end
