(* ===== verification/Runtime.thy ===== *)
theory Runtime
  imports Errors
begin

text \<open>
  The runtime of \<open>src/src/runtime.rs\<close>: how a Rust future becomes an asyncio future
  (\<open>into_py_future\<close>, \<open>hand_to_asyncio\<close>, \<open>CancelRelay\<close>, \<open>Completor\<close>), the in-flight accounting
  that \<open>wait_idle\<close> reads, \<open>join_all\<close> and \<open>results_to_py\<close>.

  The parties run concurrently: the tokio tasks, the blocking thread that posts an outcome, the
  asyncio loop, and Python code that may cancel. Each atomic move of one of them is a rule of
  \<open>rt_step\<close>. The runtime (\<open>spawn\<close>, \<open>select!\<close>, \<open>oneshot\<close>) and asyncio (\<open>create_future\<close>,
  \<open>add_done_callback\<close>, \<open>call_soon_threadsafe\<close>) appear with the behaviour they document; when a
  Rust future becomes ready, and with what, is any choice of the rule. \<open>conv\<close> is
  \<open>IntoPyObject\<close> for the result type, which may raise.
\<close>

section \<open>Workers\<close>

definition configured_workers :: "string option \<Rightarrow> nat" where
  "configured_workers env =
     max (case Option.bind env (parse_unsigned (2 ^ 64)) of None \<Rightarrow> 1 | Some n \<Rightarrow> n) 1"

lemma configured_workers_positive: "1 \<le> configured_workers env"
  by (simp add: configured_workers_def)

section \<open>Handing a future to asyncio\<close>

datatype 'v asyncio_future = FutPending | FutCancelled | FutResult 'v | FutException pyexc

datatype 'v settle_call = SetResult 'v | SetException pyexc

text \<open>
  A handed future: the two nested tasks are in \<open>select!\<close>, or past it because nobody can cancel any
  more; the blocking thread then owes the outcome (\<^term>\<open>None\<close>: cancelled), until it has dropped
  the in-flight guard.
\<close>

datatype 'r hand_phase =
    Selecting
  | Uncancellable
  | Posting "'r res option"
  | Posted "'r res option"

record ('r, 'v) handed =
  h_phase :: "'r hand_phase"
  h_future :: "'v asyncio_future"
  h_cancel_tx :: bool
  h_cancel_sent :: bool
  h_relay_due :: bool

record ('r, 'v) rt =
  in_flight :: nat
  rt_hands :: "('r, 'v) handed list"
  rt_loop :: "(nat \<times> 'v settle_call) list"
  rt_loop_open :: bool
  rt_initialized :: bool

definition rt_new :: "('r, 'v) rt" where
  "rt_new = \<lparr>in_flight = 0, rt_hands = [], rt_loop = [], rt_loop_open = True, rt_initialized = True\<rparr>"

definition handed_new :: "('r, 'v) handed" where
  "handed_new = \<lparr>h_phase = Selecting, h_future = FutPending, h_cancel_tx = True,
     h_cancel_sent = False, h_relay_due = False\<rparr>"

definition on_hand :: "nat \<Rightarrow> (('r, 'v) handed \<Rightarrow> ('r, 'v) handed) \<Rightarrow> ('r, 'v) rt \<Rightarrow> ('r, 'v) rt" where
  "on_hand i f s = s\<lparr>rt_hands := (rt_hands s)[i := f (rt_hands s ! i)]\<rparr>"

text \<open>\<open>hand_to_asyncio\<close>, on the caller's thread: a pending future, its relay, and the guard.\<close>

definition hand_over :: "('r, 'v) rt \<Rightarrow> ('r, 'v) rt" where
  "hand_over s = s\<lparr>in_flight := in_flight s + 1, rt_hands := rt_hands s @ [handed_new]\<rparr>"

text \<open>The first poll of \<open>into_py_future\<close>: a future that is ready at once never meets the loop.\<close>

datatype ('r, 'v) awaitable = Completed 'v | HandedOver nat

definition into_py_future ::
  "('r \<Rightarrow> 'v res) \<Rightarrow> 'r res option \<Rightarrow> ('r, 'v) rt \<Rightarrow> ('r, 'v) awaitable res \<times> ('r, 'v) rt"
where
  "into_py_future conv poll s =
     (case poll of
        Some r \<Rightarrow> (bind_res r (\<lambda>x. map_res Completed (conv x)), s)
      | None \<Rightarrow> (Inr (HandedOver (length (rt_hands s))), hand_over s))"

definition rust_future_failed :: pyexc where
  "rust_future_failed = RuntimeError (Msg ''rust future failed: {e}'' [])"

text \<open>What the outcome settles the asyncio future with.\<close>

definition settlement :: "('r \<Rightarrow> 'v res) \<Rightarrow> 'r res \<Rightarrow> 'v settle_call" where
  "settlement conv r = (case bind_res r conv of Inr v \<Rightarrow> SetResult v | Inl e \<Rightarrow> SetException e)"

text \<open>The blocking thread: post the outcome, and drop the guard whatever happened.\<close>

definition post :: "('r \<Rightarrow> 'v res) \<Rightarrow> nat \<Rightarrow> 'r res option \<Rightarrow> ('r, 'v) rt \<Rightarrow> ('r, 'v) rt" where
  "post conv i result s =
     (let released = (on_hand i (h_phase_update (\<lambda>_. Posted result)) s)\<lparr>in_flight := in_flight s - 1\<rparr>
      in case result of
           None \<Rightarrow> released
         | Some r \<Rightarrow>
             if \<not> rt_initialized s then released
             else if h_future (rt_hands s ! i) = FutCancelled then released
             else if rt_loop_open s then released\<lparr>rt_loop := rt_loop s @ [(i, settlement conv r)]\<rparr>
             else released)"

text \<open>
  \<open>set_result\<close> and \<open>set_exception\<close> of an asyncio future: a future that is done refuses them
  (\<open>InvalidStateError\<close>); one that is pending becomes done and its callbacks are scheduled.
\<close>

definition settle :: "'v settle_call \<Rightarrow> ('r, 'v) handed \<Rightarrow> ('r, 'v) handed" where
  "settle c h =
     (if h_future h \<noteq> FutPending then h
      else h\<lparr>h_future := (case c of SetResult v \<Rightarrow> FutResult v | SetException e \<Rightarrow> FutException e),
             h_relay_due := True\<rparr>)"

text \<open>\<open>Completor.__call__\<close>.\<close>

definition completor :: "'v settle_call \<Rightarrow> ('r, 'v) handed \<Rightarrow> ('r, 'v) handed" where
  "completor c h = (if h_future h = FutCancelled then h else settle c h)"

text \<open>\<open>CancelRelay.__call__\<close>: only a cancelled future sends; the channel takes one message.\<close>

definition cancel_relay :: "('r, 'v) handed \<Rightarrow> ('r, 'v) handed" where
  "cancel_relay h =
     (if h_future h = FutCancelled \<and> h_cancel_tx h
      then h\<lparr>h_cancel_tx := False, h_cancel_sent := True\<rparr> else h)"

text \<open>\<open>wait_idle\<close>: what it returns when it does, under the lock.\<close>

definition wait_idle :: "('r, 'v) rt \<Rightarrow> bool" where
  "wait_idle s \<longleftrightarrow> in_flight s = 0"

inductive rt_step :: "('r \<Rightarrow> 'v res) \<Rightarrow> ('r, 'v) rt \<Rightarrow> ('r, 'v) rt \<Rightarrow> bool" for conv where
  handing: "rt_step conv s (snd (into_py_future conv None s))"
| fut_ready:
    "i < length (rt_hands s) \<Longrightarrow> h_phase (rt_hands s ! i) \<in> {Selecting, Uncancellable} \<Longrightarrow>
     rt_step conv s (on_hand i (h_phase_update (\<lambda>_. Posting (Some r))) s)"
| cancel_seen:
    "i < length (rt_hands s) \<Longrightarrow> h_phase (rt_hands s ! i) = Selecting \<Longrightarrow>
     h_cancel_sent (rt_hands s ! i) \<Longrightarrow>
     rt_step conv s (on_hand i (h_phase_update (\<lambda>_. Posting None)) s)"
| relay_gone:
    "i < length (rt_hands s) \<Longrightarrow> h_phase (rt_hands s ! i) = Selecting \<Longrightarrow>
     \<not> h_cancel_tx (rt_hands s ! i) \<Longrightarrow> \<not> h_cancel_sent (rt_hands s ! i) \<Longrightarrow>
     rt_step conv s (on_hand i (h_phase_update (\<lambda>_. Uncancellable)) s)"
| inner_panics:
    "i < length (rt_hands s) \<Longrightarrow> h_phase (rt_hands s ! i) \<in> {Selecting, Uncancellable} \<Longrightarrow>
     rt_step conv s (on_hand i (h_phase_update (\<lambda>_. Posting (Some (Inl rust_future_failed)))) s)"
| posting:
    "i < length (rt_hands s) \<Longrightarrow> h_phase (rt_hands s ! i) = Posting result \<Longrightarrow>
     rt_step conv s (post conv i result s)"
| completing:
    "rt_loop s = (i, c) # q \<Longrightarrow> rt_step conv s ((on_hand i (completor c) s)\<lparr>rt_loop := q\<rparr>)"
| python_cancels:
    "i < length (rt_hands s) \<Longrightarrow> h_future (rt_hands s ! i) = FutPending \<Longrightarrow>
     rt_step conv s (on_hand i (\<lambda>h. h\<lparr>h_future := FutCancelled, h_relay_due := True\<rparr>) s)"
| relay_called:
    "i < length (rt_hands s) \<Longrightarrow> h_relay_due (rt_hands s ! i) \<Longrightarrow>
     rt_step conv s (on_hand i (\<lambda>h. (cancel_relay h)\<lparr>h_relay_due := False\<rparr>) s)"
| relay_dropped:
    "i < length (rt_hands s) \<Longrightarrow> rt_step conv s (on_hand i (h_cancel_tx_update (\<lambda>_. False)) s)"
| loop_closed: "rt_step conv s (s\<lparr>rt_loop_open := False, rt_loop := []\<rparr>)"
| finalized: "rt_step conv s (s\<lparr>rt_initialized := False\<rparr>)"

inductive_cases rt_stepE: "rt_step conv s s'"

abbreviation rt_reachable :: "('r \<Rightarrow> 'v res) \<Rightarrow> ('r, 'v) rt \<Rightarrow> bool" where
  "rt_reachable conv s \<equiv> (rt_step conv)\<^sup>*\<^sup>* rt_new s"

section \<open>The accounting and the outcomes\<close>

lemma cancel_relay_simps [simp]:
  "h_phase (cancel_relay h) = h_phase h"
  "h_future (cancel_relay h) = h_future h"
  "h_cancel_sent (cancel_relay h) \<longleftrightarrow> h_cancel_sent h \<or> (h_future h = FutCancelled \<and> h_cancel_tx h)"
  by (auto simp: cancel_relay_def)

definition owes :: "('r, 'v) handed \<Rightarrow> bool" where
  "owes h \<longleftrightarrow> (case h_phase h of Posted _ \<Rightarrow> False | _ \<Rightarrow> True)"

text \<open>
  One handed future against the loop: what is queued for it, and the flags that say whether a
  posted outcome could be lost.
\<close>

definition queued :: "('r, 'v) rt \<Rightarrow> nat \<Rightarrow> 'v settle_call list" where
  "queued s i = map snd (filter (\<lambda>e. fst e = i) (rt_loop s))"

definition hand_ok :: "('r \<Rightarrow> 'v res) \<Rightarrow> bool \<Rightarrow> 'v settle_call list \<Rightarrow> ('r, 'v) handed \<Rightarrow> bool" where
  "hand_ok conv live q h \<longleftrightarrow>
     (h_cancel_sent h \<longrightarrow> h_future h = FutCancelled) \<and>
     (case h_phase h of
        Posted None \<Rightarrow> q = [] \<and> h_future h = FutCancelled
      | Posted (Some r) \<Rightarrow>
          (h_future h = FutCancelled \<and> (q = [] \<or> q = [settlement conv r])) \<or>
          (h_future h = FutPending \<and> (q = [settlement conv r] \<or> (q = [] \<and> \<not> live))) \<or>
          (q = [] \<and> (case settlement conv r of SetResult v \<Rightarrow> h_future h = FutResult v
                      | SetException e \<Rightarrow> h_future h = FutException e))
      | Posting None \<Rightarrow> q = [] \<and> h_future h = FutCancelled
      | _ \<Rightarrow> q = [] \<and> h_future h \<in> {FutPending, FutCancelled})"

definition rt_inv :: "('r \<Rightarrow> 'v res) \<Rightarrow> ('r, 'v) rt \<Rightarrow> bool" where
  "rt_inv conv s \<longleftrightarrow>
     in_flight s = length (filter owes (rt_hands s)) \<and>
     (\<forall>e \<in> set (rt_loop s). fst e < length (rt_hands s)) \<and>
     (\<not> rt_loop_open s \<longrightarrow> rt_loop s = []) \<and>
     (\<forall>i < length (rt_hands s).
        hand_ok conv (rt_loop_open s \<and> rt_initialized s) (queued s i) (rt_hands s ! i))"

lemma count_update:
  "i < length xs \<Longrightarrow>
   length (filter P (xs[i := x])) + (if P (xs ! i) then 1 else 0) =
   length (filter P xs) + (if P x then 1 else 0)"
proof (induction xs arbitrary: i)
  case (Cons y ys)
  then show ?case by (cases i) auto
qed simp

lemma on_hand_simps [simp]:
  "length (rt_hands (on_hand i f s)) = length (rt_hands s)"
  "in_flight (on_hand i f s) = in_flight s"
  "rt_loop (on_hand i f s) = rt_loop s"
  "rt_loop_open (on_hand i f s) = rt_loop_open s"
  "rt_initialized (on_hand i f s) = rt_initialized s"
  "queued (on_hand i f s) j = queued s j"
  by (simp_all add: on_hand_def queued_def)

lemma on_hand_nth:
  "j < length (rt_hands s) \<Longrightarrow>
   rt_hands (on_hand i f s) ! j = (if j = i then f (rt_hands s ! i) else rt_hands s ! j)"
  by (simp add: on_hand_def nth_list_update)

lemma on_hand_owes:
  "i < length (rt_hands s) \<Longrightarrow>
   length (filter owes (rt_hands (on_hand i f s))) + (if owes (rt_hands s ! i) then 1 else 0) =
   length (filter owes (rt_hands s)) + (if owes (f (rt_hands s ! i)) then 1 else 0)"
  using count_update [of i "rt_hands s" owes "f (rt_hands s ! i)"] by (simp add: on_hand_def)

lemma rt_inv_on_hand:
  assumes "rt_inv conv s" and "i < length (rt_hands s)"
    and "owes (f (rt_hands s ! i)) = owes (rt_hands s ! i)"
    and "hand_ok conv (rt_loop_open s \<and> rt_initialized s) (queued s i) (rt_hands s ! i) \<Longrightarrow>
      hand_ok conv (rt_loop_open s \<and> rt_initialized s) (queued s i) (f (rt_hands s ! i))"
  shows "rt_inv conv (on_hand i f s)"
  using assms on_hand_owes [of i s f] by (auto simp: rt_inv_def on_hand_nth split: if_splits)

lemma rt_inv_hand:
  "rt_inv conv s \<Longrightarrow> i < length (rt_hands s) \<Longrightarrow>
   hand_ok conv (rt_loop_open s \<and> rt_initialized s) (queued s i) (rt_hands s ! i)"
  by (simp add: rt_inv_def)

lemma owes_positive: "rt_inv conv s \<Longrightarrow> i < length (rt_hands s) \<Longrightarrow> owes (rt_hands s ! i) \<Longrightarrow> 0 < in_flight s"
  by (auto simp: rt_inv_def filter_empty_conv dest: nth_mem)

lemma rt_inv_new: "rt_inv conv rt_new"
  by (simp add: rt_inv_def rt_new_def)

lemma rt_inv_handing: "rt_inv conv s \<Longrightarrow> rt_inv conv (hand_over s)"
  by (auto simp: rt_inv_def hand_over_def nth_append handed_new_def owes_def hand_ok_def queued_def
      less_Suc_eq filter_empty_conv)

lemma rt_inv_posting:
  assumes inv: "rt_inv conv s" and i: "i < length (rt_hands s)"
    and ph: "h_phase (rt_hands s ! i) = Posting result"
  shows "rt_inv conv (post conv i result s)"
proof -
  define rel where "rel = (on_hand i (h_phase_update (\<lambda>_. Posted result)) s)\<lparr>in_flight := in_flight s - 1\<rparr>"
  have len: "length (rt_hands rel) = length (rt_hands s)" by (simp add: rel_def)
  have owed: "in_flight s - 1 = length (filter owes (rt_hands rel))"
    using inv i ph on_hand_owes [of i s "h_phase_update (\<lambda>_. Posted result)"]
    by (simp add: rt_inv_def rel_def owes_def)
  have old: "hand_ok conv (rt_loop_open s \<and> rt_initialized s) (queued s i) (rt_hands s ! i)"
    using inv i by (rule rt_inv_hand)
  have same: "rt_hands rel ! j = rt_hands s ! j" if "j \<noteq> i" for j
    using that by (simp add: rel_def on_hand_def)
  have at_i: "rt_hands rel ! i = (rt_hands s ! i)\<lparr>h_phase := Posted result\<rparr>"
    using i by (simp add: rel_def on_hand_def)
  have out: "rt_inv conv (rel\<lparr>rt_loop := l\<rparr>)"
    if "\<And>j. j \<noteq> i \<Longrightarrow> map snd (filter (\<lambda>e. fst e = j) l) = queued s j"
      "\<forall>e \<in> set l. fst e < length (rt_hands s)" "\<not> rt_loop_open s \<longrightarrow> l = []"
      "hand_ok conv (rt_loop_open s \<and> rt_initialized s) (map snd (filter (\<lambda>e. fst e = i) l)) (rt_hands rel ! i)"
    for l
    unfolding rt_inv_def
  proof (intro conjI allI impI)
    fix j assume "j < length (rt_hands (rel\<lparr>rt_loop := l\<rparr>))"
    then show "hand_ok conv (rt_loop_open (rel\<lparr>rt_loop := l\<rparr>) \<and> rt_initialized (rel\<lparr>rt_loop := l\<rparr>))
        (queued (rel\<lparr>rt_loop := l\<rparr>) j) (rt_hands (rel\<lparr>rt_loop := l\<rparr>) ! j)"
      using that rt_inv_hand [OF inv, of j] same [of j] len
      by (cases "j = i") (simp_all add: queued_def, simp_all add: rel_def)
  qed (use that owed len in \<open>simp_all add: rel_def\<close>)
  have l: "\<forall>e \<in> set (rt_loop s). fst e < length (rt_hands s)" "\<not> rt_loop_open s \<longrightarrow> rt_loop s = []"
    using inv by (auto simp: rt_inv_def)
  have post: "post conv i result s =
      (case result of
         None \<Rightarrow> rel
       | Some r \<Rightarrow>
           if \<not> rt_initialized s then rel
           else if h_future (rt_hands s ! i) = FutCancelled then rel
           else if rt_loop_open s then rel\<lparr>rt_loop := rt_loop s @ [(i, settlement conv r)]\<rparr>
           else rel)"
    unfolding post_def rel_def Let_def ..
  have stay: "rel\<lparr>rt_loop := rt_loop s\<rparr> = rel" by (simp add: rel_def)
  show ?thesis
  proof (cases result)
    case None
    then show ?thesis
      using out [of "rt_loop s"] old ph at_i l post
      by (simp add: stay hand_ok_def queued_def)
  next
    case (Some r)
    have q: "queued s i = []" using old ph Some by (simp add: hand_ok_def)
    show ?thesis
    proof (cases "rt_initialized s \<and> h_future (rt_hands s ! i) \<noteq> FutCancelled \<and> rt_loop_open s")
      case True
      then show ?thesis
        using out [of "rt_loop s @ [(i, settlement conv r)]"] old ph at_i l q Some i post
        by (simp add: hand_ok_def queued_def)
    next
      case False
      then show ?thesis
        using out [of "rt_loop s"] old ph at_i l q Some post
        by (auto simp: stay hand_ok_def queued_def)
    qed
  qed
qed

lemma queued_Cons:
  "rt_loop s = (i, c) # q \<Longrightarrow> queued s j = (if j = i then [c] else []) @ map snd (filter (\<lambda>e. fst e = j) q)"
  by (simp add: queued_def)

lemma rt_inv_completing:
  assumes inv: "rt_inv conv s" and q: "rt_loop s = (i, c) # q"
  shows "rt_inv conv ((on_hand i (completor c) s)\<lparr>rt_loop := q\<rparr>)"
proof -
  let ?s = "(on_hand i (completor c) s)\<lparr>rt_loop := q\<rparr>"
  have i: "i < length (rt_hands s)" using inv q by (simp add: rt_inv_def)
  have phase [simp]: "h_phase (completor c h) = h_phase h" "h_cancel_sent (completor c h) = h_cancel_sent h"
    for h :: "('a, 'b) handed"
    by (simp_all add: completor_def settle_def)
  have "length (filter owes (rt_hands ?s)) = length (filter owes (rt_hands s))"
    using on_hand_owes [OF i, of "completor c"] by (simp add: owes_def split: if_splits)
  moreover have "hand_ok conv (rt_loop_open s \<and> rt_initialized s) (queued ?s j) (rt_hands ?s ! j)"
    if j: "j < length (rt_hands s)" for j
  proof (cases "j = i")
    case False
    then show ?thesis
      using rt_inv_hand [OF inv j] j queued_Cons [OF q, of j] by (simp add: on_hand_nth queued_def)
  next
    case True
    with rt_inv_hand [OF inv i] queued_Cons [OF q, of i] i show ?thesis
      by (auto simp: on_hand_nth queued_def hand_ok_def completor_def settle_def
          split: hand_phase.splits option.splits settle_call.splits)
  qed
  ultimately show ?thesis
    using inv q by (auto simp: rt_inv_def)
qed

lemma rt_inv_step: "rt_step conv s s' \<Longrightarrow> rt_inv conv s \<Longrightarrow> rt_inv conv s'"
proof (induction rule: rt_step.induct)
  case (handing s)
  then show ?case by (simp add: into_py_future_def rt_inv_handing)
next
  case (posting i s result)
  then show ?case by (simp add: rt_inv_posting)
next
  case (completing s i c q)
  then show ?case by (simp add: rt_inv_completing)
next
  case (loop_closed s)
  then show ?case
    by (auto simp: rt_inv_def queued_def hand_ok_def split: hand_phase.splits option.splits)
next
  case (finalized s)
  then show ?case
    by (auto simp: rt_inv_def queued_def hand_ok_def split: hand_phase.splits option.splits)
qed (auto intro!: rt_inv_on_hand simp: owes_def hand_ok_def
    split: hand_phase.splits option.splits settle_call.splits)

lemma rt_inv_reachable: "rt_reachable conv s \<Longrightarrow> rt_inv conv s"
  by (induction rule: rtranclp_induct) (auto intro: rt_inv_new rt_inv_step)

definition settled_with :: "'v settle_call \<Rightarrow> ('r, 'v) handed \<Rightarrow> bool" where
  "settled_with c h \<longleftrightarrow>
     h_future h = (case c of SetResult v \<Rightarrow> FutResult v | SetException e \<Rightarrow> FutException e)"

lemma post_hand:
  "i < length (rt_hands s) \<Longrightarrow> h_future (rt_hands (post conv k r s) ! i) = h_future (rt_hands s ! i)"
  by (auto simp: post_def Let_def on_hand_nth split: option.splits)

lemma rt_step_hands: "rt_step conv s s' \<Longrightarrow> length (rt_hands s) \<le> length (rt_hands s')"
  by (induction rule: rt_step.induct)
    (auto simp: into_py_future_def hand_over_def post_def Let_def split: option.splits)


lemma idle_delivers:
  assumes "rt_reachable conv s"
  shows "(wait_idle s \<longleftrightarrow> (\<forall>h \<in> set (rt_hands s). \<not> owes h)) \<and>
    (wait_idle s \<and> rt_loop s = [] \<and> rt_loop_open s \<and> rt_initialized s \<longrightarrow>
      (\<forall>h \<in> set (rt_hands s). h_future h = FutCancelled \<or>
        (\<exists>r. h_phase h = Posted (Some r) \<and> settled_with (settlement conv r) h)))"
proof
  note inv = rt_inv_reachable [OF assms]
  show idle: "wait_idle s \<longleftrightarrow> (\<forall>h \<in> set (rt_hands s). \<not> owes h)"
    using inv by (auto simp: rt_inv_def wait_idle_def filter_empty_conv)
  show "wait_idle s \<and> rt_loop s = [] \<and> rt_loop_open s \<and> rt_initialized s \<longrightarrow>
      (\<forall>h \<in> set (rt_hands s). h_future h = FutCancelled \<or>
        (\<exists>r. h_phase h = Posted (Some r) \<and> settled_with (settlement conv r) h))"
  proof (intro impI ballI)
    fix h
    assume l: "wait_idle s \<and> rt_loop s = [] \<and> rt_loop_open s \<and> rt_initialized s"
      and "h \<in> set (rt_hands s)"
    then obtain i where i: "i < length (rt_hands s)" "h = rt_hands s ! i"
      by (auto simp: in_set_conv_nth)
    moreover have "\<not> owes h"
      using idle l \<open>h \<in> set (rt_hands s)\<close> by blast
    ultimately
    show "h_future h = FutCancelled \<or>
        (\<exists>r. h_phase h = Posted (Some r) \<and> settled_with (settlement conv r) h)"
      using rt_inv_hand [OF inv i(1)] l
      by (auto simp: hand_ok_def owes_def queued_def settled_with_def
          split: hand_phase.splits option.splits settle_call.splits)
  qed
qed

text \<open>
  C17. \<open>wait_idle\<close> is true exactly when no handed future still owes the interpreter a completion.
  If then the loop is open, the interpreter is alive and the loop has run what was posted to it,
  every handed future is cancelled or settled with the outcome of its own Rust future; no outcome
  is lost, and only a future that Python cancelled has none.
\<close>

theorem idle_means_delivered:
  assumes "rt_reachable conv s"
  shows "(wait_idle s \<longleftrightarrow> (\<forall>h \<in> set (rt_hands s). \<not> owes h)) \<and>
    (wait_idle s \<and> rt_loop s = [] \<and> rt_loop_open s \<and> rt_initialized s \<longrightarrow>
      (\<forall>h \<in> set (rt_hands s). h_future h = FutCancelled \<or>
        (\<exists>r. h_phase h = Posted (Some r) \<and> settled_with (settlement conv r) h)))"
  using assms by (rule idle_delivers)

text \<open>A guard is dropped only while the count holds it: it never underflows.\<close>

lemma guard_is_counted:
  "rt_reachable conv s \<Longrightarrow> i < length (rt_hands s) \<Longrightarrow> h_phase (rt_hands s ! i) = Posting r \<Longrightarrow>
   0 < in_flight s"
  by (rule owes_positive) (auto intro: rt_inv_reachable simp: owes_def)

text \<open>A run with one future: handed over, ready with 7, posted, and completed by the loop.\<close>

definition ready_run :: "(nat, nat) rt" where
  "ready_run = on_hand 0 (h_phase_update (\<lambda>_. Posting (Some (Inr 7)))) (hand_over rt_new)"

definition posted_run :: "(nat, nat) rt" where
  "posted_run = post Inr 0 (Some (Inr 7)) ready_run"

definition completed_run :: "(nat, nat) rt" where
  "completed_run = (on_hand 0 (completor (SetResult 7)) posted_run)\<lparr>rt_loop := []\<rparr>"

lemma posted_run_reachable: "rt_reachable Inr posted_run"
proof -
  have "rt_step Inr rt_new (hand_over rt_new :: (nat, nat) rt)"
    using rt_step.handing [of Inr rt_new] by (simp add: into_py_future_def)
  moreover have "rt_step Inr (hand_over rt_new :: (nat, nat) rt) ready_run"
    unfolding ready_run_def
    by (rule rt_step.fut_ready) (simp_all add: hand_over_def rt_new_def handed_new_def)
  moreover have "rt_step Inr ready_run posted_run"
    unfolding posted_run_def
    by (rule rt_step.posting) (simp_all add: ready_run_def on_hand_def hand_over_def rt_new_def handed_new_def)
  ultimately show ?thesis
    by (blast intro: rtranclp.rtrancl_into_rtrancl rtranclp.rtrancl_refl)
qed

lemma completing_run: "rt_step Inr posted_run completed_run"
  unfolding completed_run_def
  by (rule rt_step.completing [where i = 0])
    (simp add: posted_run_def post_def ready_run_def on_hand_def hand_over_def rt_new_def handed_new_def
      settlement_def Let_def)

lemma completed_run_reachable: "rt_reachable Inr completed_run"
  using posted_run_reachable completing_run by (rule rtranclp.rtrancl_into_rtrancl)

lemma run_values:
  "rt_hands posted_run = [\<lparr>h_phase = Posted (Some (Inr 7)), h_future = FutPending, h_cancel_tx = True,
     h_cancel_sent = False, h_relay_due = False\<rparr>]"
  "rt_loop posted_run = [(0, SetResult 7)]"
  "rt_hands completed_run = [\<lparr>h_phase = Posted (Some (Inr 7)), h_future = FutResult 7, h_cancel_tx = True,
     h_cancel_sent = False, h_relay_due = True\<rparr>]"
  by (code_simp)+


theorem idle_means_delivered_witness:
  "wait_idle completed_run \<and> settled_with (SetResult 7) (rt_hands completed_run ! 0)"
  using idle_means_delivered [OF completed_run_reachable]
  by (simp add: run_values owes_def settled_with_def)

section \<open>Joining tasks\<close>

text \<open>
  \<open>join_all\<close> spawns every future and awaits the handles in input order; a task that panicked is
  the error of \<open>on_join_error\<close>. \<open>results_to_py\<close> puts the exception object of a failure in the
  list, and raises only when a conversion does.
\<close>

datatype 'r task_end = TaskReturned "'r res" | TaskFailed string

definition join_all :: "(string \<Rightarrow> pyexc) \<Rightarrow> 'r task_end list \<Rightarrow> 'r res list" where
  "join_all on_join_error ends =
     map (\<lambda>e. case e of TaskReturned r \<Rightarrow> r | TaskFailed why \<Rightarrow> Inl (on_join_error why)) ends"

datatype 'v py_item = PyItem 'v | PyExcItem pyexc

definition results_to_py :: "('r \<Rightarrow> 'v res) \<Rightarrow> 'r res list \<Rightarrow> 'v py_item list res" where
  "results_to_py conv results =
     collect_res (map (\<lambda>r. case r of Inr v \<Rightarrow> map_res PyItem (conv v) | Inl e \<Rightarrow> Inr (PyExcItem e)) results)"

lemma collect_res_nth:
  "collect_res rs = Inr xs \<Longrightarrow> length xs = length rs \<and> (\<forall>i < length rs. rs ! i = Inr (xs ! i))"
  by (induction rs arbitrary: xs rule: collect_res.induct) (auto simp: less_Suc_eq_0_disj)

text \<open>What the list holds for one task.\<close>

fun entry_for :: "('r \<Rightarrow> 'v res) \<Rightarrow> (string \<Rightarrow> pyexc) \<Rightarrow> 'r task_end \<Rightarrow> 'v py_item res" where
  "entry_for conv on_join_error (TaskReturned (Inr v)) = map_res PyItem (conv v)"
| "entry_for conv on_join_error (TaskReturned (Inl e)) = Inr (PyExcItem e)"
| "entry_for conv on_join_error (TaskFailed why) = Inr (PyExcItem (on_join_error why))"

lemma results_to_py_join:
  "results_to_py conv (join_all on_join_error ends) = collect_res (map (entry_for conv on_join_error) ends)"
proof -
  have "(case (case e of TaskReturned r \<Rightarrow> r | TaskFailed why \<Rightarrow> Inl (on_join_error why)) of
      Inr v \<Rightarrow> map_res PyItem (conv v) | Inl e \<Rightarrow> Inr (PyExcItem e)) = entry_for conv on_join_error e" for e
    by (cases "(conv, on_join_error, e)" rule: entry_for.cases) simp_all
  then show ?thesis by (simp add: results_to_py_def join_all_def o_def)
qed

lemma results_in_input_order:
  "results_to_py conv (join_all on_join_error ends) = Inr items \<Longrightarrow>
   length items = length ends \<and>
   (\<forall>i < length ends. entry_for conv on_join_error (ends ! i) = Inr (items ! i))"
  unfolding results_to_py_join by (auto dest: collect_res_nth)

text \<open>
  What the caller of \<open>join_all\<close> and \<open>results_to_py\<close> gets when each task ends as it does: it waits
  forever when one of them does, and a panic is a failed task.
\<close>

fun task_ends :: "'a outcome list \<Rightarrow> 'a task_end list option" where
  "task_ends [] = Some []"
| "task_ends (Finished r # os) = map_option ((#) (TaskReturned r)) (task_ends os)"
| "task_ends (Panicked # os) = map_option ((#) (TaskFailed ''panicked'')) (task_ends os)"
| "task_ends (Waiting # os) = None"

definition joined_with :: "(string \<Rightarrow> pyexc) \<Rightarrow> 'a outcome list \<Rightarrow> 'a py_item list outcome" where
  "joined_with on_join_error outs =
     (case task_ends outs of
        None \<Rightarrow> Waiting
      | Some ends \<Rightarrow> Finished (results_to_py Inr (join_all on_join_error ends)))"

lemma task_ends_map: "task_ends outs = Some ends \<Longrightarrow>
  ends = map (\<lambda>u. case u of Finished r \<Rightarrow> TaskReturned r | _ \<Rightarrow> TaskFailed ''panicked'') outs"
  by (induction outs arbitrary: ends rule: task_ends.induct) auto

lemma joined_with_entries:
  assumes "joined_with je outs = Finished (Inr res)"
  shows "length res = length outs \<and> (\<forall>i < length outs.
    res ! i = (case outs ! i of Finished (Inr v) \<Rightarrow> PyItem v | Finished (Inl e) \<Rightarrow> PyExcItem e
      | _ \<Rightarrow> PyExcItem (je ''panicked'')))"
proof -
  from assms obtain ends where ends: "task_ends outs = Some ends" "results_to_py Inr (join_all je ends) = Inr res"
    by (auto simp: joined_with_def split: option.splits)
  from results_in_input_order [OF ends(2)] task_ends_map [OF ends(1)]
  show ?thesis by (auto split: outcome.splits sum.splits)
qed

lemma joined_with_no_error: "joined_with je outs \<noteq> Finished (Inl e)"
proof -
  have "results_to_py Inr rs \<noteq> Inl e" for rs :: "'a res list"
    by (induction rs) (auto simp: results_to_py_def map_res_eq_Inl split: sum.splits)
  then show ?thesis by (auto simp: joined_with_def split: option.splits)
qed

end
