(* ===== verification/CaChannel.thy ===== *)
theory CaChannel
  imports CaValue CaHub CaMonitor Drain Runtime
begin

text \<open>
  Channels of \<open>src/src/ca.rs\<close>: reading, writing, waiting and subscribing (\<open>CaChannel\<close>), the same over
  many channels (\<open>CaContext\<close>), \<open>Snapshot\<close>, \<open>ChannelInfo\<close> and the connection events.

  The channel of the client library is a record of what each of its calls answers when the code makes
  it; an awaited answer is \<open>None\<close> when it does not come before the deadline. The requests a call makes
  are returned beside its outcome.
\<close>

section \<open>Snapshots\<close>

record display_info =
  d_units :: string
  d_precision :: i16
  d_upper_disp_limit :: f64
  d_lower_disp_limit :: f64
  d_upper_alarm_limit :: f64
  d_lower_alarm_limit :: f64
  d_upper_warning_limit :: f64
  d_lower_warning_limit :: f64

record rs_snapshot =
  rs_value :: epics_value
  rs_status :: u16
  rs_severity :: u16
  rs_ackt :: "u16 option"
  rs_acks :: "u16 option"
  rs_stamp :: "u64 \<times> u32"
  rs_display :: "display_info option"
  rs_control :: "(f64 \<times> f64) option"
  rs_enums :: "string list option"

record ca_snapshot =
  sn_name :: string
  sn_value :: py
  sn_datatype :: string
  sn_dbr :: u16
  sn_element_count :: u32
  sn_status :: u16
  sn_severity :: u16
  sn_raw_stamp :: "u64 \<times> u32"
  sn_units :: "string option"
  sn_precision :: "i16 option"
  sn_upper_disp_limit :: "f64 option"
  sn_lower_disp_limit :: "f64 option"
  sn_upper_alarm_limit :: "f64 option"
  sn_lower_alarm_limit :: "f64 option"
  sn_upper_warning_limit :: "f64 option"
  sn_lower_warning_limit :: "f64 option"
  sn_upper_ctrl_limit :: "f64 option"
  sn_lower_ctrl_limit :: "f64 option"
  sn_enums :: "py list option"
  sn_ackt :: "u16 option"
  sn_acks :: "u16 option"

definition DBR_NAMES :: "string list" where
  "DBR_NAMES = [''string'', ''short'', ''float'', ''enum'', ''char'', ''long'', ''double'']"

text \<open>The library's wire type and element count of a value, and the numpy array of a \<open>CharArray\<close>.\<close>

record value_lib =
  wire_type :: "epics_value \<Rightarrow> u16"
  value_count :: "epics_value \<Rightarrow> u32"
  char_array :: "int list \<Rightarrow> py"

text \<open>A wire type past the table would panic.\<close>

definition snapshot_from_rs :: "py_lib \<Rightarrow> value_lib \<Rightarrow> string \<Rightarrow> rs_snapshot \<Rightarrow> ca_snapshot res" where
  "snapshot_from_rs L V name snap =
     (let dbr = wire_type V (rs_value snap); disp = rs_display snap in
      if length DBR_NAMES \<le> unat dbr then Inl (RuntimeError (Msg ''index out of bounds'' []))
      else Inr
        \<lparr>sn_name = name, sn_value = ca_to_py L (char_array V) (rs_value snap),
         sn_datatype = DBR_NAMES ! unat dbr, sn_dbr = dbr, sn_element_count = value_count V (rs_value snap),
         sn_status = rs_status snap, sn_severity = rs_severity snap, sn_raw_stamp = rs_stamp snap,
         sn_units = map_option (lossy L \<circ> d_units) disp, sn_precision = map_option d_precision disp,
         sn_upper_disp_limit = map_option d_upper_disp_limit disp,
         sn_lower_disp_limit = map_option d_lower_disp_limit disp,
         sn_upper_alarm_limit = map_option d_upper_alarm_limit disp,
         sn_lower_alarm_limit = map_option d_lower_alarm_limit disp,
         sn_upper_warning_limit = map_option d_upper_warning_limit disp,
         sn_lower_warning_limit = map_option d_lower_warning_limit disp,
         sn_upper_ctrl_limit = map_option fst (rs_control snap),
         sn_lower_ctrl_limit = map_option snd (rs_control snap),
         sn_enums = map_option (map (\<lambda>s. PStr (lossy L s))) (rs_enums snap),
         sn_ackt = rs_ackt snap, sn_acks = rs_acks snap\<rparr>)"

section \<open>Channel facts and events\<close>

record rs_channel_info =
  i_pv_name :: string
  i_server_addr :: string
  i_type_name :: string
  i_wire_type :: u16
  i_element_count :: u32
  i_read :: bool
  i_write :: bool

record channel_info =
  ci_name :: string
  ci_host :: string
  ci_datatype :: string
  ci_dbr :: u16
  ci_element_count :: u32
  ci_read_access :: bool
  ci_write_access :: bool

definition channel_info_from :: "rs_channel_info \<Rightarrow> channel_info" where
  "channel_info_from i =
     \<lparr>ci_name = i_pv_name i, ci_host = i_server_addr i, ci_datatype = i_type_name i, ci_dbr = i_wire_type i,
      ci_element_count = i_element_count i, ci_read_access = i_read i, ci_write_access = i_write i\<rparr>"

datatype rs_connection_event =
    RsConnected
  | RsConnDown
  | RsAccessRightsChanged bool bool
  | RsNativeTypeChanged u16

datatype recv_error = RecvLagged u64 | RecvClosed

record connection_event =
  ce_kind :: string
  ce_read :: "bool option"
  ce_write :: "bool option"
  ce_dbr :: "u16 option"

definition connection_event_from_rs :: "recv_error + rs_connection_event \<Rightarrow> connection_event option" where
  "connection_event_from_rs r =
     map_option (\<lambda>(kind, rd, wr, dbr). \<lparr>ce_kind = kind, ce_read = rd, ce_write = wr, ce_dbr = dbr\<rparr>)
       (case r of
          Inr RsConnected \<Rightarrow> Some (''connected'', None, None, None)
        | Inr RsConnDown \<Rightarrow> Some (''disconnected'', None, None, None)
        | Inr (RsAccessRightsChanged rd wr) \<Rightarrow> Some (''access_rights'', Some rd, Some wr, None)
        | Inr (RsNativeTypeChanged t) \<Rightarrow> Some (''type_changed'', None, None, Some t)
        | Inl (RecvLagged _) \<Rightarrow> Some (''lagged'', None, None, None)
        | Inl RecvClosed \<Rightarrow> None)"

text \<open>\<open>CaEvents\<close>: what its drain pulls, \<open>None\<close> once it is closed.\<close>

definition events_recv ::
  "eca_lib \<Rightarrow> f64 option \<Rightarrow> (recv_error + rs_connection_event) option future \<Rightarrow> connection_event option outcome"
where
  "events_recv eca timeout pulled =
     bounded eca timeout (case pulled of
       NotInTime \<Rightarrow> NotInTime
     | ReadyInTime r \<Rightarrow> ReadyInTime (map_res (\<lambda>x. Option.bind x connection_event_from_rs) r))"

section \<open>The channel of the library\<close>

type_synonym 'a ca_future = "(rs_ca_error + 'a) option"

text \<open>\<open>duration_or_forever\<close>; \<open>None\<close> when \<open>Duration::from_secs_f64\<close> panics.\<close>

datatype duration = Seconds f64 | Forever

definition duration_or_forever :: "f64 option \<Rightarrow> duration option" where
  "duration_or_forever timeout =
     (case timeout of
        Some secs \<Rightarrow>
          if duration_panics secs then None
          else Some (Seconds (if f64_neg secs \<or> f64_is_nan secs then 0 else secs))
      | None \<Rightarrow> Some Forever)"

datatype req_count = Autosize u32 | Fixed u32

datatype ca_put =
    PutString string duration
  | PutStringNowait string
  | PutStringArray "string list" duration
  | PutStringArrayNowait "string list"
  | PutWithTimeout epics_value duration
  | PutNowait epics_value

record 'h ca_chan =
  ch_probe :: bool
  ch_wait_connected :: "duration \<Rightarrow> unit ca_future"
  ch_info :: "rs_channel_info ca_future"
  ch_native_type :: "rs_ca_error + u16"
  ch_element_count :: "rs_ca_error + u32"
  ch_get_with_dbr_type :: "u16 \<Rightarrow> req_count \<Rightarrow> rs_snapshot ca_future"
  ch_put :: "ca_put \<Rightarrow> unit ca_future"
  ch_subscribe :: "subscribe_request \<Rightarrow> 'h ca_future"

text \<open>\<open>.await.map_err(..)?\<close> and what follows it.\<close>

definition fut_bind :: "'a future \<Rightarrow> ('a \<Rightarrow> 'b future) \<Rightarrow> 'b future" where
  "fut_bind f k =
     (case f of NotInTime \<Rightarrow> NotInTime | ReadyInTime (Inl e) \<Rightarrow> ReadyInTime (Inl e) | ReadyInTime (Inr x) \<Rightarrow> k x)"

definition awaiting :: "(rs_ca_error \<Rightarrow> pyexc) \<Rightarrow> 'a ca_future \<Rightarrow> 'a future" where
  "awaiting map_err f =
     (case f of
        None \<Rightarrow> NotInTime
      | Some (Inl e) \<Rightarrow> ReadyInTime (Inl (map_err e))
      | Some (Inr x) \<Rightarrow> ReadyInTime (Inr x))"

section \<open>Reading and writing\<close>

definition read_count :: "rs_ca_error + u32 \<Rightarrow> i64 \<Rightarrow> rs_ca_error + req_count" where
  "read_count element_count count =
     (if count = 0 then Inr (Autosize 0)
      else if sint count < 0 then Inr (Fixed 0)
      else (case element_count of
              Inl e \<Rightarrow> Inl e
            | Inr n \<Rightarrow> Inr (Fixed (min (to_u32_sat count) n))))"

definition DBR_STRING_BASE :: u16 where "DBR_STRING_BASE = 0"

definition DBR_ENUM_BASE :: u16 where "DBR_ENUM_BASE = 3"

record get_request =
  gr_dbr :: "u16 option"
  gr_form :: u16
  gr_enum_as_string :: bool

definition ensure_connected :: "eca_lib \<Rightarrow> 'h ca_chan \<Rightarrow> ca_op \<Rightarrow> unit future" where
  "ensure_connected eca ch op =
     fut_bind (if ch_probe ch then ReadyInTime (Inr ()) else awaiting (map_ca eca) (ch_wait_connected ch Forever)) (\<lambda>_.
     fut_bind (awaiting (map_ca eca) (ch_info ch)) (\<lambda>info.
       let allowed = (case op of CaWrite \<Rightarrow> i_write info | _ \<Rightarrow> i_read info)
       in ReadyInTime (if allowed then Inr () else Inl (access_denied eca op))))"

text \<open>The base type of a read, and the read that is sent; the release build wraps the sum.\<close>

definition get_base :: "get_request \<Rightarrow> u16 \<Rightarrow> u16" where
  "get_base rq native =
     (case gr_dbr rq of
        Some b \<Rightarrow> b
      | None \<Rightarrow> if gr_enum_as_string rq \<and> native = DBR_ENUM_BASE then DBR_STRING_BASE else native)"

definition get_call :: "eca_lib \<Rightarrow> 'h ca_chan \<Rightarrow> get_request \<Rightarrow> i64 \<Rightarrow> (u16 \<times> req_count) future" where
  "get_call eca ch rq count =
     fut_bind (ensure_connected eca ch CaRead) (\<lambda>_.
     fut_bind (awaiting (map_ca eca) (Some (ch_native_type ch))) (\<lambda>native.
     fut_bind (awaiting (map_ca eca) (Some (read_count (ch_element_count ch) count))) (\<lambda>cnt.
       ReadyInTime (Inr (get_base rq native + gr_form rq, cnt)))))"

text \<open>What a future that is polled under a deadline has sent; a deadline that panics polls nothing.\<close>

definition sent_calls :: "f64 option \<Rightarrow> 'a future \<Rightarrow> 'a list" where
  "sent_calls timeout call =
     (if (case timeout of None \<Rightarrow> False | Some secs \<Rightarrow> duration_panics secs) then []
      else (case call of ReadyInTime (Inr c) \<Rightarrow> [c] | _ \<Rightarrow> []))"

definition ca_do_get ::
  "py_lib \<Rightarrow> value_lib \<Rightarrow> eca_lib \<Rightarrow> 'h ca_chan \<Rightarrow> string \<Rightarrow> get_request \<Rightarrow> i64 \<Rightarrow> f64 option \<Rightarrow>
     (u16 \<times> req_count) list \<times> ca_snapshot outcome"
where
  "ca_do_get L V eca ch name rq count timeout =
     (let call = get_call eca ch rq count in
      (sent_calls timeout call,
       case bounded eca timeout (fut_bind call (\<lambda>(t, n). awaiting (map_ca eca) (ch_get_with_dbr_type ch t n))) of
         Finished r \<Rightarrow> Finished (bind_res r (snapshot_from_rs L V name))
       | Panicked \<Rightarrow> Panicked
       | Waiting \<Rightarrow> Waiting))"

definition put_call_for :: "put_request \<Rightarrow> bool \<Rightarrow> ca_put" where
  "put_call_for rq wait =
     (case (rq, wait) of
        (PutStr s, True) \<Rightarrow> PutString s Forever
      | (PutStr s, False) \<Rightarrow> PutStringNowait s
      | (PutStrArray a, True) \<Rightarrow> PutStringArray a Forever
      | (PutStrArray a, False) \<Rightarrow> PutStringArrayNowait a
      | (PutValue v, True) \<Rightarrow> PutWithTimeout v Forever
      | (PutValue v, False) \<Rightarrow> PutNowait v)"

definition ca_do_put ::
  "eca_lib \<Rightarrow> 'h ca_chan \<Rightarrow> put_request \<Rightarrow> bool \<Rightarrow> f64 option \<Rightarrow> ca_put list \<times> unit outcome"
where
  "ca_do_put eca ch rq wait timeout =
     (let call = fut_bind (ensure_connected eca ch CaWrite) (\<lambda>_. ReadyInTime (Inr (put_call_for rq wait))) in
      (sent_calls timeout call,
       bounded eca timeout (fut_bind call (\<lambda>c. awaiting (map_ca_write eca) (ch_put ch c)))))"

text \<open>\<open>do_wait_connected\<close> leaves the deadline to the library.\<close>

definition do_wait_connected :: "eca_lib \<Rightarrow> 'h ca_chan \<Rightarrow> f64 option \<Rightarrow> unit outcome" where
  "do_wait_connected eca ch timeout =
     (case duration_or_forever timeout of
        None \<Rightarrow> Panicked
      | Some d \<Rightarrow>
          (case awaiting (map_ca eca) (ch_wait_connected ch d) of
             NotInTime \<Rightarrow> Waiting
           | ReadyInTime r \<Rightarrow> Finished r))"

definition do_subscribe ::
  "eca_lib \<Rightarrow> 'h ca_chan \<Rightarrow> string \<Rightarrow> f64 \<Rightarrow> u16 \<Rightarrow> bool \<Rightarrow> bool \<Rightarrow> i64 \<Rightarrow>
     (string \<times> (('h, 'v) ca_monitor, 'r) drain) future"
where
  "do_subscribe eca ch name deadband dbe_mask enum_as_string float_as_string count =
     fut_bind (awaiting (map_ca eca) (Some (monitor_count (ch_element_count ch) count))) (\<lambda>cap.
     fut_bind (awaiting (map_ca eca) (ch_subscribe ch
         \<lparr>rq_deadband = deadband, rq_mask = dbe_mask,
          rq_readback = (if enum_as_string then ReadbackLabel else ReadbackNative),
          rq_float_as_string = float_as_string, rq_count = cap\<rparr>)) (\<lambda>h.
       ReadyInTime (Inr (name, drain_new \<lparr>handle = h, stashed = None\<rparr>))))"

text \<open>The blocking \<open>put\<close>: a value that cannot be converted is refused before anything else.\<close>

definition ca_channel_put ::
  "py_lib \<Rightarrow> eca_lib \<Rightarrow> 'h ca_chan \<Rightarrow> py \<Rightarrow> bool \<Rightarrow> f64 option \<Rightarrow> ca_put list \<times> unit outcome"
where
  "ca_channel_put L eca ch val wait timeout =
     (case ca_from_py L val of
        Inl e \<Rightarrow> ([], Finished (Inl e))
      | Inr rq \<Rightarrow> ca_do_put eca ch rq wait timeout)"

text \<open>The other methods of \<open>CaChannel\<close>. The bits of the default mask are constants of the library.\<close>

record dbe_lib =
  DBE_VALUE :: u16
  DBE_LOG :: u16
  DBE_ALARM :: u16

definition DEFAULT_MASK :: "dbe_lib \<Rightarrow> u16" where
  "DEFAULT_MASK dbe = or (or (DBE_VALUE dbe) (DBE_LOG dbe)) (DBE_ALARM dbe)"

definition channel_connected :: "'h ca_chan \<Rightarrow> bool" where
  "channel_connected ch = (case ch_native_type ch of Inr _ \<Rightarrow> True | Inl _ \<Rightarrow> False)"

definition channel_dbr :: "'h ca_chan \<Rightarrow> u16 option" where
  "channel_dbr ch = (case ch_native_type ch of Inr t \<Rightarrow> Some t | Inl _ \<Rightarrow> None)"

definition channel_element_count :: "'h ca_chan \<Rightarrow> u32 option" where
  "channel_element_count ch = (case ch_element_count ch of Inr n \<Rightarrow> Some n | Inl _ \<Rightarrow> None)"

definition ca_channel_info :: "eca_lib \<Rightarrow> 'h ca_chan \<Rightarrow> channel_info outcome" where
  "ca_channel_info eca ch =
     block_on (fut_bind (awaiting (map_ca eca) (ch_info ch)) (\<lambda>i. ReadyInTime (Inr (channel_info_from i))))"

definition ca_channel_get ::
  "py_lib \<Rightarrow> value_lib \<Rightarrow> eca_lib \<Rightarrow> 'h ca_chan \<Rightarrow> string \<Rightarrow> u16 option \<Rightarrow> u16 \<Rightarrow> bool \<Rightarrow> i64 \<Rightarrow> f64 option \<Rightarrow>
     (u16 \<times> req_count) list \<times> ca_snapshot outcome"
where
  "ca_channel_get L V eca ch name dbr form enum_as_string count timeout =
     ca_do_get L V eca ch name
       \<lparr>gr_dbr = dbr, gr_form = form, gr_enum_as_string = enum_as_string\<rparr> count timeout"

definition ca_channel_subscribe ::
  "eca_lib \<Rightarrow> dbe_lib \<Rightarrow> 'h ca_chan \<Rightarrow> string \<Rightarrow> f64 \<Rightarrow> u16 option \<Rightarrow> bool \<Rightarrow> bool \<Rightarrow> i64 \<Rightarrow>
     (string \<times> (('h, 'v) ca_monitor, 'r) drain) outcome"
where
  "ca_channel_subscribe eca dbe ch name deadband dbe_mask enum_as_string float_as_string count =
     block_on (do_subscribe eca ch name deadband
       (case dbe_mask of Some m \<Rightarrow> m | None \<Rightarrow> DEFAULT_MASK dbe) enum_as_string float_as_string count)"

text \<open>\<open>events\<close> starts a drain over the receiver the library hands out.\<close>

definition ca_channel_events :: "'rx \<Rightarrow> ('rx, 'r) drain" where
  "ca_channel_events rx = drain_new rx"

section \<open>Many channels\<close>

definition ca_join_error :: "eca_lib \<Rightarrow> string \<Rightarrow> pyexc" where
  "ca_join_error eca e = CaError (Msg ''task failed: {e}'' [AStr e]) (ECA_INTERNAL eca)"

definition none_on_success :: "unit outcome \<Rightarrow> py outcome" where
  "none_on_success f =
     (case f of Finished r \<Rightarrow> Finished (map_res (\<lambda>_. PNone) r) | Panicked \<Rightarrow> Panicked | Waiting \<Rightarrow> Waiting)"

definition wait_futs :: "eca_lib \<Rightarrow> 'h ca_chan list \<Rightarrow> f64 option \<Rightarrow> py outcome list" where
  "wait_futs eca chans timeout = map (\<lambda>c. none_on_success (do_wait_connected eca c timeout)) chans"

definition wait_connected_many :: "eca_lib \<Rightarrow> 'h ca_chan list \<Rightarrow> f64 option \<Rightarrow> py py_item list outcome" where
  "wait_connected_many eca chans timeout = joined_with (ca_join_error eca) (wait_futs eca chans timeout)"

definition get_futs ::
  "py_lib \<Rightarrow> value_lib \<Rightarrow> eca_lib \<Rightarrow> ('h ca_chan \<times> string) list \<Rightarrow> get_request \<Rightarrow> i64 \<Rightarrow> f64 option \<Rightarrow>
     ca_snapshot outcome list"
where
  "get_futs L V eca chans rq count timeout =
     map (\<lambda>(c, name). snd (ca_do_get L V eca c name rq count timeout)) chans"

definition ca_get_many ::
  "py_lib \<Rightarrow> value_lib \<Rightarrow> eca_lib \<Rightarrow> ('h ca_chan \<times> string) list \<Rightarrow> u16 option \<Rightarrow> u16 \<Rightarrow> bool \<Rightarrow> i64 \<Rightarrow>
     f64 option \<Rightarrow> ca_snapshot py_item list outcome"
where
  "ca_get_many L V eca chans dbr form enum_as_string count timeout =
     joined_with (ca_join_error eca)
       (get_futs L V eca chans \<lparr>gr_dbr = dbr, gr_form = form, gr_enum_as_string = enum_as_string\<rparr> count timeout)"

text \<open>The writes, each with what it sends; every value is converted before the first write is made.\<close>

definition put_futs ::
  "py_lib \<Rightarrow> eca_lib \<Rightarrow> 'h ca_chan list \<Rightarrow> py list \<Rightarrow> bool \<Rightarrow> f64 option \<Rightarrow> (ca_put list \<times> py outcome) list res"
where
  "put_futs L eca chans vals wait timeout =
     (if length chans \<noteq> length vals then
        Inl (ValueError (Msg ''{} channels but {} values'' [ANat (length chans), ANat (length vals)]))
      else
        map_res (\<lambda>rqs. map (\<lambda>(c, rq). apsnd none_on_success (ca_do_put eca c rq wait timeout)) (zip chans rqs))
          (collect_res (map (ca_from_py L) vals)))"

definition put_many ::
  "py_lib \<Rightarrow> eca_lib \<Rightarrow> 'h ca_chan list \<Rightarrow> py list \<Rightarrow> bool \<Rightarrow> f64 option \<Rightarrow>
     ca_put list list \<times> py py_item list outcome"
where
  "put_many L eca chans vals wait timeout =
     (case put_futs L eca chans vals wait timeout of
        Inl e \<Rightarrow> ([], Finished (Inl e))
      | Inr puts \<Rightarrow> (map fst puts, joined_with (ca_join_error eca) (map snd puts)))"

section \<open>Properties\<close>

lemma to_u32_sat_min:
  assumes "0 < sint (count :: i64)"
  shows "unat (min (to_u32_sat count) m) = min (nat (sint count)) (unat m)"
proof (cases "sint count < 2 ^ 32")
  case True
  have "unat (word_of_int i :: u32) = nat i" if "0 < i" "i < 2 ^ 32" for i
    using that by (simp add: unsigned_of_int take_bit_int_eq_self)
  from this [OF assms True] assms True have "unat (to_u32_sat count) = nat (sint count)"
    unfolding to_u32_sat_def by simp
  then show ?thesis by (simp add: min_def word_le_nat_alt)
next
  case False
  with assms have sat: "to_u32_sat count = - 1" by (simp add: to_u32_sat_def)
  have "uint m < 2 ^ 32" using uint_bounded [of m] by simp
  then have "nat (uint m) \<le> nat (sint count)" using False by (intro nat_mono) linarith
  then have "unat m \<le> nat (sint count)" by simp
  moreover have "min (- 1) m = m" by (rule min_absorb2) (rule word_order.extremum)
  ultimately show ?thesis using sat by simp
qed

lemma sent_calls_cases:
  "sent_calls timeout f = [] \<or> (\<exists>c. f = ReadyInTime (Inr c) \<and> sent_calls timeout f = [c])"
  by (auto simp: sent_calls_def split: future.splits sum.splits)

lemma fut_bind_Ready:
  "fut_bind f k = ReadyInTime (Inr y) \<longleftrightarrow> (\<exists>x. f = ReadyInTime (Inr x) \<and> k x = ReadyInTime (Inr y))"
  by (auto simp: fut_bind_def split: future.splits sum.splits)

lemma awaiting_Ready: "awaiting map_err f = ReadyInTime (Inr x) \<longleftrightarrow> f = Some (Inr x)"
  by (auto simp: awaiting_def split: option.splits sum.splits)

lemma ensure_connected_Ready:
  "ensure_connected eca ch op = ReadyInTime (Inr u) \<longleftrightarrow>
     (ch_probe ch \<or> ch_wait_connected ch Forever = Some (Inr ())) \<and>
     (\<exists>info. ch_info ch = Some (Inr info) \<and> (case op of CaWrite \<Rightarrow> i_write info | _ \<Rightarrow> i_read info))"
  by (auto simp: ensure_connected_def fut_bind_Ready awaiting_Ready split: if_splits)

lemma bounded_Finished:
  "bounded eca timeout f = Finished (Inr x) \<Longrightarrow> f = ReadyInTime (Inr x)"
  by (auto simp: bounded_def bounded_with_def split: option.splits future.splits if_splits)

lemma bounded_polls: "bounded eca timeout f \<noteq> Panicked \<Longrightarrow> call = ReadyInTime (Inr c) \<Longrightarrow> sent_calls timeout call = [c]"
  by (auto simp: bounded_def bounded_with_def sent_calls_def split: option.splits)

text \<open>
  C26. A read sends at most one request, and only on a connected channel that grants read access; a result
  means it was sent and answered. The requested type is the class offset added to the base asked for, or to the
  native base, or to \<open>string\<close> for an ENUM read as its label. The count is autosize for 0, the
  full native count for a negative one, and otherwise the smaller of what was asked for and
  the native count, whatever its size.
\<close>

theorem ca_get_request:
  fixes ch :: "'h ca_chan"
  assumes "ca_do_get L V eca ch name rq count timeout = (sent, out)"
  shows "(sent = [] \<or> (\<exists>info native n.
      ch_info ch = Some (Inr info) \<and> i_read info \<and> ch_native_type ch = Inr native \<and>
      sent = [((case gr_dbr rq of
          Some b \<Rightarrow> b
        | None \<Rightarrow> if gr_enum_as_string rq \<and> native = 3 then 0 else native) + gr_form rq, n)] \<and>
      (count = 0 \<longrightarrow> n = Autosize 0) \<and> (sint count < 0 \<longrightarrow> n = Fixed 0) \<and>
      (0 < sint count \<longrightarrow> (\<exists>m k. ch_element_count ch = Inr m \<and> n = Fixed k \<and> unat k = min (nat (sint count)) (unat m))))) \<and>
    (\<forall>s. out = Finished (Inr s) \<longrightarrow> (\<exists>t n snap. sent = [(t, n)] \<and> ch_get_with_dbr_type ch t n = Some (Inr snap) \<and>
      snapshot_from_rs L V name snap = Inr s))"
proof
  have sent: "sent = sent_calls timeout (get_call eca ch rq count)"
    using assms by (simp add: ca_do_get_def Let_def)
  have base: "get_base rq native = (case gr_dbr rq of Some b \<Rightarrow> b
      | None \<Rightarrow> if gr_enum_as_string rq \<and> native = 3 then 0 else native)" for native
    by (simp add: get_base_def DBR_ENUM_BASE_def DBR_STRING_BASE_def split: option.split)
  have call: "\<exists>info native n. ch_info ch = Some (Inr info) \<and> i_read info \<and> ch_native_type ch = Inr native \<and>
      read_count (ch_element_count ch) count = Inr n \<and> c = (get_base rq native + gr_form rq, n)"
    if "get_call eca ch rq count = ReadyInTime (Inr c)" for c
    using that by (auto simp: get_call_def fut_bind_Ready awaiting_Ready ensure_connected_Ready)
  have n: "(count = 0 \<longrightarrow> n = Autosize 0) \<and> (sint count < 0 \<longrightarrow> n = Fixed 0) \<and>
      (0 < sint count \<longrightarrow> (\<exists>m k. ch_element_count ch = Inr m \<and> n = Fixed k \<and> unat k = min (nat (sint count)) (unat m)))"
    if "read_count (ch_element_count ch) count = Inr n" for n
    using that by (auto simp: read_count_def to_u32_sat_min split: if_splits sum.splits)
  show "sent = [] \<or> (\<exists>info native n.
      ch_info ch = Some (Inr info) \<and> i_read info \<and> ch_native_type ch = Inr native \<and>
      sent = [((case gr_dbr rq of
          Some b \<Rightarrow> b
        | None \<Rightarrow> if gr_enum_as_string rq \<and> native = 3 then 0 else native) + gr_form rq, n)] \<and>
      (count = 0 \<longrightarrow> n = Autosize 0) \<and> (sint count < 0 \<longrightarrow> n = Fixed 0) \<and>
      (0 < sint count \<longrightarrow> (\<exists>m k. ch_element_count ch = Inr m \<and> n = Fixed k \<and> unat k = min (nat (sint count)) (unat m))))"
  proof (cases "sent = []")
    case False
    then obtain c where c: "get_call eca ch rq count = ReadyInTime (Inr c)" "sent = [c]"
      using sent_calls_cases [of timeout "get_call eca ch rq count"] unfolding sent by blast
    from call [OF c(1)] obtain info native k where
      "ch_info ch = Some (Inr info)" "i_read info" "ch_native_type ch = Inr native"
      and k: "read_count (ch_element_count ch) count = Inr k" and "c = (get_base rq native + gr_form rq, k)"
      by blast
    with n [OF k] c(2) base [of native] show ?thesis by (intro disjI2 exI [of _ info] exI [of _ native] exI [of _ k]) simp
  qed simp
  show "\<forall>s. out = Finished (Inr s) \<longrightarrow> (\<exists>t n snap. sent = [(t, n)] \<and> ch_get_with_dbr_type ch t n = Some (Inr snap) \<and>
      snapshot_from_rs L V name snap = Inr s)"
  proof (intro allI impI)
    fix s assume out: "out = Finished (Inr s)"
    let ?f = "fut_bind (get_call eca ch rq count) (\<lambda>(t, n). awaiting (map_ca eca) (ch_get_with_dbr_type ch t n))"
    from assms out obtain snap where snap: "bounded eca timeout ?f = Finished (Inr snap)" "snapshot_from_rs L V name snap = Inr s"
      by (auto simp: ca_do_get_def Let_def split: outcome.splits)
    with bounded_Finished [OF snap(1)] obtain t n where
      tn: "get_call eca ch rq count = ReadyInTime (Inr (t, n))" "ch_get_with_dbr_type ch t n = Some (Inr snap)"
      by (auto simp: fut_bind_Ready awaiting_Ready)
    with bounded_polls [OF _ tn(1), of eca timeout ?f] snap show "\<exists>t n snap. sent = [(t, n)] \<and>
        ch_get_with_dbr_type ch t n = Some (Inr snap) \<and> snapshot_from_rs L V name snap = Inr s"
      unfolding sent by auto
  qed
qed

text \<open>A channel that answers everything.\<close>

definition good_info :: rs_channel_info where
  "good_info = \<lparr>i_pv_name = ''pv'', i_server_addr = ''host'', i_type_name = ''DBF_ENUM'', i_wire_type = 3,
     i_element_count = 5, i_read = True, i_write = True\<rparr>"

definition good_snapshot :: rs_snapshot where
  "good_snapshot = \<lparr>rs_value = EvLong 7, rs_status = 0, rs_severity = 0, rs_ackt = None, rs_acks = None,
     rs_stamp = (0, 0), rs_display = None, rs_control = None, rs_enums = None\<rparr>"

definition good_chan :: "unit ca_chan" where
  "good_chan = \<lparr>ch_probe = True, ch_wait_connected = (\<lambda>d. None), ch_info = Some (Inr good_info),
     ch_native_type = Inr 3, ch_element_count = Inr 5, ch_get_with_dbr_type = (\<lambda>t n. Some (Inr good_snapshot)),
     ch_put = (\<lambda>c. Some (Inr ())), ch_subscribe = (\<lambda>r. Some (Inr ()))\<rparr>"

definition ref_values :: value_lib where
  "ref_values = \<lparr>wire_type = (\<lambda>_. 5), value_count = (\<lambda>_. 1), char_array = (\<lambda>_. PNone)\<rparr>"

definition label_request :: get_request where
  "label_request = \<lparr>gr_dbr = None, gr_form = 14, gr_enum_as_string = True\<rparr>"

theorem ca_get_request_witness:
  "fst (ca_do_get ref_lib ref_values any_eca good_chan ''pv'' label_request 9 None) = [(14, Fixed 5)]"
proof -
  have "fst (ca_do_get ref_lib ref_values any_eca good_chan ''pv'' label_request 9 None) \<noteq> []"
    by (simp add: ca_do_get_def Let_def sent_calls_def get_call_def ensure_connected_def fut_bind_def awaiting_def
        good_chan_def good_info_def read_count_def)
  moreover have "n = Fixed 5" if "n = Fixed k" "unat k = min (nat (sint (9 :: i64))) (unat (5 :: u32))" for n and k :: u32
  proof -
    from that(2) have "unat k = unat (5 :: u32)" by simp
    then have "k = 5" by (simp only: word_unat_eq_iff)
    with that(1) show ?thesis by simp
  qed
  ultimately show ?thesis
    using ca_get_request [OF prod.collapse [symmetric], of ref_lib ref_values any_eca good_chan "''pv''" label_request 9 None]
    by (auto simp: good_chan_def label_request_def)
qed

text \<open>
  C27. A write is sent at most once, in the form its value and \<open>wait\<close> ask for, and only on a channel that
  grants write access; success means it was sent and accepted. Without the access nothing is
  sent and the caller is told so, as a Channel Access error.
\<close>

theorem ca_put_gated:
  fixes ch :: "'h ca_chan"
  assumes "ca_do_put eca ch rq wait timeout = (sent, out)"
  shows "(sent = [] \<or> sent = [put_call_for rq wait] \<and> (\<exists>info. ch_info ch = Some (Inr info) \<and> i_write info)) \<and>
    (out = Finished (Inr ()) \<longrightarrow> sent = [put_call_for rq wait] \<and> ch_put ch (put_call_for rq wait) = Some (Inr ())) \<and>
    (\<forall>info. ch_probe ch \<and> ch_info ch = Some (Inr info) \<and> \<not> i_write info \<and> out \<noteq> Panicked \<longrightarrow>
      sent = [] \<and> out = Finished (Inl (access_denied eca CaWrite)))"
proof (intro conjI)
  define call where "call = fut_bind (ensure_connected eca ch CaWrite) (\<lambda>_. ReadyInTime (Inr (put_call_for rq wait)))"
  define f where "f = fut_bind call (\<lambda>c. awaiting (map_ca_write eca) (ch_put ch c))"
  have sent: "sent = sent_calls timeout call" and out: "out = bounded eca timeout f"
    using assms by (simp_all add: ca_do_put_def Let_def call_def f_def)
  have call: "c = put_call_for rq wait \<and> (\<exists>info. ch_info ch = Some (Inr info) \<and> i_write info)"
    if "call = ReadyInTime (Inr c)" for c
    using that by (auto simp: call_def fut_bind_Ready ensure_connected_Ready)
  with sent_calls_cases [of timeout call]
  show "sent = [] \<or> sent = [put_call_for rq wait] \<and> (\<exists>info. ch_info ch = Some (Inr info) \<and> i_write info)"
    unfolding sent by blast
  show "out = Finished (Inr ()) \<longrightarrow> sent = [put_call_for rq wait] \<and> ch_put ch (put_call_for rq wait) = Some (Inr ())"
  proof
    assume ok: "out = Finished (Inr ())"
    then have "f = ReadyInTime (Inr ())" unfolding out by (rule bounded_Finished)
    then obtain c where c: "call = ReadyInTime (Inr c)" "ch_put ch c = Some (Inr ())"
      by (auto simp: f_def fut_bind_Ready awaiting_Ready)
    with ok bounded_polls [OF _ c(1), of eca timeout f] call
    show "sent = [put_call_for rq wait] \<and> ch_put ch (put_call_for rq wait) = Some (Inr ())"
      unfolding sent out by auto
  qed
  show "\<forall>info. ch_probe ch \<and> ch_info ch = Some (Inr info) \<and> \<not> i_write info \<and> out \<noteq> Panicked \<longrightarrow>
      sent = [] \<and> out = Finished (Inl (access_denied eca CaWrite))"
  proof (intro allI impI)
    fix info assume a: "ch_probe ch \<and> ch_info ch = Some (Inr info) \<and> \<not> i_write info \<and> out \<noteq> Panicked"
    then have "call = ReadyInTime (Inl (access_denied eca CaWrite))"
      by (simp add: call_def ensure_connected_def fut_bind_def awaiting_def)
    with a show "sent = [] \<and> out = Finished (Inl (access_denied eca CaWrite))"
      unfolding sent out
      by (auto simp: sent_calls_def f_def fut_bind_def bounded_def bounded_with_def split: option.splits if_splits)
  qed
qed

theorem ca_put_gated_witness:
  "fst (ca_do_put any_eca good_chan (PutStr ''on'') True None) = [PutString ''on'' Forever]"
proof -
  have "snd (ca_do_put any_eca good_chan (PutStr ''on'') True None) = Finished (Inr ())"
    by (simp add: ca_do_put_def Let_def ensure_connected_def fut_bind_def awaiting_def good_chan_def good_info_def
        bounded_def bounded_with_def)
  with ca_put_gated [OF prod.collapse [symmetric], of any_eca good_chan "PutStr ''on''" True None]
  show ?thesis by (simp add: put_call_for_def)
qed



text \<open>The deadline of \<open>wait_connected\<close> is not the deadline of \<open>bounded\<close>: infinity panics there too.\<close>

lemma infinite_wait_panics:
  "duration_panics secs \<Longrightarrow> do_wait_connected eca ch (Some secs) = Panicked"
  by (simp add: do_wait_connected_def duration_or_forever_def)

end
