(* ===== verification/NetAddr.thy ===== *)
theory NetAddr
  imports Prelude "HOL-Library.Word"
begin

text \<open>
  Network addresses as the servers print them: \<open>IpAddr\<close> and \<open>SocketAddr\<close> of the Rust standard library
  with their \<open>Display\<close>, UTF-8 validity of a name from the wire, and the facts about printed ports
  and addresses that the configuration round trips need.
\<close>

unbundle bit_operations_syntax

section \<open>Addresses\<close>

datatype ip_addr = V4 u32 | V6 "128 word"

definition ip_unspecified :: "ip_addr \<Rightarrow> bool" where
  "ip_unspecified ip = (case ip of V4 w \<Rightarrow> w = 0 | V6 w \<Rightarrow> w = 0)"

text \<open>\<open>IpAddr::from([127, 0, 0, 1])\<close>.\<close>

definition ip_loopback :: ip_addr where
  "ip_loopback = V4 0x7F000001"

definition show_v4 :: "u32 \<Rightarrow> string" where
  "show_v4 w =
     decimal (unat (drop_bit 24 w)) @ ''.'' @ decimal (unat (drop_bit 16 w AND 0xFF)) @ ''.'' @
     decimal (unat (drop_bit 8 w AND 0xFF)) @ ''.'' @ decimal (unat (w AND 0xFF))"

text \<open>\<open>{:x}\<close>.\<close>

fun hex :: "nat \<Rightarrow> string" where
  "hex n = (let d = char_of (if n mod 16 < 10 then 48 + n mod 16 else 87 + n mod 16)
            in if n < 16 then [d] else hex (n div 16) @ [d])"

declare hex.simps [simp del]

definition v6_segments :: "128 word \<Rightarrow> nat list" where
  "v6_segments w = map (\<lambda>k. unat (drop_bit (112 - 16 * k) w AND 0xFFFF)) [0..<8]"

text \<open>The first longest run of zero segments: where it starts and how long it is.\<close>

fun longest_zeros :: "nat \<Rightarrow> nat \<times> nat \<Rightarrow> nat \<times> nat \<Rightarrow> nat list \<Rightarrow> nat \<times> nat" where
  "longest_zeros i cur best [] = best"
| "longest_zeros i (start, len) best (s # ss) =
     (if s = 0 then
        let cur = (if len = 0 then i else start, Suc len)
        in longest_zeros (Suc i) cur (if snd best < snd cur then cur else best) ss
      else longest_zeros (Suc i) (0, 0) best ss)"

fun show_segments :: "nat list \<Rightarrow> string" where
  "show_segments [] = []"
| "show_segments (s # ss) = hex s @ concat (map (\<lambda>t. CHR '':'' # hex t) ss)"

definition show_v6 :: "128 word \<Rightarrow> string" where
  "show_v6 w =
     (if drop_bit 32 w = 0xFFFF then ''::ffff:'' @ show_v4 (ucast w)
      else
        (let segs = v6_segments w; (start, len) = longest_zeros 0 (0, 0) (0, 0) segs
         in if 1 < len then show_segments (take start segs) @ ''::'' @ show_segments (drop (start + len) segs)
            else show_segments segs))"

definition show_ip :: "ip_addr \<Rightarrow> string" where
  "show_ip ip = (case ip of V4 w \<Rightarrow> show_v4 w | V6 w \<Rightarrow> show_v6 w)"

definition show_port :: "u16 \<Rightarrow> string" where
  "show_port p = decimal (unat p)"

record sock_addr =
  sa_ip :: ip_addr
  sa_port :: u16
  sa_scope :: u32

definition show_sock :: "sock_addr \<Rightarrow> string" where
  "show_sock a =
     (case sa_ip a of
        V4 w \<Rightarrow> show_v4 w @ '':'' @ show_port (sa_port a)
      | V6 w \<Rightarrow>
          (if sa_scope a = 0 then ''['' @ show_v6 w @ '']:'' @ show_port (sa_port a)
           else ''['' @ show_v6 w @ ''%'' @ decimal (unat (sa_scope a)) @ '']:'' @ show_port (sa_port a)))"

section \<open>Names\<close>

text \<open>\<open>str::from_utf8\<close>: whether bytes are the encoding of a text.\<close>

definition cont_byte :: "char \<Rightarrow> bool" where
  "cont_byte c \<longleftrightarrow> (let n = of_char c :: nat in 128 \<le> n \<and> n < 192)"

fun utf8_valid :: "string \<Rightarrow> bool" where
  "utf8_valid [] = True"
| "utf8_valid (a # s) =
     (let n = of_char a :: nat in
      if n < 128 then utf8_valid s
      else if 194 \<le> n \<and> n < 224 then (case s of b # r \<Rightarrow> cont_byte b \<and> utf8_valid r | _ \<Rightarrow> False)
      else if 224 \<le> n \<and> n < 240 then
        (case s of
           b # c # r \<Rightarrow>
             cont_byte b \<and> cont_byte c \<and> (n = 224 \<longrightarrow> 160 \<le> (of_char b :: nat)) \<and>
             (n = 237 \<longrightarrow> (of_char b :: nat) < 160) \<and> utf8_valid r
         | _ \<Rightarrow> False)
      else if 240 \<le> n \<and> n < 245 then
        (case s of
           b # c # d # r \<Rightarrow>
             cont_byte b \<and> cont_byte c \<and> cont_byte d \<and> (n = 240 \<longrightarrow> 144 \<le> (of_char b :: nat)) \<and>
             (n = 244 \<longrightarrow> (of_char b :: nat) < 144) \<and> utf8_valid r
         | _ \<Rightarrow> False)
      else False)"

section \<open>Visible text\<close>

text \<open>Printed numbers and addresses are visible ASCII: trimming and splitting leave them whole.\<close>

definition visible :: "char \<Rightarrow> bool" where
  "visible c \<longleftrightarrow> (let n = of_char c :: nat in 33 \<le> n \<and> n < 128)"

lemma visible_char_of [simp]: "visible (char_of n) \<longleftrightarrow> 33 \<le> n mod 256 \<and> n mod 256 < 128" for n :: nat
  by (simp add: visible_def Let_def)

lemma visible_decimal: "list_all visible (decimal n)"
proof (induction n rule: decimal.induct)
  case (1 n)
  have "n mod 10 < 10" by simp
  then have "n mod 10 < 80" by linarith
  with 1 show ?case by (subst decimal.simps) simp
qed

lemma decimal_nonempty: "decimal n \<noteq> []"
  by (subst decimal.simps) simp

lemma visible_hex: "list_all visible (hex n)"
proof (induction n rule: hex.induct)
  case (1 n)
  have "visible (char_of (if n mod 16 < 10 then 48 + n mod 16 else 87 + n mod 16))"
  proof -
    have "n mod 16 < 16" by simp
    then show ?thesis by (simp del: mod_less_divisor)
  qed
  with 1 show ?case by (subst hex.simps) (simp add: Let_def)
qed

lemma visible_literals [simp]:
  "visible (CHR '':'')" "visible (CHR ''.'')" "visible (CHR ''f'')" "visible (CHR ''['')" "visible (CHR '']'')"
  by (simp_all add: visible_def)

lemma visible_v4: "list_all visible (show_v4 w)"
  by (simp add: show_v4_def visible_decimal)

lemma visible_segments: "list_all visible (show_segments ss)"
proof (cases ss)
  case (Cons s ts)
  have "list_all visible (concat (map (\<lambda>t. CHR '':'' # hex t) ts))"
    by (induction ts) (simp_all add: visible_hex)
  with Cons show ?thesis by (simp add: visible_hex)
qed simp

lemma visible_ip: "list_all visible (show_ip ip)"
  by (cases ip)
    (simp_all add: show_ip_def visible_v4 show_v6_def visible_segments Let_def split: prod.split)

lemma visible_port: "list_all visible (show_port p)"
  by (simp add: show_port_def visible_decimal)

text \<open>No white space starts, or read backwards ends, with a visible character.\<close>

lemma white_space_ends:
  "w \<in> set white_space \<Longrightarrow> \<not> visible (hd w)" "w \<in> set white_space \<Longrightarrow> \<not> visible (last w)"
proof -
  have a: "list_all (\<lambda>w. \<not> visible (hd w) \<and> \<not> visible (last w)) white_space"
    unfolding white_space_def visible_def by code_simp
  show "w \<in> set white_space \<Longrightarrow> \<not> visible (hd w)" "w \<in> set white_space \<Longrightarrow> \<not> visible (last w)"
    using a by (auto simp: list_all_iff)
qed

lemma strip_any_visible:
  assumes "visible c" and "\<And>w. w \<in> set ws \<Longrightarrow> w \<noteq> [] \<and> \<not> visible (hd w)"
  shows "strip_any ws (c # cs) = None"
proof -
  have "strip_prefix w (c # cs) = None" if "w \<in> set ws" for w
    using assms(2) [OF that] assms(1) by (cases w) auto
  then have "List.map_filter (\<lambda>w. strip_prefix w (c # cs)) ws = []"
    by (simp add: map_filter_def filter_empty_conv)
  then show ?thesis by (simp add: strip_any_def)
qed

lemma strip_space_visible: "visible c \<Longrightarrow> strip_any white_space (c # cs) = None"
  using white_space_nonempty white_space_ends(1) by (intro strip_any_visible) auto

lemma trim_with_visible:
  assumes "visible c" and "\<And>w. w \<in> set ws \<Longrightarrow> w \<noteq> [] \<and> \<not> visible (hd w)"
  shows "trim_with ws (c # cs) = c # cs"
  using strip_any_visible [OF assms, of ws cs] assms(2) by (subst trim_with.simps) auto

lemma trim_visible:
  assumes "list_all visible s"
  shows "trim s = s"
proof (cases s)
  case Nil
  have "trim_with ws [] = []" for ws
  proof (subst trim_with.simps, cases "strip_any ws []")
    case (Some r)
    then show "(if [] \<in> set ws then [] else case strip_any ws [] of None \<Rightarrow> [] | Some r \<Rightarrow> trim_with ws r) = []"
      using strip_any_length [of ws "[]" r] by auto
  qed simp
  with Nil show ?thesis by (simp add: trim_def)
next
  case (Cons c cs)
  have ws: "w \<noteq> [] \<and> \<not> visible (hd w)" if "w \<in> set white_space" for w
    using that white_space_nonempty white_space_ends(1) by auto
  have rws: "w \<noteq> [] \<and> \<not> visible (hd w)" if "w \<in> set (map rev white_space)" for w
    using that white_space_nonempty white_space_ends(2) by (auto simp: hd_rev)
  obtain d ds where d: "rev (c # cs) = d # ds" by (cases "rev (c # cs)") auto
  from assms Cons have "list_all visible (rev (c # cs))" by simp
  with d have "visible d" by simp
  then have ends: "trim_with (map rev white_space) (d # ds) = d # ds"
    by (rule trim_with_visible) (rule rws)
  from assms Cons have "visible c" by simp
  then have "trim_with white_space (c # cs) = c # cs"
    by (rule trim_with_visible) (rule ws)
  then have "trim s = rev (trim_with (map rev white_space) (rev (c # cs)))"
    unfolding trim_def Cons by (rule arg_cong)
  also have "\<dots> = rev (rev (c # cs))" unfolding d ends ..
  finally show ?thesis unfolding Cons by simp
qed

section \<open>Printed numbers are read back\<close>

lemma digit_of_digit [simp]: "d < 10 \<Longrightarrow> digit_of (char_of (48 + d)) = Some d" for d :: nat
  by (simp add: digit_of_def Let_def)

lemma parse_digits_snoc:
  "parse_digits bound acc ds = Some m \<Longrightarrow> d < 10 \<Longrightarrow> 10 * m + d < bound \<Longrightarrow>
     parse_digits bound acc (ds @ [char_of (48 + d)]) = Some (10 * m + d)" for d :: nat
  by (induction bound acc ds rule: parse_digits.induct) (auto split: option.splits if_splits)

lemma parse_decimal: "n < bound \<Longrightarrow> parse_digits bound 0 (decimal n) = Some n"
proof (induction n rule: decimal.induct)
  case (1 n)
  show ?case
  proof (cases "n < 10")
    case True
    with 1(2) show ?thesis by (subst decimal.simps) simp
  next
    case False
    have "n div 10 < bound" using 1(2) by simp
    with 1(1) False have "parse_digits bound 0 (decimal (n div 10)) = Some (n div 10)" by simp
    from parse_digits_snoc [OF this, of "n mod 10"] 1(2) False show ?thesis
      by (subst decimal.simps) simp
  qed
qed

lemma decimal_no_sign: "decimal n \<noteq> CHR ''+'' # r"
proof (induction n arbitrary: r rule: decimal.induct)
  case (1 n)
  show ?case
  proof (cases "n < 10")
    case True
    have "char_of (48 + n) \<noteq> CHR ''+''"
    proof
      assume "char_of (48 + n) = CHR ''+''"
      then have "of_char (char_of (48 + n)) = (of_char (CHR ''+'') :: nat)" by simp
      with True show False by simp
    qed
    with True show ?thesis by (subst decimal.simps) simp
  next
    case False
    with 1 decimal_nonempty [of "n div 10"] show ?thesis
      by (subst decimal.simps) (cases "decimal (n div 10)", auto)
  qed
qed

lemma parse_u16_port [simp]: "parse_u16 (show_port p) = Some p"
proof -
  have "unat p < 2 ^ 16" using unsigned_less [of p] by simp
  then have "parse_digits (2 ^ 16) 0 (decimal (unat p)) = Some (unat p)" by (rule parse_decimal)
  then have "parse_unsigned (2 ^ 16) (decimal (unat p)) = Some (unat p)"
    using decimal_nonempty [of "unat p"] decimal_no_sign [of "unat p"]
    by (auto simp: parse_unsigned_def Let_def split: list.splits char.splits bool.splits)
  then show ?thesis by (simp add: parse_u16_def show_port_def)
qed

lemma trim_port [simp]: "trim (show_port p) = show_port p"
  by (rule trim_visible) (rule visible_port)

lemma show_port_nonempty [simp]: "show_port p \<noteq> []"
  by (simp add: show_port_def decimal_nonempty)

text \<open>
  An IPv6 address and a port printed without brackets read as another address.
\<close>

lemma v6_endpoint_is_another_address:
  "show_ip (V6 1) @ '':'' @ show_port 5075 = show_ip (V6 0x15075)"
proof -
  have "v6_segments 1 = [0, 0, 0, 0, 0, 0, 0, 1]" "v6_segments 0x15075 = [0, 0, 0, 0, 0, 0, 1, 0x5075]"
    by (simp_all add: v6_segments_def upt_conv_Cons)
  moreover have "hex 1 = ''1''" "hex 0x5075 = ''5075''" "decimal 5075 = ''5075''"
    by (simp_all add: hex.simps decimal.simps Let_def char_of_def bit_Suc_0_iff)
  ultimately show ?thesis by (simp add: show_ip_def show_v6_def show_port_def)
qed

end
