(* ===== verification/CaServing.thy ===== *)
theory CaServing
  imports CaServer CaChannel NetAddr
begin

text \<open>
  The Python side of the Channel Access server, \<open>src/src/ca_server.rs\<close>: what an operation tells its
  handler, events as Python sees them, \<open>CaSharedPV\<close> over its entry with the conversions of theory
  \<open>CaValue\<close>, the provider that closes what it removes, and the \<open>conf\<close> of a server.
\<close>

section \<open>Operations and events\<close>

definition ca_op_kind :: "'v ca_operation \<Rightarrow> string" where
  "ca_op_kind op = ''put''"

definition ca_op_peer :: "'v ca_operation \<Rightarrow> string" where
  "ca_op_peer op = wc_peer (cop_ctx op)"

definition ca_op_account :: "py_lib \<Rightarrow> 'v ca_operation \<Rightarrow> string" where
  "ca_op_account L op = lossy L (wc_user (cop_ctx op))"

definition ca_op_host :: "py_lib \<Rightarrow> 'v ca_operation \<Rightarrow> string" where
  "ca_op_host L op = lossy L (wc_host (cop_ctx op))"

definition ca_op_value :: "py_lib \<Rightarrow> (int list \<Rightarrow> py) \<Rightarrow> epics_value ca_operation \<Rightarrow> py" where
  "ca_op_value L chars op = ca_to_py L chars (cop_value op)"

fun ca_event_to_py :: "'tok \<Rightarrow> 'op ca_event \<Rightarrow> 'tok \<times> string \<times> 'op option" where
  "ca_event_to_py tok (CaPutEvent op) = (tok, ''put'', Some op)"

section \<open>\<open>CaSharedPV\<close>\<close>

definition ca_pv_open ::
  "py_lib \<Rightarrow> eca_lib \<Rightarrow> ('d, epics_value) db_ops \<Rightarrow> py \<Rightarrow> epics_value ca_entry \<times> 'd \<Rightarrow>
     unit res \<times> epics_value ca_entry \<times> 'd"
where
  "ca_pv_open L eca D obj ed =
     (case py_to_value L obj of Inl e \<Rightarrow> (Inl e, ed) | Inr v \<Rightarrow> ca_open eca D v ed)"

definition ca_pv_post ::
  "py_lib \<Rightarrow> ('d, epics_value) db_ops \<Rightarrow> py \<Rightarrow> epics_value ca_entry \<times> 'd \<Rightarrow>
     unit res \<times> epics_value ca_entry \<times> 'd"
where
  "ca_pv_post L D obj ed =
     (case py_to_value L obj of Inl e \<Rightarrow> (Inl e, ed) | Inr v \<Rightarrow> ca_post D v ed)"

definition ca_pv_current ::
  "py_lib \<Rightarrow> (int list \<Rightarrow> py) \<Rightarrow> ('d, epics_value) db_ops \<Rightarrow> epics_value ca_entry \<times> 'd \<Rightarrow> py option" where
  "ca_pv_current L chars D ed = map_option (ca_to_py L chars) (ca_current D ed)"

section \<open>Provider and server\<close>

record 'a ca_provider =
  cp_name :: string
  cp_pvs :: "(string \<times> 'a) list"

definition ca_provider_new :: "string \<Rightarrow> 'a ca_provider" where
  "ca_provider_new name = \<lparr>cp_name = name, cp_pvs = []\<rparr>"

text \<open>\<open>remove\<close> closes the entry it takes out; entries live in a store.\<close>

definition ca_provider_remove_close ::
  "('d, 'v) db_ops \<Rightarrow> string \<Rightarrow> (string \<times> nat) list \<times> (nat \<Rightarrow> 'v ca_entry) \<times> 'd \<Rightarrow>
     bool \<times> (string \<times> nat) list \<times> (nat \<Rightarrow> 'v ca_entry) \<times> 'd"
where
  "ca_provider_remove_close D name psd =
     (case psd of (pvs, s, d) \<Rightarrow>
        (case ca_provider_remove name pvs of
           (None, pvs') \<Rightarrow> (False, pvs', s, d)
         | (Some a, pvs') \<Rightarrow>
             (case ca_close D (s a, d) of (e, d') \<Rightarrow> (True, pvs', s(a := e), d'))))"

definition ca_server_addr :: ip_addr where
  "ca_server_addr = ip_loopback"

definition ca_server_conf :: "ca_server \<Rightarrow> (string \<times> string) list" where
  "ca_server_conf srv =
     [(''EPICS_CA_ADDR_LIST'', show_ip ca_server_addr @ '':'' @ show_port (cs_udp_port srv)),
      (''EPICS_CA_AUTO_ADDR_LIST'', ''NO''),
      (''EPICS_CA_SERVER_PORT'', show_port (cs_udp_port srv))]"

section \<open>Properties\<close>

text \<open>
  A removed PV is closed and no longer listed; the others are left alone.
\<close>

lemma ca_provider_remove_closes:
  assumes "distinct (map fst pvs)" and "ca_provider_remove_close D name (pvs, s, d) = (removed, pvs', s', d')"
  shows "removed \<longleftrightarrow> map_of pvs name \<noteq> None"
    and "map_of pvs' = (map_of pvs)(name := None)"
    and "map_of pvs name = Some a \<Longrightarrow> ca_current D (s' a, d') = None"
    and "map_of pvs name \<noteq> Some a \<Longrightarrow> s' a = s a"
  using assms ca_table.remove_result [of pvs name] ca_table.remove_lookup [of pvs name]
  by (auto simp: ca_provider_remove_close_def ca_close_def ca_current_def split: prod.splits option.splits if_splits)

text \<open>A client set up with the \<open>conf\<close> of a server looks for it on the server's own port.\<close>

lemma ca_conf_port:
  "resolve_port (Some (map_of (ca_server_conf srv))) env useenv False = cs_udp_port srv"
  by (simp add: resolve_port_def PORT_KEYS_def ca_server_conf_def)

text \<open>Reading a widened value gives the same object.\<close>

lemma widened_signed:
  "LENGTH('a::len) \<le> 64 \<Longrightarrow> sint (scast (x :: 'a word) :: i64) = sint x"
  by (rule sint_up_scast) (simp add: is_up)

lemma fits_i64_word: "fits_i64 i \<Longrightarrow> sint (of_int i :: i64) = i"
  unfolding fits_i64_def by (simp add: signed_of_int signed_take_bit_int_eq_self)

lemma widened_unsigned: "fits_i64 (uint x) \<Longrightarrow> sint (ucast x :: i64) = uint x" for x :: "'a::len word"
  by (metis fits_i64_word of_int_uint)

lemma u64_signed: "uint x < 2 ^ 63 \<Longrightarrow> sint x = uint x" for x :: u64
  using widened_unsigned [of x] u64_fits_i64 [of x] by simp

lemma widened_same_object: "puts_back L v \<Longrightarrow> ca_to_py L chars (widened v) = ca_to_py L chars v"
  by (cases v) (simp_all add: widened_signed fits_i64_word widened_unsigned word_fits_i64 u64_signed)

lemma ca_pv_stores:
  assumes "pv_database D"
    and "ca_pv_open L eca D obj ed = (Inr (), ed') \<or> ca_pv_post L D obj ed = (Inr (), ed')"
  shows "\<exists>v. py_to_value L obj = Inr v \<and> ca_current D ed' = Some v"
proof -
  from assms(2) obtain v where v: "py_to_value L obj = Inr v"
    by (cases "py_to_value L obj") (auto simp: ca_pv_open_def ca_pv_post_def)
  with assms(2) have "pv_step eca D (OpOpen v) ed = (Inr (), ed') \<or> pv_step eca D (OpPost v) ed = (Inr (), ed')"
    by (simp add: ca_pv_open_def ca_pv_post_def pv_step_def)
  with v pv_database.step_refines [OF assms(1), of eca _ ed "Inr ()" ed'] show ?thesis by fastforce
qed

lemma ca_post_open: "ca_current D ed \<noteq> None \<Longrightarrow> \<exists>ed'. ca_post D v ed = (Inr (), ed')"
  by (cases ed) (auto simp: ca_post_def ca_current_def split: value_state.splits)



end
