(* ===== verification/PvaServer.thy ===== *)
theory PvaServer
  imports PvValue CaServer NetAddr
begin

text \<open>
  The pvAccess server side, \<open>src/src/pva/server.rs\<close>: operations answered once, the served PV with
  its marks and its subscribers, the source that routes puts and RPCs to Python and keeps track of
  attached channels, the provider's table and the configuration keys. The work queue is theory
  \<open>WorkQueue\<close>; the contracts \<open>take_once\<close> and \<open>pv_table\<close> are those of theory \<open>CaServer\<close>.

  The library's \<open>SharedPV\<close>, which stores the value, its \<open>SharedSource\<close> and its monitor rings are
  parameters. What is posted to a subscriber's ring is kept per subscriber, in order; squashing
  inside a ring is the library's.
\<close>

section \<open>Operations\<close>

datatype op_kind = OpPut | OpRpc

type_synonym op_reply = "string + (field_desc \<times> pv_field) option"

text \<open>\<open>ClientCredentials\<close>; an account is bytes.\<close>

record client_credentials =
  cr_method :: string
  cr_account :: string
  cr_host :: string
  cr_authority :: string
  cr_roles :: "string list"

definition no_creds :: client_credentials where
  "no_creds = \<lparr>cr_method = ''anonymous'', cr_account = [], cr_host = [], cr_authority = [], cr_roles = []\<rparr>"

text \<open>What the server knows of the client of a call; the peer of a call that has none.\<close>

record channel_context =
  cx_peer :: sock_addr
  cx_creds :: client_credentials
  cx_pv_request :: "pv_field option"

definition no_peer :: sock_addr where
  "no_peer = \<lparr>sa_ip = V4 0, sa_port = 0, sa_scope = 0\<rparr>"

text \<open>The reply slot holds the sender's side of a oneshot channel until it is taken.\<close>

record pva_operation =
  op_kind :: op_kind
  op_name :: string
  op_desc :: field_desc
  op_value :: pv_field
  op_marks :: "nat set"
  op_peer :: sock_addr
  op_creds :: client_credentials
  op_pv_request :: "pv_field option"
  op_reply_slot :: bool

definition finish :: "op_reply \<Rightarrow> pva_operation \<Rightarrow> op_reply list \<times> unit res \<times> pva_operation" where
  "finish reply op =
     (if op_reply_slot op then ([reply], Inr (), op\<lparr>op_reply_slot := False\<rparr>)
      else ([], Inl (PvaError (Msg ''done() already called'' [])), op))"

text \<open>\<open>done\<close>; a value is a view of a root, given by its prefix and the root.\<close>

definition pva_done ::
  "(string \<times> root) option \<Rightarrow> string option \<Rightarrow> pva_operation \<Rightarrow> op_reply list \<times> unit res \<times> pva_operation"
where
  "pva_done value error op =
     (case error of
        Some text \<Rightarrow> finish (Inl text) op
      | None \<Rightarrow>
          (case (value, op_kind op) of
             (Some (pre, r), OpRpc) \<Rightarrow>
               (case snapshot pre r of
                  Inl e \<Rightarrow> ([], Inl e, op)
                | Inr (desc, field, _) \<Rightarrow> finish (Inr (Some (desc, field))) op)
           | _ \<Rightarrow> finish (Inr None) op))"

interpretation pva_once: take_once finish "\<lambda>op. \<not> op_reply_slot op" "\<lambda>reply op. [reply]"
  by unfold_locales (simp_all add: finish_def)

text \<open>\<open>run_op\<close>: what the client is told, by what became of the operation.\<close>

datatype op_error = OpFailed string | OpDenied string

datatype rpc_reply = RpcValue field_desc pv_field | RpcEmpty

datatype op_answer = Replied op_reply | Dropped

definition op_outcome :: "op_answer \<Rightarrow> op_error + rpc_reply" where
  "op_outcome a =
     (case a of
        Replied (Inr (Some (desc, value))) \<Rightarrow> Inr (RpcValue desc value)
      | Replied (Inr None) \<Rightarrow> Inr RpcEmpty
      | Replied (Inl text) \<Rightarrow> Inl (OpFailed text)
      | Dropped \<Rightarrow> Inl (OpFailed ''handler dropped the operation without done()''))"

datatype pva_event = PutEvent pva_operation | RpcEvent pva_operation | FirstConnect | LastDisconnect

text \<open>\<open>Inl\<close> when the queue refuses the operation; otherwise the client waits for the answer.\<close>

definition run_op ::
  "pva_operation \<Rightarrow> pva_event workq \<Rightarrow> (op_error + (op_answer \<Rightarrow> op_error + rpc_reply)) \<times> pva_event workq"
where
  "run_op op q =
     (let op' = op\<lparr>op_reply_slot := True\<rparr>;
          ev = (case op_kind op of OpPut \<Rightarrow> PutEvent op' | OpRpc \<Rightarrow> RpcEvent op')
      in case workq_send ev q of
           (q', True) \<Rightarrow> (Inr op_outcome, q')
         | (q', False) \<Rightarrow> (Inl (OpFailed ''SharedPV handler queue is stopped''), q'))"

section \<open>The served PV\<close>

text \<open>The library's \<open>SharedPV\<close>.\<close>

record 'p shared_pv_ops =
  sp_open :: "field_desc \<Rightarrow> pv_field \<Rightarrow> 'p \<Rightarrow> rs_pva_error + 'p"
  sp_post_delta :: "nat set \<Rightarrow> pv_field \<Rightarrow> 'p \<Rightarrow> rs_pva_error + 'p"
  sp_current :: "'p \<Rightarrow> pv_field option"
  sp_close :: "'p \<Rightarrow> 'p"

text \<open>
  What the code relies on: an open PV is not opened again, the value is the one it was opened
  with, a post keeps it open, and closing drops it.
\<close>

locale shared_pv =
  fixes S :: "'p shared_pv_ops"
  assumes open_closed: "sp_open S d f p = Inr p' \<Longrightarrow> sp_current S p = None"
    and open_current: "sp_open S d f p = Inr p' \<Longrightarrow> sp_current S p' = Some f"
    and post_current: "sp_post_delta S m f p = Inr p' \<Longrightarrow> \<exists>v. sp_current S p' = Some v"
    and close_current: "sp_current S (sp_close S p) = None"

datatype subscriber_kind = SubMarked | SubPlain

text \<open>A subscriber: its ring, and what was posted to it: the value and, if marked, its paths.\<close>

record pv_subscriber =
  su_ring :: nat
  su_kind :: subscriber_kind
  su_seed :: pv_field
  su_posts :: "(pv_field \<times> string list option) list"

record 'p pv_entry =
  pe_pv :: 'p
  pe_subs :: "pv_subscriber list"
  pe_marks :: "nat set"
  pe_opened :: "field_desc option"

definition pv_entry_new :: "'p \<Rightarrow> 'p pv_entry" where
  "pv_entry_new p = \<lparr>pe_pv = p, pe_subs = [], pe_marks = {}, pe_opened = None\<rparr>"

definition entry_open ::
  "(rs_pva_error \<Rightarrow> string) \<Rightarrow> 'p shared_pv_ops \<Rightarrow> field_desc \<Rightarrow> pv_field \<Rightarrow> nat set \<Rightarrow> 'p pv_entry \<Rightarrow>
     unit res \<times> 'p pv_entry"
where
  "entry_open ts S desc field marks e =
     (case sp_open S desc field (pe_pv e) of
        Inl err \<Rightarrow> (Inl (map_pva ts err), e)
      | Inr p \<Rightarrow> (Inr (), e\<lparr>pe_pv := p, pe_marks := marks, pe_opened := Some desc\<rparr>))"

text \<open>\<open>Subscriber::post\<close>; \<open>alive\<close> says whose ring is still there.\<close>

definition subscriber_post :: "pv_field \<Rightarrow> string list \<Rightarrow> pv_subscriber \<Rightarrow> pv_subscriber" where
  "subscriber_post value marked s =
     s\<lparr>su_posts := su_posts s @
        [(value, case su_kind s of SubMarked \<Rightarrow> Some marked | SubPlain \<Rightarrow> None)]\<rparr>"

definition entry_post ::
  "(rs_pva_error \<Rightarrow> string) \<Rightarrow> 'p shared_pv_ops \<Rightarrow> (field_desc \<Rightarrow> nat set \<Rightarrow> string list) \<Rightarrow>
     (nat \<Rightarrow> bool) \<Rightarrow> string \<Rightarrow> root \<Rightarrow> 'p pv_entry \<Rightarrow> unit res \<times> 'p pv_entry"
where
  "entry_post ts S paths alive pre r e =
     (if pre \<noteq> [] then
        (Inl (TypeError (Msg ''a sub-structure view cannot be sent; pass the root Value'' [])), e)
      else
        (case pe_opened e of
           None \<Rightarrow> (Inl (PvaError (Msg ''SharedPV not open'' [])), e)
         | Some opened \<Rightarrow>
             if r_desc r \<noteq> opened then
               (Inl (PvaError (Msg ''post() value type differs from the open() type; close() first'' [])), e)
             else if r_marks r = {} then (Inr (), e)
             else
               (case sp_post_delta S (r_marks r) (r_field r) (pe_pv e) of
                  Inl err \<Rightarrow> (Inl (map_pva ts err), e)
                | Inr p \<Rightarrow>
                    let marked = paths opened (r_marks r);
                        subs = (case sp_current S p of
                                  None \<Rightarrow> pe_subs e
                                | Some cur \<Rightarrow>
                                    map (subscriber_post cur marked)
                                      (filter (\<lambda>s. alive (su_ring s)) (pe_subs e)))
                    in (Inr (), e\<lparr>pe_pv := p, pe_marks := pe_marks e \<union> r_marks r, pe_subs := subs\<rparr>))))"

definition entry_close :: "'p shared_pv_ops \<Rightarrow> 'p pv_entry \<Rightarrow> 'p pv_entry" where
  "entry_close S e = e\<lparr>pe_marks := {}, pe_opened := None, pe_subs := [], pe_pv := sp_close S (pe_pv e)\<rparr>"

text \<open>
  \<open>subscribe\<close> with a fresh ring: the seed, or for a plain stream the first element of the ring.
\<close>

definition entry_subscribe ::
  "'p shared_pv_ops \<Rightarrow> subscriber_kind \<Rightarrow> nat \<Rightarrow> 'p pv_entry \<Rightarrow> pv_field option \<times> 'p pv_entry"
where
  "entry_subscribe S kind ring e =
     (case sp_current S (pe_pv e) of
        None \<Rightarrow> (None, e)
      | Some initial \<Rightarrow>
          (Some initial,
           e\<lparr>pe_subs := pe_subs e @ [\<lparr>su_ring = ring, su_kind = kind, su_seed = initial, su_posts = []\<rparr>]\<rparr>))"

definition entry_current :: "'p shared_pv_ops \<Rightarrow> 'p pv_entry \<Rightarrow> root option" where
  "entry_current S e =
     (case pe_opened e of
        None \<Rightarrow> None
      | Some desc \<Rightarrow>
          (case sp_current S (pe_pv e) of
             None \<Rightarrow> None
           | Some field \<Rightarrow> Some \<lparr>r_desc = desc, r_field = field, r_marks = pe_marks e\<rparr>))"

definition entry_type :: "'p pv_entry \<Rightarrow> field_desc option" where
  "entry_type e = pe_opened e"

section \<open>The source\<close>

record access_checked =
  ac_name :: string
  ac_read :: bool
  ac_write :: bool

text \<open>Served names are texts: a name from the wire that is not UTF-8 is not served.\<close>

definition source_entry :: "(string \<Rightarrow> nat option) \<Rightarrow> string \<Rightarrow> nat option" where
  "source_entry entries name = (if utf8_valid name then entries name else None)"

definition put_value_op ::
  "(field_desc \<Rightarrow> nat) \<Rightarrow> (string \<Rightarrow> string) \<Rightarrow> (nat \<Rightarrow> field_desc option) \<Rightarrow> (string \<Rightarrow> nat option) \<Rightarrow>
     string \<Rightarrow> pv_field \<Rightarrow> op_error + nat \<times> pva_operation"
where
  "put_value_op tb lossy_name introspection entries name value =
     (case source_entry entries name of
        None \<Rightarrow> Inl (OpFailed (''no such PV: '' @ lossy_name name))
      | Some a \<Rightarrow>
          (case introspection a of
             None \<Rightarrow> Inl (OpFailed ''SharedPV not open'')
           | Some desc \<Rightarrow>
               Inr (a, \<lparr>op_kind = OpPut, op_name = lossy_name name, op_desc = desc, op_value = value,
                 op_marks = all_marks tb desc, op_peer = no_peer, op_creds = no_creds,
                 op_pv_request = None, op_reply_slot = False\<rparr>)))"

definition put_delta_checked ::
  "(field_desc \<Rightarrow> nat set \<Rightarrow> pv_field \<Rightarrow> pv_field \<Rightarrow> pv_field) \<Rightarrow>
     (access_checked \<Rightarrow> channel_context \<Rightarrow> op_error) \<Rightarrow> (nat \<Rightarrow> pv_field option) \<Rightarrow>
     (string \<Rightarrow> nat option) \<Rightarrow> access_checked \<Rightarrow> field_desc \<Rightarrow> nat set \<Rightarrow>
     pv_field \<Rightarrow> channel_context \<Rightarrow> op_error + nat \<times> pva_operation"
where
  "put_delta_checked fill denied current entries checked desc changes delta ctx =
     (if \<not> ac_write checked then Inl (denied checked ctx)
      else case source_entry entries (ac_name checked) of
             None \<Rightarrow> Inl (OpFailed (''no such PV: '' @ ac_name checked))
           | Some a \<Rightarrow>
               (case current a of
                  None \<Rightarrow> Inl (OpFailed ''SharedPV not open'')
                | Some prior \<Rightarrow>
                    Inr (a, \<lparr>op_kind = OpPut, op_name = ac_name checked, op_desc = desc,
                      op_value = fill desc changes delta prior, op_marks = changes,
                      op_peer = cx_peer ctx, op_creds = cx_creds ctx,
                      op_pv_request = cx_pv_request ctx, op_reply_slot = False\<rparr>)))"

definition source_rpc ::
  "(field_desc \<Rightarrow> nat) \<Rightarrow> (string \<Rightarrow> string) \<Rightarrow> (string \<Rightarrow> nat option) \<Rightarrow> string \<Rightarrow> field_desc \<Rightarrow>
     pv_field \<Rightarrow> op_error + nat \<times> pva_operation"
where
  "source_rpc tb lossy_name entries name desc value =
     (case source_entry entries name of
        None \<Rightarrow> Inl (OpFailed (''no such PV: '' @ lossy_name name))
      | Some a \<Rightarrow>
          Inr (a, \<lparr>op_kind = OpRpc, op_name = lossy_name name, op_desc = desc, op_value = value,
            op_marks = all_marks tb desc, op_peer = no_peer, op_creds = no_creds,
            op_pv_request = None, op_reply_slot = False\<rparr>))"

text \<open>\<open>show_account\<close> prints the bytes of an account, \<open>not_implemented\<close> is a text of the library.\<close>

definition rpc_checked ::
  "(field_desc \<Rightarrow> nat) \<Rightarrow> (string \<Rightarrow> string) \<Rightarrow> string \<Rightarrow> (string \<Rightarrow> nat option) \<Rightarrow> access_checked \<Rightarrow>
     field_desc \<Rightarrow> pv_field \<Rightarrow> channel_context \<Rightarrow> op_error + nat \<times> pva_operation"
where
  "rpc_checked tb show_account not_implemented entries checked desc value ctx =
     (if \<not> ac_read checked then
        Inl (OpDenied (''RPC denied by access security: '' @ [CHR 0x27] @ ac_name checked @ [CHR 0x27] @ '' from '' @
          cr_host (cx_creds ctx) @ ''/'' @ show_account (cr_account (cx_creds ctx)) @ ''/'' @
          cr_method (cx_creds ctx)))
      else case source_entry entries (ac_name checked) of
             None \<Rightarrow> Inl (OpFailed not_implemented)
           | Some a \<Rightarrow>
               Inr (a, \<lparr>op_kind = OpRpc, op_name = ac_name checked, op_desc = desc, op_value = value,
                 op_marks = all_marks tb desc, op_peer = cx_peer ctx, op_creds = cx_creds ctx,
                 op_pv_request = cx_pv_request ctx, op_reply_slot = False\<rparr>))"

text \<open>
  Subscribing through the source; \<open>pvs\<close> are the entries by address. The ring of a plain stream
  has room for 4, and its first element is the current value; the ring of a marked one has the
  room the client asked for, and at least 1. \<open>None\<close> is no stream.
\<close>

definition source_subscribe ::
  "'p shared_pv_ops \<Rightarrow> (string \<Rightarrow> nat option) \<Rightarrow> string \<Rightarrow> nat \<Rightarrow> (nat \<Rightarrow> 'p pv_entry) \<Rightarrow>
     nat option \<times> (nat \<Rightarrow> 'p pv_entry)"
where
  "source_subscribe S entries name ring pvs =
     (case source_entry entries name of
        None \<Rightarrow> (None, pvs)
      | Some a \<Rightarrow>
          (case entry_subscribe S SubPlain ring (pvs a) of
             (None, e) \<Rightarrow> (None, pvs(a := e))
           | (Some _, e) \<Rightarrow> (Some 4, pvs(a := e))))"

definition subscribe_seeded ::
  "'p shared_pv_ops \<Rightarrow> (string \<Rightarrow> nat option) \<Rightarrow> access_checked \<Rightarrow> u32 \<Rightarrow> nat \<Rightarrow> (nat \<Rightarrow> 'p pv_entry) \<Rightarrow>
     (pv_field \<times> nat) option \<times> (nat \<Rightarrow> 'p pv_entry)"
where
  "subscribe_seeded S entries checked queue_size ring pvs =
     (case (if ac_read checked then source_entry entries (ac_name checked) else None) of
        None \<Rightarrow> (None, pvs)
      | Some a \<Rightarrow>
          (case entry_subscribe S SubMarked ring (pvs a) of
             (None, e) \<Rightarrow> (None, pvs(a := e))
           | (Some initial, e) \<Rightarrow> (Some (initial, max (unat queue_size) 1), pvs(a := e))))"

text \<open>
  Attached channels: the queue of a name, and how many channels each PV of the library counts.
  A name is the bytes the client sent.
\<close>

record channels =
  ch_attached :: "string \<Rightarrow> nat list option"
  ch_count :: "nat \<Rightarrow> int"

definition notify_channel_open :: "(string \<Rightarrow> nat option) \<Rightarrow> string \<Rightarrow> channels \<Rightarrow> channels" where
  "notify_channel_open entries name c =
     (case source_entry entries name of
        None \<Rightarrow> c
      | Some a \<Rightarrow>
          c\<lparr>ch_attached := (ch_attached c)(name \<mapsto> (case ch_attached c name of None \<Rightarrow> [] | Some q \<Rightarrow> q) @ [a]),
            ch_count := (ch_count c)(a := ch_count c a + 1)\<rparr>)"

definition notify_channel_close :: "string \<Rightarrow> channels \<Rightarrow> channels" where
  "notify_channel_close name c =
     (if \<not> utf8_valid name then c
      else case ch_attached c name of
        None \<Rightarrow> c
      | Some [] \<Rightarrow> c\<lparr>ch_attached := (ch_attached c)(name := None)\<rparr>
      | Some (a # q) \<Rightarrow>
          c\<lparr>ch_attached := (ch_attached c)(name := (if q = [] then None else Some q)),
            ch_count := (ch_count c)(a := ch_count c a - 1)\<rparr>)"

section \<open>What subscribers see\<close>

datatype entry_op =
    EOpen field_desc pv_field "nat set"
  | EPost "nat \<Rightarrow> bool" string root
  | EClose
  | ESubscribe subscriber_kind nat

text \<open>
  A run of an entry with its history since it was opened: the values stored, each with the paths
  and the marks it came with, the opened value first.
\<close>

type_synonym history = "(pv_field \<times> string list \<times> nat set) list"

definition entry_step ::
  "(rs_pva_error \<Rightarrow> string) \<Rightarrow> 'p shared_pv_ops \<Rightarrow> (field_desc \<Rightarrow> nat set \<Rightarrow> string list) \<Rightarrow> entry_op \<Rightarrow>
     'p pv_entry \<times> history \<Rightarrow> 'p pv_entry \<times> history"
where
  "entry_step ts S paths op eh =
     (case eh of (e, h) \<Rightarrow>
        (case op of
           EOpen d f m \<Rightarrow>
             (case entry_open ts S d f m e of
                (Inl _, e') \<Rightarrow> (e', h) | (Inr _, e') \<Rightarrow> (e', [(f, [], m)]))
         | EPost alive pre r \<Rightarrow>
             (case entry_post ts S paths alive pre r e of
                (Inl _, e') \<Rightarrow> (e', h)
              | (Inr _, e') \<Rightarrow>
                  (e', if r_marks r = {} then h
                       else h @ [(the (sp_current S (pe_pv e')), paths (r_desc r) (r_marks r), r_marks r)]))
         | EClose \<Rightarrow> (entry_close S e, [])
         | ESubscribe kind ring \<Rightarrow> (snd (entry_subscribe S kind ring e), h)))"

definition entry_run ::
  "(rs_pva_error \<Rightarrow> string) \<Rightarrow> 'p shared_pv_ops \<Rightarrow> (field_desc \<Rightarrow> nat set \<Rightarrow> string list) \<Rightarrow> entry_op list \<Rightarrow>
     'p \<Rightarrow> 'p pv_entry \<times> history"
where
  "entry_run ts S paths ops p = foldl (\<lambda>eh op. entry_step ts S paths op eh) (pv_entry_new p, []) ops"

definition posted :: "subscriber_kind \<Rightarrow> pv_field \<times> string list \<times> nat set \<Rightarrow> pv_field \<times> string list option" where
  "posted kind x = (fst x, case kind of SubMarked \<Rightarrow> Some (fst (snd x)) | SubPlain \<Rightarrow> None)"

text \<open>A subscriber's seed and posts are a final part of the history.\<close>

definition sees :: "history \<Rightarrow> pv_subscriber \<Rightarrow> bool" where
  "sees h s \<longleftrightarrow>
     (\<exists>pre x post. h = pre @ x # post \<and> su_seed s = fst x \<and> su_posts s = map (posted (su_kind s)) post)"

definition entry_inv :: "'p shared_pv_ops \<Rightarrow> 'p pv_entry \<times> history \<Rightarrow> bool" where
  "entry_inv S eh \<longleftrightarrow>
     (case eh of (e, h) \<Rightarrow>
        sp_current S (pe_pv e) = (if h = [] then None else Some (fst (last h))) \<and>
        (pe_opened e = None \<longleftrightarrow> h = []) \<and>
        pe_marks e = \<Union> ((snd \<circ> snd) ` set h) \<and>
        (\<forall>s \<in> set (pe_subs e). sees h s))"

lemma sees_Nil [simp]: "\<not> sees [] s"
  by (simp add: sees_def)

lemma sees_snoc: "sees h s \<Longrightarrow> sees (h @ [(v, ps, m)]) (subscriber_post v ps s)"
  unfolding sees_def
proof (elim exE conjE)
  fix pre x post
  assume "h = pre @ x # post" "su_seed s = fst x" "su_posts s = map (posted (su_kind s)) post"
  then show "\<exists>pre x post'. h @ [(v, ps, m)] = pre @ x # post' \<and>
      su_seed (subscriber_post v ps s) = fst x \<and>
      su_posts (subscriber_post v ps s) = map (posted (su_kind (subscriber_post v ps s))) post'"
    by (intro exI [of _ pre] exI [of _ x] exI [of _ "post @ [(v, ps, m)]"])
      (auto simp: subscriber_post_def posted_def split: subscriber_kind.splits)
qed

lemma sees_new:
  "h \<noteq> [] \<Longrightarrow> sees h \<lparr>su_ring = ring, su_kind = kind, su_seed = fst (last h), su_posts = []\<rparr>"
  unfolding sees_def
  by (rule exI [of _ "butlast h"], rule exI [of _ "last h"], rule exI [of _ "[]"]) simp

context shared_pv
begin

lemma entry_post_inv:
  assumes inv: "entry_inv S (e, h)" and post: "entry_post ts S paths alive pre r e = (Inr u, e')"
    and m: "r_marks r \<noteq> {}"
  shows "entry_inv S (e', h @ [(the (sp_current S (pe_pv e')), paths (r_desc r) (r_marks r), r_marks r)])"
proof -
  from post m obtain p where p: "pe_opened e = Some (r_desc r)" "sp_post_delta S (r_marks r) (r_field r) (pe_pv e) = Inr p"
    by (auto simp: entry_post_def Let_def split: if_splits option.splits sum.splits)
  obtain v where v: "sp_current S p = Some v" using post_current [OF p(2)] by blast
  have e': "e' = e\<lparr>pe_pv := p, pe_marks := pe_marks e \<union> r_marks r,
      pe_subs := map (subscriber_post v (paths (r_desc r) (r_marks r))) (filter (\<lambda>s. alive (su_ring s)) (pe_subs e))\<rparr>"
    using post m p v by (auto simp: entry_post_def Let_def split: if_splits)
  have "pe_marks e = \<Union> ((snd \<circ> snd) ` set h)" "h \<noteq> []" "\<forall>s \<in> set (pe_subs e). sees h s"
    using inv p(1) by (auto simp: entry_inv_def)
  then show ?thesis
    by (auto simp: entry_inv_def e' v p(1) intro: sees_snoc)
qed

lemma entry_step_inv: "entry_inv S eh \<Longrightarrow> entry_inv S (entry_step ts S paths op eh)"
proof (cases eh; cases op)
  fix e h d f m
  assume inv: "entry_inv S eh" and eh: "eh = (e, h)" and op: "op = EOpen d f m"
  show ?thesis
  proof (cases "sp_open S d f (pe_pv e)")
    case (Inl err)
    with inv eh op show ?thesis by (simp add: entry_step_def entry_open_def)
  next
    case (Inr p)
    with inv eh have "h = []" using open_closed [OF Inr] by (auto simp: entry_inv_def split: if_splits)
    with inv eh have "pe_subs e = []" by (cases "pe_subs e") (auto simp: entry_inv_def)
    with Inr eh op open_current [OF Inr] show ?thesis
      by (simp add: entry_step_def entry_open_def entry_inv_def)
  qed
next
  fix e h alive pre r
  assume inv: "entry_inv S eh" and eh: "eh = (e, h)" and op: "op = EPost alive pre r"
  obtain res e' where post: "entry_post ts S paths alive pre r e = (res, e')"
    by (cases "entry_post ts S paths alive pre r e")
  show ?thesis
  proof (cases res)
    case (Inl err)
    then have "e' = e" using post by (auto simp: entry_post_def Let_def split: if_splits option.splits sum.splits)
    with Inl post inv eh op show ?thesis by (simp add: entry_step_def)
  next
    case (Inr u)
    show ?thesis
    proof (cases "r_marks r = {}")
      case True
      then have "e' = e" using post Inr by (auto simp: entry_post_def Let_def split: if_splits option.splits sum.splits)
      with True Inr post inv eh op show ?thesis by (simp add: entry_step_def)
    next
      case False
      with Inr post inv eh op entry_post_inv [of e h ts paths alive pre r u e'] show ?thesis
        by (simp add: entry_step_def)
    qed
  qed
next
  fix e h
  assume "entry_inv S eh" and "eh = (e, h)" and "op = EClose"
  then show ?thesis by (simp add: entry_step_def entry_close_def entry_inv_def close_current)
next
  fix e h kind ring
  assume "entry_inv S eh" and "eh = (e, h)" and "op = ESubscribe kind ring"
  then show ?thesis
    by (auto simp: entry_step_def entry_subscribe_def entry_inv_def intro: sees_new split: option.splits if_splits)
qed

lemma entry_run_inv: "sp_current S p = None \<Longrightarrow> entry_inv S (entry_run ts S paths ops p)"
proof (induction ops rule: rev_induct)
  case Nil
  then show ?case by (simp add: entry_run_def entry_inv_def pv_entry_new_def)
next
  case (snoc op ops)
  then show ?case by (simp add: entry_run_def entry_step_inv)
qed

end

section \<open>Properties\<close>


text \<open>A \<open>SharedPV\<close> that replaces its value by the posted one.\<close>

definition plain_pv :: "pv_field option shared_pv_ops" where
  "plain_pv = \<lparr>sp_open = (\<lambda>d f p. case p of None \<Rightarrow> Inr (Some f) | Some _ \<Rightarrow> Inl (POther 0)),
     sp_post_delta = (\<lambda>m f p. case p of None \<Rightarrow> Inl (POther 1) | Some _ \<Rightarrow> Inr (Some f)),
     sp_current = (\<lambda>p. p), sp_close = (\<lambda>p. None)\<rparr>"

interpretation plain_pv: shared_pv plain_pv
  by unfold_locales (auto simp: plain_pv_def split: option.splits)


lemma pva_done_cases:
  "(\<exists>reply. pva_done value error op = finish reply op) \<or>
   (\<exists>e. pva_done value error op = ([], Inl e, op))"
proof (cases error)
  case None
  then show ?thesis
    by (auto simp: pva_done_def split: option.splits op_kind.splits sum.splits prod.splits)
qed (auto simp: pva_done_def)

lemma pva_done_spent:
  "\<not> op_reply_slot op \<Longrightarrow>
     fst (calls_of (\<lambda>(v, e). pva_done v e) as op) = [] \<and>
     (\<forall>r \<in> set (snd (calls_of (\<lambda>(v, e). pva_done v e) as op)). \<exists>e. r = Inl e)"
proof (induction as)
  case (Cons a as)
  obtain v e where a: "a = (v, e)" by (cases a)
  from Cons.prems pva_done_cases [of v e op] obtain x where "pva_done v e op = ([], Inl x, op)"
    by (auto simp: finish_def)
  with Cons a show ?case by (auto split: prod.splits)
qed simp

text \<open>
  A client of a put or an RPC is answered at most once: over any sequence of \<open>done\<close> calls, at
  most one is accepted and one reply is sent for it, and every call after it is an error; a call
  whose reply value is refused (a view instead of a root) leaves the operation to be answered.
\<close>

theorem pva_done_answers_once:
  "\<exists>refused accepted late.
     snd (calls_of (\<lambda>(v, e). pva_done v e) as op) = refused @ accepted @ late \<and>
     (\<forall>r \<in> set (refused @ late). \<exists>e. r = Inl e) \<and>
     (accepted = [] \<and> late = [] \<and> fst (calls_of (\<lambda>(v, e). pva_done v e) as op) = [] \<or>
      accepted = [Inr ()] \<and> length (fst (calls_of (\<lambda>(v, e). pva_done v e) as op)) = 1)"
proof (induction as arbitrary: op)
  case Nil
  then show ?case by (intro exI [of _ "[]"]) simp
next
  case (Cons a as)
  obtain v e where a: "a = (v, e)" by (cases a)
  let ?C = "calls_of (\<lambda>(v, e). pva_done v e)"
  show ?case
  proof (cases "\<exists>x. pva_done v e op = ([], Inl x, op)")
    case True
    then obtain x where "pva_done v e op = ([], Inl x, op)" by blast
    with a have c: "?C (a # as) op = (fst (?C as op), Inl x # snd (?C as op))"
      by (auto split: prod.splits)
    from Cons.IH [of op] obtain r acc l where IH: "snd (?C as op) = r @ acc @ l"
      "\<forall>r \<in> set (r @ l). \<exists>e. r = Inl e"
      "acc = [] \<and> l = [] \<and> fst (?C as op) = [] \<or> acc = [Inr ()] \<and> length (fst (?C as op)) = 1"
      by blast
    show ?thesis unfolding c using IH
      by (intro exI [of _ "Inl x # r"] exI [of _ acc] exI [of _ l]) auto
  next
    case False
    then obtain reply where d: "pva_done v e op = ([reply], Inr (), op\<lparr>op_reply_slot := False\<rparr>)"
      using pva_done_cases [of v e op] by (auto simp: finish_def split: if_splits)
    let ?op = "op\<lparr>op_reply_slot := False\<rparr>"
    from d a have c: "?C (a # as) op = (reply # fst (?C as ?op), Inr () # snd (?C as ?op))"
      by (auto split: prod.splits)
    have "fst (?C as ?op) = []" "\<forall>r \<in> set (snd (?C as ?op)). \<exists>e. r = Inl e"
      using pva_done_spent [of ?op as] by simp_all
    then show ?thesis unfolding c
      by (intro exI [of _ "[]"] exI [of _ "[Inr ()]"] exI [of _ "snd (?C as ?op)"]) simp
  qed
qed

definition sample_rpc :: pva_operation where
  "sample_rpc = \<lparr>op_kind = OpRpc, op_name = ''pv'', op_desc = DScalar StInt, op_value = FScalar (SvInt 1),
     op_marks = {0}, op_peer = no_peer, op_creds = no_creds, op_pv_request = None, op_reply_slot = True\<rparr>"

theorem pva_done_answers_once_witness:
  "length (fst (calls_of (\<lambda>(v, e). pva_done v e)
     [(Some (''view'', sample_root), None), (Some ([], sample_root), None), (None, Some ''late'')] sample_rpc)) = 1"
proof -
  let ?as = "[(Some (''view'', sample_root), None), (Some ([], sample_root), None), (None, Some ''late'')]"
  have "Inr () \<in> set (snd (calls_of (\<lambda>(v, e). pva_done v e) ?as sample_rpc))"
    by (simp add: pva_done_def sample_rpc_def snapshot_def with_root_def finish_def)
  moreover have "snd (calls_of (\<lambda>(v, e). pva_done v e) ?as sample_rpc) \<noteq> []"
    by (simp add: split: prod.splits)
  ultimately show ?thesis
    using pva_done_answers_once [of ?as sample_rpc] by force
qed

text \<open>A put as its client sees it: the checks, the hand-over, and the answer made of the operation.\<close>

definition client_put ::
  "(field_desc \<Rightarrow> nat set \<Rightarrow> pv_field \<Rightarrow> pv_field \<Rightarrow> pv_field) \<Rightarrow>
     (access_checked \<Rightarrow> channel_context \<Rightarrow> op_error) \<Rightarrow> (nat \<Rightarrow> pv_field option) \<Rightarrow>
     (string \<Rightarrow> nat option) \<Rightarrow> access_checked \<Rightarrow> field_desc \<Rightarrow> nat set \<Rightarrow>
     pv_field \<Rightarrow> channel_context \<Rightarrow> op_answer \<Rightarrow> pva_event workq \<Rightarrow> (op_error + unit) \<times> pva_event workq"
where
  "client_put fill denied current entries checked desc changes delta ctx answer q =
     (case put_delta_checked fill denied current entries checked desc changes delta ctx of
        Inl e \<Rightarrow> (Inl e, q)
      | Inr (a, op) \<Rightarrow>
          (case run_op op q of
             (Inl e, q') \<Rightarrow> (Inl e, q')
           | (Inr outcome, q') \<Rightarrow>
               (case outcome answer of Inl e \<Rightarrow> (Inl e, q') | Inr _ \<Rightarrow> (Inr (), q'))))"


section \<open>Channels\<close>

text \<open>
  A run of channel notifications; what is served may change before each of them.
\<close>

datatype channel_event = ChannelOpen "string \<Rightarrow> nat option" string | ChannelClose string

definition channel_step :: "channel_event \<Rightarrow> channels \<Rightarrow> channels" where
  "channel_step ev c =
     (case ev of
        ChannelOpen entries name \<Rightarrow> notify_channel_open entries name c
      | ChannelClose name \<Rightarrow> notify_channel_close name c)"

definition no_channels :: channels where
  "no_channels = \<lparr>ch_attached = Map.empty, ch_count = (\<lambda>_. 0)\<rparr>"

definition channel_run :: "channel_event list \<Rightarrow> channels" where
  "channel_run evs = foldl (\<lambda>c ev. channel_step ev c) no_channels evs"

definition attached_to :: "channels \<Rightarrow> nat \<Rightarrow> string \<Rightarrow> nat" where
  "attached_to c a name = (case ch_attached c name of None \<Rightarrow> 0 | Some q \<Rightarrow> count_list q a)"

definition channels_inv :: "channels \<Rightarrow> bool" where
  "channels_inv c \<longleftrightarrow>
     finite (dom (ch_attached c)) \<and> (\<forall>name. ch_attached c name \<noteq> Some []) \<and>
     (\<forall>a. ch_count c a = (\<Sum>name \<in> dom (ch_attached c). int (attached_to c a name)))"

lemma sum_update_one:
  fixes f g :: "'k \<Rightarrow> int"
  assumes "finite A" and "finite B" and "\<And>k. k \<noteq> n \<Longrightarrow> f k = g k"
    and "\<And>k. k \<notin> A \<Longrightarrow> f k = 0" and "\<And>k. k \<notin> B \<Longrightarrow> g k = 0"
  shows "sum f A - f n = sum g B - g n"
proof -
  let ?C = "insert n (A \<union> B)"
  have fin: "finite ?C" using assms by auto
  have "sum f A = sum f ?C" using assms fin by (intro sum.mono_neutral_left) auto
  moreover have "sum g B = sum g ?C" using assms fin by (intro sum.mono_neutral_left) auto
  moreover have "sum f (?C - {n}) = sum g (?C - {n})" using assms by (intro sum.cong) auto
  ultimately show ?thesis using fin by (simp add: sum.remove [of ?C n])
qed

lemma attached_sum_update:
  assumes "finite (dom (ch_attached c))" and "finite (dom (ch_attached c'))"
    and "\<And>k. k \<noteq> n \<Longrightarrow> ch_attached c' k = ch_attached c k"
  shows "(\<Sum>k \<in> dom (ch_attached c'). int (attached_to c' a k)) =
    (\<Sum>k \<in> dom (ch_attached c). int (attached_to c a k)) + int (attached_to c' a n) - int (attached_to c a n)"
  using sum_update_one [of "dom (ch_attached c')" "dom (ch_attached c)" n
      "\<lambda>k. int (attached_to c' a k)" "\<lambda>k. int (attached_to c a k)"] assms
  by (auto simp: attached_to_def dom_def)

lemma channels_inv_step: "channels_inv c \<Longrightarrow> channels_inv (channel_step ev c)"
proof -
  assume inv: "channels_inv c"
  have move: "channels_inv c'"
    if "\<And>k. k \<noteq> n \<Longrightarrow> ch_attached c' k = ch_attached c k" "ch_attached c' n \<noteq> Some []"
      "\<And>a. ch_count c' a = ch_count c a + int (attached_to c' a n) - int (attached_to c a n)" for n c'
  proof -
    have "dom (ch_attached c') \<subseteq> insert n (dom (ch_attached c))" using that(1) by (auto simp: dom_def)
    with inv have fin: "finite (dom (ch_attached c'))"
      by (auto simp: channels_inv_def intro: finite_subset)
    have "ch_attached c' k \<noteq> Some []" for k
      using that(1,2) inv by (cases "k = n") (auto simp: channels_inv_def)
    with fin inv attached_sum_update [of c c' n] that show ?thesis
      by (simp add: channels_inv_def)
  qed
  show ?thesis
  proof (cases ev)
    case (ChannelOpen entries name)
    show ?thesis
    proof (cases "source_entry entries name")
      case (Some a)
      with ChannelOpen show ?thesis
        by (intro move [of name])
          (auto simp: channel_step_def notify_channel_open_def attached_to_def split: option.splits)
    qed (use inv ChannelOpen in \<open>simp add: channel_step_def notify_channel_open_def\<close>)
  next
    case (ChannelClose name)
    show ?thesis
    proof (cases "ch_attached c name")
      case (Some q)
      with inv obtain a q' where "q = a # q'" by (cases q) (auto simp: channels_inv_def)
      with Some ChannelClose show ?thesis
        by (intro move [of name])
          (auto simp: channel_step_def notify_channel_close_def attached_to_def split: option.splits if_splits)
    qed (use inv ChannelClose in \<open>simp add: channel_step_def notify_channel_close_def\<close>)
  qed
qed

lemma channel_run_inv: "channels_inv (channel_run evs)"
  by (induction evs rule: rev_induct)
    (auto simp: channel_run_def channels_inv_step, simp add: channels_inv_def no_channels_def)


section \<open>Provider\<close>

text \<open>
  \<open>PvaProvider\<close>: a hash map of entries and the library's own table of names, which refuses a name
  it has.
\<close>

locale shared_source =
  fixes try_add :: "string \<Rightarrow> 'i \<Rightarrow> bool \<times> 'i"
    and take_out :: "string \<Rightarrow> 'i \<Rightarrow> 'i"
    and served :: "'i \<Rightarrow> string set"
  assumes try_add_ok: "fst (try_add n i) \<longleftrightarrow> n \<notin> served i"
    and try_add_served: "n \<notin> served i \<Longrightarrow> served (snd (try_add n i)) = insert n (served i)"
    and take_out_served: "served (take_out n i) = served i - {n}"

definition pva_provider_add ::
  "(string \<Rightarrow> 'i \<Rightarrow> bool \<times> 'i) \<Rightarrow> string \<Rightarrow> 'a \<Rightarrow> (string \<Rightarrow> 'a option) \<times> 'i \<Rightarrow>
     unit res \<times> (string \<Rightarrow> 'a option) \<times> 'i"
where
  "pva_provider_add try_add name pv t =
     (case t of (entries, inner) \<Rightarrow>
        if entries name \<noteq> None
        then (Inl (ValueError (Msg ''PV {name:?} already added'' [AStr name])), t)
        else (case try_add name inner of
                (False, inner') \<Rightarrow> (Inl (ValueError (Msg ''PV {:?} already added'' [AStr name])), entries, inner')
              | (True, inner') \<Rightarrow> (Inr (), entries(name \<mapsto> pv), inner')))"

definition pva_provider_remove ::
  "(string \<Rightarrow> 'i \<Rightarrow> 'i) \<Rightarrow> string \<Rightarrow> (string \<Rightarrow> 'a option) \<times> 'i \<Rightarrow> 'a option \<times> (string \<Rightarrow> 'a option) \<times> 'i"
where
  "pva_provider_remove take_out name t =
     (case t of (entries, inner) \<Rightarrow> (entries name, entries(name := None), take_out name inner))"

definition pva_provider_keys :: "(string \<Rightarrow> 'a option) \<times> 'i \<Rightarrow> string list" where
  "pva_provider_keys t = sorted_list_of_set (dom (fst t))"

sublocale shared_source \<subseteq> pva_table: pv_table "pva_provider_add try_add" "pva_provider_remove take_out"
    pva_provider_keys fst "\<lambda>t. finite (dom (fst t)) \<and> served (snd t) = dom (fst t)"
proof unfold_locales
  fix t :: "(string \<Rightarrow> 'b option) \<times> 'i" and n a
  assume ok: "finite (dom (fst t)) \<and> served (snd t) = dom (fst t)"
  obtain m i where t: "t = (m, i)" by (cases t)
  obtain b i' where add: "try_add n i = (b, i')" by (cases "try_add n i")
  have b: "b \<longleftrightarrow> m n = None" "m n = None \<Longrightarrow> served i' = insert n (served i)"
    using try_add_ok [of n i] try_add_served [of n i] ok add t by auto
  show "finite (dom (fst (snd (pva_provider_add try_add n a t)))) \<and>
      served (snd (snd (pva_provider_add try_add n a t))) = dom (fst (snd (pva_provider_add try_add n a t)))"
    using b ok t add by (cases b) (auto simp: pva_provider_add_def)
  show "fst (pva_provider_add try_add n a t) = Inr () \<longleftrightarrow> fst t n = None"
    using b t add by (cases b) (auto simp: pva_provider_add_def)
  show "fst (snd (pva_provider_add try_add n a t)) = (if fst t n = None then (fst t)(n \<mapsto> a) else fst t)"
    using b t add by (cases b) (auto simp: pva_provider_add_def)
qed (auto simp: pva_provider_remove_def pva_provider_keys_def take_out_served split: prod.splits)

context shared_source
begin

lemma provider_run:
  assumes "served i = {}" and "t = table_run (pva_provider_add try_add) (pva_provider_remove take_out) ops (Map.empty, i)"
  shows "fst t = table_spec ops Map.empty \<and> served (snd t) = dom (fst t) \<and>
    sorted (pva_provider_keys t) \<and> distinct (pva_provider_keys t) \<and> set (pva_provider_keys t) = dom (fst t)"
  using pva_table.run_lookup [of "(Map.empty, i)" ops] pva_table.run_keys [of "(Map.empty, i)" ops] assms
  by simp

end

text \<open>The table of names of a library source, as a set.\<close>

interpretation name_set: shared_source "\<lambda>n i. (n \<notin> i, insert n i)" "\<lambda>n i. i - {n}" "\<lambda>i. i"
  by unfold_locales simp_all

text \<open>
  A pvAccess provider is a table, like a Channel Access one: after any sequence of adds and
  removes its entries are those of the specification, the library's table has the same names, and
  \<open>keys\<close> lists exactly them, sorted and without repetition.
\<close>

theorem pva_provider_is_table:
  assumes "shared_source try_add take_out served" and "served i = {}"
    and "t = table_run (pva_provider_add try_add) (pva_provider_remove take_out) ops (Map.empty, i)"
  shows "fst t = table_spec ops Map.empty \<and> served (snd t) = dom (fst t) \<and>
    sorted (pva_provider_keys t) \<and> distinct (pva_provider_keys t) \<and> set (pva_provider_keys t) = dom (fst t)"
  using shared_source.provider_run [OF assms] .

theorem pva_provider_is_table_witness:
  "pva_provider_keys (table_run (pva_provider_add (\<lambda>n i. (n \<notin> i, insert n i))) (pva_provider_remove (\<lambda>n i. i - {n}))
     [TableAdd ''b'' (1 :: nat), TableAdd ''a'' 2, TableAdd ''b'' 3, TableRemove ''a''] (Map.empty, {})) = [''b'']"
proof -
  let ?t = "table_run (pva_provider_add (\<lambda>n i. (n \<notin> i, insert n i))) (pva_provider_remove (\<lambda>n i. i - {n}))
     [TableAdd ''b'' (1 :: nat), TableAdd ''a'' 2, TableAdd ''b'' 3, TableRemove ''a''] (Map.empty, {})"
  have "fst ?t = [''b'' \<mapsto> 1]"
    using pva_provider_is_table [OF name_set.shared_source_axioms _ refl, of "{}"
        "[TableAdd ''b'' (1 :: nat), TableAdd ''a'' 2, TableAdd ''b'' 3, TableRemove ''a'']"]
    by (auto simp: fun_eq_iff)
  then show ?thesis by (simp add: pva_provider_keys_def)
qed

section \<open>Configuration\<close>

definition yes :: "string \<Rightarrow> bool" where
  "yes s \<longleftrightarrow> map ascii_lower (trim s) \<in> {''yes'', ''y'', ''1'', ''true'', ''on''}"

text \<open>The first key that is there, if its trimmed value is not empty.\<close>

definition first_value :: "(string \<Rightarrow> string option) \<Rightarrow> string list \<Rightarrow> string option" where
  "first_value conf ks =
     (case List.find (\<lambda>k. conf k \<noteq> None) ks of
        None \<Rightarrow> None
      | Some k \<Rightarrow> (let v = trim (the (conf k)) in if v = [] then None else Some v))"

definition port_of :: "(string \<Rightarrow> string option) \<Rightarrow> string list \<Rightarrow> u16 option res" where
  "port_of conf ks =
     (case first_value conf ks of
        None \<Rightarrow> Inr None
      | Some v \<Rightarrow>
          (case parse_u16 v of
             Some p \<Rightarrow> Inr (Some p)
           | None \<Rightarrow> Inl (ValueError (Msg ''{}={v:?}: {e}'' [AStr (hd ks), AStr v]))))"

record ('i, 'd) pva_server_config =
  sc_tcp_port :: u16
  sc_udp_port :: u16
  sc_interfaces :: "'i list"
  sc_bind_ip :: ip_addr
  sc_auto_beacon :: bool
  sc_beacon_destinations :: "'d list"

text \<open>
  \<open>resolve\<close> and \<open>endpoints\<close> are the library's \<open>resolve_server_intf_addr_list\<close> and
  \<open>parse_endpoints_with_port\<close>.
\<close>

definition server_configure ::
  "(string \<Rightarrow> u16 \<Rightarrow> string + 'i list option) \<Rightarrow> (string \<Rightarrow> u16 \<Rightarrow> 'd list) \<Rightarrow>
     ('i, 'd) pva_server_config \<Rightarrow> (string \<Rightarrow> string option) \<Rightarrow> ('i, 'd) pva_server_config res"
where
  "server_configure resolve endpoints c conf =
     bind_res (port_of conf [''EPICS_PVAS_SERVER_PORT'', ''EPICS_PVA_SERVER_PORT'']) (\<lambda>tcp.
     let c1 = (case tcp of Some p \<Rightarrow> c\<lparr>sc_tcp_port := p\<rparr> | None \<Rightarrow> c) in
     bind_res (port_of conf [''EPICS_PVAS_BROADCAST_PORT'', ''EPICS_PVA_BROADCAST_PORT'']) (\<lambda>udp.
     let c2 = (case udp of Some p \<Rightarrow> c1\<lparr>sc_udp_port := p\<rparr> | None \<Rightarrow> c1) in
     bind_res
       (case first_value conf [''EPICS_PVAS_INTF_ADDR_LIST''] of
          None \<Rightarrow> Inr c2
        | Some v \<Rightarrow>
            (case resolve v (sc_tcp_port c2) of
               Inl e \<Rightarrow> Inl (ValueError (Msg ''EPICS_PVAS_INTF_ADDR_LIST: {e}'' [AStr e]))
             | Inr addrs \<Rightarrow> Inr (c2\<lparr>sc_interfaces := (case addrs of None \<Rightarrow> [] | Some a \<Rightarrow> a)\<rparr>))) (\<lambda>c3.
     let c4 = (case first_value conf [''EPICS_PVAS_AUTO_BEACON_ADDR_LIST'', ''EPICS_PVA_AUTO_ADDR_LIST''] of
                 Some v \<Rightarrow> c3\<lparr>sc_auto_beacon := yes v\<rparr> | None \<Rightarrow> c3)
     in Inr (case first_value conf [''EPICS_PVAS_BEACON_ADDR_LIST'', ''EPICS_PVA_ADDR_LIST''] of
               Some v \<Rightarrow>
                 c4\<lparr>sc_beacon_destinations := endpoints v (if sc_udp_port c4 = 0 then 5076 else sc_udp_port c4)\<rparr>
             | None \<Rightarrow> c4))))"

text \<open>
  The keys of \<open>conf\<close> override the server's configuration one by one: with none of them the
  configuration is the given one, a port that is given must be a 16-bit decimal (otherwise the
  server is refused with a \<open>ValueError\<close> that names the server-side key), and the default port of
  the beacon destinations is the UDP port configured beside them, or 5076 when that one is 0.
\<close>

lemma first_value_empty [simp]: "first_value (\<lambda>k. None) ks = None"
  by (induction ks) (auto simp: first_value_def)

lemma port_of_empty [simp]: "port_of (\<lambda>k. None) ks = Inr None"
  by (simp add: port_of_def)

lemma server_configure_empty: "server_configure resolve endpoints c (\<lambda>k. None) = Inr c"
  by (simp add: server_configure_def)

lemma server_configure_bad_port:
  "port_of conf [''EPICS_PVAS_SERVER_PORT'', ''EPICS_PVA_SERVER_PORT''] = Inl e \<Longrightarrow>
   server_configure resolve endpoints c conf = Inl e \<and>
   (\<exists>v. e = ValueError (Msg ''{}={v:?}: {e}'' [AStr ''EPICS_PVAS_SERVER_PORT'', AStr v]))"
  by (auto simp: server_configure_def port_of_def split: option.splits)

lemma server_configure_beacons:
  assumes "server_configure resolve endpoints c conf = Inr c'"
      and "first_value conf [''EPICS_PVAS_BEACON_ADDR_LIST'', ''EPICS_PVA_ADDR_LIST''] = Some v"
  shows "sc_beacon_destinations c' = endpoints v (if sc_udp_port c' = 0 then 5076 else sc_udp_port c')"
  using assms by (auto simp: server_configure_def Let_def)

text \<open>A blank first key hides a second key that is set.\<close>

lemma blank_key_hides_the_next:
  "first_value [''A'' \<mapsto> '' '', ''B'' \<mapsto> ''5075''] [''A'', ''B''] = None"
  by code_simp

end
