(* ===== verification/PvaClient.thy ===== *)
theory PvaClient
  imports PvValue Runtime CaServer "HOL-Library.Multiset"
begin

text \<open>
  The pvAccess client, \<open>src/src/pva/client.rs\<close>: request parsing, the settings of \<open>configure\<close>, the
  operations of \<open>PvaContext\<close>, the two-phase put (\<open>PutOp\<close>) and the queue size of a monitor.

  The client library \<open>PvaClient\<close> is a record of its operations, each an answer that comes in time
  or does not; the parser of request expressions, \<open>marked_changed_bitset\<close> and the name resolution
  are parameters. The pyclass results (\<open>Value\<close>, \<open>Type\<close>, \<open>PutOp\<close>) are the records they hold.
\<close>

section \<open>Requests and marks\<close>

definition parse_request :: "(string \<Rightarrow> string + 'rq) \<Rightarrow> string option \<Rightarrow> 'rq option res" where
  "parse_request parse request =
     (case request of
        None \<Rightarrow> Inr None
      | Some s \<Rightarrow>
          if trim s = [] then Inr None
          else (case parse s of
                  Inr rq \<Rightarrow> Inr (Some rq)
                | Inl e \<Rightarrow> Inl (ValueError (Msg ''bad pvRequest {s:?}: {e}'' [AStr s, AStr e]))))"

definition marks_for ::
  "(field_desc \<Rightarrow> nat) \<Rightarrow> (field_desc \<Rightarrow> string list \<Rightarrow> nat set) \<Rightarrow> field_desc \<Rightarrow> string list option \<Rightarrow> nat set"
where
  "marks_for tb mcb desc marked =
     (case marked of None \<Rightarrow> all_marks tb desc | Some paths \<Rightarrow> mcb desc paths)"

definition from_parts :: "field_desc \<Rightarrow> pv_field \<Rightarrow> nat set \<Rightarrow> string \<times> root" where
  "from_parts desc field marks = ([], \<lparr>r_desc = desc, r_field = field, r_marks = marks\<rparr>)"

type_synonym marked_read = "field_desc \<times> pv_field \<times> string list option"

definition read_to_value ::
  "(field_desc \<Rightarrow> nat) \<Rightarrow> (field_desc \<Rightarrow> string list \<Rightarrow> nat set) \<Rightarrow> marked_read \<Rightarrow> string \<times> root"
where
  "read_to_value tb mcb = (\<lambda>(desc, value, marked). from_parts desc value (marks_for tb mcb desc marked))"

section \<open>Settings\<close>

definition client_yes :: "string \<Rightarrow> bool" where
  "client_yes s \<longleftrightarrow> map ascii_lower (trim s) \<in> {''yes'', ''y'', ''1'', ''true'', ''on''}"

definition port :: "(string \<Rightarrow> string option) \<Rightarrow> string \<Rightarrow> u16 option res" where
  "port conf key =
     (case conf key of
        None \<Rightarrow> Inr None
      | Some v \<Rightarrow>
          if trim v = [] then Inr None
          else (case parse_u16 (trim v) of
                  Some p \<Rightarrow> Inr (Some p)
                | None \<Rightarrow> Inl (ValueError (Msg ''{key}={v:?}: {e}'' [AStr key, AStr v]))))"

text \<open>\<open>str::split_whitespace\<close>.\<close>

definition push_token :: "string \<Rightarrow> string list \<Rightarrow> string list" where
  "push_token tok toks = (if tok = [] then toks else tok # toks)"

function split_ws :: "string list \<Rightarrow> string \<Rightarrow> string \<Rightarrow> string list" where
  "split_ws ws tok [] = push_token tok []"
| "split_ws ws tok (c # cs) =
     (if [] \<in> set ws then push_token (tok @ c # cs) []
      else case strip_any ws (c # cs) of
             Some r \<Rightarrow> push_token tok (split_ws ws [] r)
           | None \<Rightarrow> split_ws ws (tok @ [c]) cs)"
  by pat_completeness auto
termination
  by (relation "measure (\<lambda>(ws, tok, s). length s)") (auto dest: strip_any_length)

definition split_whitespace :: "string \<Rightarrow> string list" where
  "split_whitespace = split_ws white_space []"

text \<open>What \<open>configure\<close> does to the builder: the setters it calls, in order.\<close>

datatype ('a, 'e) builder_call =
    BroadcastPort u16 | ServerPort u16 | AutoAddrList bool | AddrList "'e list" | NameServers "'a list"

fun name_servers ::
  "(string \<Rightarrow> string + 'a list) \<Rightarrow> u16 \<Rightarrow> string list \<Rightarrow> 'a list res"
where
  "name_servers resolve default_port [] = Inr []"
| "name_servers resolve default_port (tok # toks) =
     (let with_port = (if CHR '':'' \<in> set tok then tok else tok @ CHR '':'' # decimal (unat default_port)) in
      case resolve with_port of
        Inr it \<Rightarrow> map_res ((@) (List.take 1 it)) (name_servers resolve default_port toks)
      | Inl e \<Rightarrow> Inl (ValueError (Msg ''EPICS_PVA_NAME_SERVERS entry {tok:?}: {e}'' [AStr tok, AStr e])))"

definition client_configure ::
  "(string \<Rightarrow> u16 \<Rightarrow> 'e list) \<Rightarrow> (string \<Rightarrow> string + 'a list) \<Rightarrow> (string \<Rightarrow> string option) \<Rightarrow>
     ('a, 'e) builder_call list res"
where
  "client_configure endpoints resolve conf =
     bind_res (port conf ''EPICS_PVA_BROADCAST_PORT'') (\<lambda>bcast.
     let b1 = (case bcast of Some p \<Rightarrow> [BroadcastPort p] | None \<Rightarrow> []) in
     bind_res (port conf ''EPICS_PVA_SERVER_PORT'') (\<lambda>sp.
     let b2 = b1 @ (case sp of Some p \<Rightarrow> [ServerPort p] | None \<Rightarrow> []);
         b3 = b2 @ (case conf ''EPICS_PVA_AUTO_ADDR_LIST'' of Some v \<Rightarrow> [AutoAddrList (client_yes v)] | None \<Rightarrow> []);
         b4 = b3 @ (case conf ''EPICS_PVA_ADDR_LIST'' of
                      Some v \<Rightarrow> [AddrList (endpoints v (case bcast of None \<Rightarrow> 5076 | Some p \<Rightarrow> p))]
                    | None \<Rightarrow> [])
     in case conf ''EPICS_PVA_NAME_SERVERS'' of
          None \<Rightarrow> Inr b4
        | Some v \<Rightarrow>
            bind_res (port conf ''EPICS_PVA_SERVER_PORT'') (\<lambda>sp'.
            map_res (\<lambda>servers. b4 @ [NameServers servers])
              (name_servers resolve (case sp' of None \<Rightarrow> 5075 | Some p \<Rightarrow> p) (split_whitespace v)))))"

section \<open>The operations of the context\<close>

text \<open>What the library answers, if it does before the deadline.\<close>

type_synonym 'a lib_future = "(rs_pva_error + 'a) option"

record ('rq, 'op) pva_client =
  pvget_marked :: "string \<Rightarrow> marked_read lib_future"
  pvget_pv_field_with_request_value_marked :: "string \<Rightarrow> 'rq \<Rightarrow> marked_read lib_future"
  pvinfo :: "string \<Rightarrow> field_desc lib_future"
  pvput_begin :: "string \<Rightarrow> 'rq option \<Rightarrow> bool \<Rightarrow> (field_desc \<times> (pv_field \<times> nat set) option \<times> 'op) lib_future"
  pvrpc :: "string \<Rightarrow> field_desc \<Rightarrow> pv_field \<Rightarrow> (field_desc \<times> pv_field) option lib_future"
  pvrpc_with_request ::
    "string \<Rightarrow> 'rq \<Rightarrow> field_desc \<Rightarrow> pv_field \<Rightarrow> (field_desc \<times> pv_field) option lib_future"
  pvconnect :: "string \<Rightarrow> string lib_future"
  pva_to_string :: "rs_pva_error \<Rightarrow> string"

definition awaited :: "(rs_pva_error \<Rightarrow> string) \<Rightarrow> ('a \<Rightarrow> 'b) \<Rightarrow> 'a lib_future \<Rightarrow> 'b future" where
  "awaited ts k f =
     (case f of
        None \<Rightarrow> NotInTime
      | Some (Inl e) \<Rightarrow> ReadyInTime (Inl (map_pva ts e))
      | Some (Inr x) \<Rightarrow> ReadyInTime (Inr (k x)))"

record 'op put_op =
  po_type :: field_desc
  po_present :: "(pv_field \<times> nat set) option"
  po_inner :: "'op option"

definition do_get ::
  "(field_desc \<Rightarrow> nat) \<Rightarrow> (field_desc \<Rightarrow> string list \<Rightarrow> nat set) \<Rightarrow> ('rq, 'op) pva_client \<Rightarrow> string \<Rightarrow>
     'rq option \<Rightarrow> f64 option \<Rightarrow> (string \<times> root) outcome"
where
  "do_get tb mcb client name request timeout =
     pva_bounded timeout (awaited (pva_to_string client) (read_to_value tb mcb)
       (case request of
          None \<Rightarrow> pvget_marked client name
        | Some rq \<Rightarrow> pvget_pv_field_with_request_value_marked client name rq))"

definition do_info :: "('rq, 'op) pva_client \<Rightarrow> string \<Rightarrow> f64 option \<Rightarrow> field_desc outcome" where
  "do_info client name timeout =
     pva_bounded timeout (awaited (pva_to_string client) (\<lambda>d. d) (pvinfo client name))"

definition do_put_begin ::
  "('rq, 'op) pva_client \<Rightarrow> string \<Rightarrow> 'rq option \<Rightarrow> bool \<Rightarrow> f64 option \<Rightarrow> 'op put_op outcome"
where
  "do_put_begin client name request fetch timeout =
     pva_bounded timeout (awaited (pva_to_string client)
       (\<lambda>(ty, present, op). \<lparr>po_type = ty, po_present = present, po_inner = Some op\<rparr>)
       (pvput_begin client name request fetch))"

definition do_rpc ::
  "('rq, 'op) pva_client \<Rightarrow> string \<Rightarrow> field_desc \<Rightarrow> pv_field \<Rightarrow> 'rq option \<Rightarrow> f64 option \<Rightarrow>
     (string \<times> root) option outcome"
where
  "do_rpc client name desc field request timeout =
     pva_bounded timeout (awaited (pva_to_string client)
       (map_option (\<lambda>(d, v). from_parts d v {}))
       (case request of
          None \<Rightarrow> pvrpc client name desc field
        | Some rq \<Rightarrow> pvrpc_with_request client name rq desc field))"

definition do_connect :: "('rq, 'op) pva_client \<Rightarrow> string \<Rightarrow> f64 option \<Rightarrow> string outcome" where
  "do_connect client name timeout =
     pva_bounded timeout (awaited (pva_to_string client) (\<lambda>a. a) (pvconnect client name))"

text \<open>
  \<open>PvaContext::new\<close>: what is set on the builder, the operation timeout of the library first. Operations are
  bounded by their own deadline, so that one is long.
\<close>

definition INNER_TIMEOUT :: nat where
  "INNER_TIMEOUT = 3600"

definition pva_context_new ::
  "(string \<Rightarrow> u16 \<Rightarrow> 'e list) \<Rightarrow> (string \<Rightarrow> string + 'a list) \<Rightarrow> (string \<Rightarrow> string option) option \<Rightarrow>
     (nat \<times> ('a, 'e) builder_call list) res"
where
  "pva_context_new endpoints resolve conf =
     map_res (Pair INNER_TIMEOUT)
       (case conf of None \<Rightarrow> Inr [] | Some c \<Rightarrow> client_configure endpoints resolve c)"

text \<open>\<open>get\<close> and \<open>rpc\<close> refuse a bad request, and \<open>rpc\<close> a view, before anything is sent.\<close>

definition pva_get ::
  "(field_desc \<Rightarrow> nat) \<Rightarrow> (field_desc \<Rightarrow> string list \<Rightarrow> nat set) \<Rightarrow> (string \<Rightarrow> string + 'rq) \<Rightarrow>
     ('rq, 'op) pva_client \<Rightarrow> string \<Rightarrow> string option \<Rightarrow> f64 option \<Rightarrow> (string \<times> root) outcome"
where
  "pva_get tb mcb parse client name request timeout =
     (case parse_request parse request of
        Inl e \<Rightarrow> Finished (Inl e)
      | Inr rq \<Rightarrow> do_get tb mcb client name rq timeout)"

definition pva_put_begin ::
  "(string \<Rightarrow> string + 'rq) \<Rightarrow> ('rq, 'op) pva_client \<Rightarrow> string \<Rightarrow> string option \<Rightarrow> bool \<Rightarrow> f64 option \<Rightarrow>
     'op put_op outcome"
where
  "pva_put_begin parse client name request fetch timeout =
     (case parse_request parse request of
        Inl e \<Rightarrow> Finished (Inl e)
      | Inr rq \<Rightarrow> do_put_begin client name rq fetch timeout)"

definition pva_rpc ::
  "(string \<Rightarrow> string + 'rq) \<Rightarrow> ('rq, 'op) pva_client \<Rightarrow> string \<Rightarrow> string \<times> root \<Rightarrow> string option \<Rightarrow>
     f64 option \<Rightarrow> (string \<times> root) option outcome"
where
  "pva_rpc parse client name v request timeout =
     (case snapshot (fst v) (snd v) of
        Inl e \<Rightarrow> Finished (Inl e)
      | Inr (desc, field, _) \<Rightarrow>
          (case parse_request parse request of
             Inl e \<Rightarrow> Finished (Inl e)
           | Inr rq \<Rightarrow> do_rpc client name desc field rq timeout))"

definition join_error :: "string \<Rightarrow> pyexc" where
  "join_error e = PvaError (Msg ''task failed: {e}'' [AStr e])"

definition joined :: "'a outcome list \<Rightarrow> 'a py_item list outcome" where
  "joined outs = joined_with join_error outs"

definition get_many ::
  "(field_desc \<Rightarrow> nat) \<Rightarrow> (field_desc \<Rightarrow> string list \<Rightarrow> nat set) \<Rightarrow> (string \<Rightarrow> string + 'rq) \<Rightarrow>
     ('rq, 'op) pva_client \<Rightarrow> string list \<Rightarrow> string option list \<Rightarrow> f64 option \<Rightarrow>
     (string \<times> root) py_item list outcome"
where
  "get_many tb mcb parse client names requests timeout =
     (if length names \<noteq> length requests then
        Finished (Inl (ValueError (Msg ''{} names need {} requests, got {}''
          [ANat (length names), ANat (length names), ANat (length requests)])))
      else
        (case collect_res (map (parse_request parse) requests) of
           Inl e \<Rightarrow> Finished (Inl e)
         | Inr rqs \<Rightarrow> joined (map (\<lambda>(n, rq). do_get tb mcb client n rq timeout) (zip names rqs))))"

definition put_begin_many ::
  "(string \<Rightarrow> string + 'rq) \<Rightarrow> ('rq, 'op) pva_client \<Rightarrow> string list \<Rightarrow> string option list \<Rightarrow> bool list \<Rightarrow>
     f64 option \<Rightarrow> 'op put_op py_item list outcome"
where
  "put_begin_many parse client names requests fetch timeout =
     (if length names \<noteq> length requests \<or> length names \<noteq> length fetch then
        Finished (Inl (ValueError (Msg ''{} names need {} requests and fetch flags, got {} and {}''
          [ANat (length names), ANat (length names), ANat (length requests), ANat (length fetch)])))
      else
        (case collect_res (map (parse_request parse) requests) of
           Inl e \<Rightarrow> Finished (Inl e)
         | Inr rqs \<Rightarrow>
             joined (map (\<lambda>(n, rq, f). do_put_begin client n rq f timeout) (zip names (zip rqs fetch)))))"

section \<open>The two-phase put\<close>

definition put_take :: "unit \<Rightarrow> 'op put_op \<Rightarrow> 'op list \<times> unit res \<times> 'op put_op" where
  "put_take _ op =
     (case po_inner op of
        None \<Rightarrow> ([], Inl (PvaError (Msg ''put already committed'' [])), op)
      | Some h \<Rightarrow> ([h], Inr (), op\<lparr>po_inner := None\<rparr>))"

interpretation put_once: take_once put_take "\<lambda>op. po_inner op = None" "\<lambda>_ op. [the (po_inner op)]"
  by unfold_locales (auto simp: put_take_def)

definition put_current :: "'op put_op \<Rightarrow> (string \<times> root) option \<times> 'op put_op" where
  "put_current op =
     (map_option (\<lambda>(field, marks). from_parts (po_type op) field marks) (po_present op),
      op\<lparr>po_present := None\<rparr>)"

definition put_leaves :: "(field_desc \<Rightarrow> nat) \<Rightarrow> string \<times> root \<Rightarrow> (string \<times> pv_field) list res" where
  "put_leaves tb v =
     bind_res (marked_leaves tb (fst v) (snd v)) (\<lambda>leaves.
       if leaves = [] then
         Inl (PvaError (Msg ''nothing to put: no field of the Value is marked changed'' []))
       else Inr leaves)"

text \<open>What both commits do first: take the operation, then collect what to send.\<close>

definition put_prepare ::
  "(field_desc \<Rightarrow> nat) \<Rightarrow> string \<times> root \<Rightarrow> 'op put_op \<Rightarrow>
     ('op \<times> (string \<times> pv_field) list) res \<times> 'op put_op"
where
  "put_prepare tb v op =
     (case put_take () op of
        (hs, Inl e, op') \<Rightarrow> (Inl e, op')
      | (hs, Inr _, op') \<Rightarrow> (map_res (Pair (hd hs)) (put_leaves tb v), op'))"

text \<open>
  Python holds its \<open>PutOp\<close>s by reference: \<open>store\<close> is the list of the objects, and a call names
  them by index. A step returns the jobs it hands to the library (\<open>commit_fields_typed\<close>).
\<close>

type_synonym 'op put_job = "'op \<times> (string \<times> pv_field) list"

definition commit_async ::
  "(field_desc \<Rightarrow> nat) \<Rightarrow> nat \<Rightarrow> string \<times> root \<Rightarrow> 'op put_op list \<Rightarrow> 'op put_job list res \<times> 'op put_op list"
where
  "commit_async tb i v store =
     (case put_prepare tb v (store ! i) of (r, op') \<Rightarrow> (map_res (\<lambda>j. [j]) r, store[i := op']))"

fun commit_loop ::
  "(field_desc \<Rightarrow> nat) \<Rightarrow> (nat \<times> string \<times> root) list \<Rightarrow> 'op put_op list \<Rightarrow>
     'op put_job list res \<times> 'op put_op list"
where
  "commit_loop tb [] store = (Inr [], store)"
| "commit_loop tb ((i, v) # ps) store =
     (case put_prepare tb v (store ! i) of
        (Inl e, op') \<Rightarrow> (Inl e, store[i := op'])
      | (Inr j, op') \<Rightarrow>
          (case commit_loop tb ps (store[i := op']) of (r, store') \<Rightarrow> (map_res ((#) j) r, store')))"

definition put_commit_many ::
  "(field_desc \<Rightarrow> nat) \<Rightarrow> nat list \<Rightarrow> (string \<times> root) list \<Rightarrow> 'op put_op list \<Rightarrow>
     'op put_job list res \<times> 'op put_op list"
where
  "put_commit_many tb ops values store =
     (if length ops \<noteq> length values then
        (Inl (ValueError (Msg ''{} ops need {} values, got {}''
           [ANat (length ops), ANat (length ops), ANat (length values)])), store)
      else commit_loop tb (zip ops values) store)"

text \<open>
  \<open>do_commit\<close> of a job; \<open>commit_fields\<close> is the library's answer to it. \<open>put_commit_many\<close> joins the jobs
  it made and lists \<open>None\<close> for a commit that succeeded.
\<close>

definition do_commit ::
  "(rs_pva_error \<Rightarrow> string) \<Rightarrow> ('op put_job \<Rightarrow> unit lib_future) \<Rightarrow> f64 option \<Rightarrow> 'op put_job \<Rightarrow> unit outcome"
where
  "do_commit ts commit_fields timeout job = pva_bounded timeout (awaited ts (\<lambda>_. ()) (commit_fields job))"

definition commit_entry :: "unit outcome \<Rightarrow> bool option outcome" where
  "commit_entry out =
     (case out of Finished r \<Rightarrow> Finished (map_res (\<lambda>_. None) r) | Panicked \<Rightarrow> Panicked | Waiting \<Rightarrow> Waiting)"

definition commit_results ::
  "(rs_pva_error \<Rightarrow> string) \<Rightarrow> ('op put_job \<Rightarrow> unit lib_future) \<Rightarrow> f64 option \<Rightarrow> 'op put_job list res \<Rightarrow>
     bool option py_item list outcome"
where
  "commit_results ts commit_fields timeout jobs =
     (case jobs of
        Inl e \<Rightarrow> Finished (Inl e)
      | Inr js \<Rightarrow> joined (map (commit_entry \<circ> do_commit ts commit_fields timeout) js))"

lemma do_commit_ok:
  "do_commit ts commit_fields timeout job = Finished (Inr ()) \<Longrightarrow> commit_fields job = Some (Inr ())"
  by (auto simp: do_commit_def pva_bounded_def bounded_with_def awaited_def split: option.splits sum.splits if_splits future.splits)

lemma commit_entry_None: "commit_entry out = Finished (Inr x) \<longleftrightarrow> x = None \<and> out = Finished (Inr ())"
  by (auto simp: commit_entry_def split: outcome.splits)

text \<open>One entry per job, in order, and \<open>None\<close> only for a job the server accepted.\<close>

lemma commit_results_each:
  assumes "commit_results ts commit_fields timeout (Inr js) = Finished (Inr items)"
  shows "length items = length js \<and>
    (\<forall>i < length js. items ! i = PyItem None \<longrightarrow> commit_fields (js ! i) = Some (Inr ()))"
proof -
  from assms have "joined_with join_error (map (commit_entry \<circ> do_commit ts commit_fields timeout) js) = Finished (Inr items)"
    by (simp add: commit_results_def joined_def)
  from joined_with_entries [OF this]
  have "length items = length js" "\<And>i. i < length js \<Longrightarrow> items ! i = PyItem None \<Longrightarrow>
      commit_entry (do_commit ts commit_fields timeout (js ! i)) = Finished (Inr None)"
    by (auto split: outcome.splits sum.splits)
  then show ?thesis by (auto simp: commit_entry_None intro!: do_commit_ok [where ts = ts and timeout = timeout])
qed

section \<open>At most one commit\<close>

datatype put_call = CallCommit nat "string \<times> root" | CallMany "nat list" "(string \<times> root) list" | CallCurrent nat

definition put_call_ok :: "put_call \<Rightarrow> nat \<Rightarrow> bool" where
  "put_call_ok c n \<longleftrightarrow>
     (case c of CallCommit i v \<Rightarrow> i < n | CallMany is vs \<Rightarrow> (\<forall>i \<in> set is. i < n) | CallCurrent i \<Rightarrow> i < n)"

definition put_call_step ::
  "(field_desc \<Rightarrow> nat) \<Rightarrow> put_call \<Rightarrow> 'op put_op list \<Rightarrow> 'op put_job list res \<times> 'op put_op list"
where
  "put_call_step tb c store =
     (case c of
        CallCommit i v \<Rightarrow> commit_async tb i v store
      | CallMany is vs \<Rightarrow> put_commit_many tb is vs store
      | CallCurrent i \<Rightarrow> (Inr [], store[i := snd (put_current (store ! i))]))"

fun put_run ::
  "(field_desc \<Rightarrow> nat) \<Rightarrow> put_call list \<Rightarrow> 'op put_op list \<Rightarrow> 'op put_job list \<times> 'op put_op list"
where
  "put_run tb [] store = ([], store)"
| "put_run tb (c # cs) store =
     (case put_call_step tb c store of
        (r, store') \<Rightarrow>
          (case put_run tb cs store' of (js, store'') \<Rightarrow>
             (case r of Inr j \<Rightarrow> (j @ js, store'') | Inl _ \<Rightarrow> (js, store''))))"

text \<open>The library operations that are still there to be committed.\<close>

definition uncommitted :: "'op put_op list \<Rightarrow> 'op list" where
  "uncommitted store = List.map_filter po_inner store"

lemma map_filter_update:
  "i < length xs \<Longrightarrow> f (xs ! i) = Some y \<Longrightarrow> f x' = None \<Longrightarrow>
   mset (List.map_filter f xs) = add_mset y (mset (List.map_filter f (xs[i := x'])))"
proof (induction xs arbitrary: i)
  case (Cons x xs)
  then show ?case by (cases i) (auto simp: map_filter_def)
qed simp

lemma map_filter_update_same:
  "f x' = f (xs ! i) \<Longrightarrow> List.map_filter f (xs[i := x']) = List.map_filter f xs"
proof (induction xs arbitrary: i)
  case (Cons x xs)
  then show ?case by (cases i) (auto simp: map_filter_def)
qed simp

lemma put_prepare_cases:
  obtains e where "po_inner op = None" "put_prepare tb v op = (Inl e, op)"
  | h e where "po_inner op = Some h" "put_prepare tb v op = (Inl e, op\<lparr>po_inner := None\<rparr>)"
      "put_leaves tb v = Inl e"
  | h ls where "po_inner op = Some h" "put_prepare tb v op = (Inr (h, ls), op\<lparr>po_inner := None\<rparr>)"
      "put_leaves tb v = Inr ls"
  by (cases "po_inner op"; cases "put_leaves tb v") (auto simp: put_prepare_def put_take_def)

lemma put_leaves_nonempty: "put_leaves tb v = Inr ls \<Longrightarrow> ls \<noteq> [] \<and> marked_leaves tb (fst v) (snd v) = Inr ls"
  by (auto simp: put_leaves_def split: if_splits)

text \<open>
  What one call can do: the handles it sends were uncommitted and are not any more, and each goes
  out with the marked leaves of a value of the call.
\<close>

definition sends_ok ::
  "(field_desc \<Rightarrow> nat) \<Rightarrow> (string \<times> root) set \<Rightarrow> 'op put_op list \<Rightarrow> 'op put_job list \<Rightarrow> 'op put_op list \<Rightarrow> bool"
where
  "sends_ok tb vs store js store' \<longleftrightarrow>
     mset (map fst js) + mset (uncommitted store') \<subseteq># mset (uncommitted store) \<and>
     length store' = length store \<and>
     (\<forall>j \<in> set js. snd j \<noteq> [] \<and> (\<exists>v \<in> vs. marked_leaves tb (fst v) (snd v) = Inr (snd j)))"

lemma sends_ok_refl: "sends_ok tb vs store [] store"
  by (simp add: sends_ok_def)

lemma sends_ok_trans:
  "sends_ok tb vs store js store' \<Longrightarrow> sends_ok tb vs store' js' store'' \<Longrightarrow>
   sends_ok tb vs store (js @ js') store''"
  unfolding sends_ok_def by (auto simp: add.assoc intro: subset_mset.order_trans subset_mset.add_left_mono)

lemma sends_ok_fewer: "sends_ok tb vs store js store' \<Longrightarrow> sends_ok tb vs store [] store'"
  by (auto simp: sends_ok_def intro: subset_mset.order_trans [rotated])

lemma uncommitted_spend:
  "i < length store \<Longrightarrow> po_inner (store ! i) = Some h \<Longrightarrow>
   mset (uncommitted store) = add_mset h (mset (uncommitted (store[i := (store ! i)\<lparr>po_inner := None\<rparr>])))"
  unfolding uncommitted_def by (rule map_filter_update) simp_all

lemma sends_ok_prepare:
  assumes i: "i < length store" and p: "put_prepare tb v (store ! i) = (r, op')" and v: "v \<in> vs"
  shows "sends_ok tb vs store (case r of Inl e \<Rightarrow> [] | Inr j \<Rightarrow> [j]) (store[i := op'])"
proof (cases rule: put_prepare_cases [of "store ! i" tb v])
  case 1
  with p show ?thesis by (auto simp: sends_ok_def)
next
  case 2
  with p uncommitted_spend [OF i 2(1)] show ?thesis by (auto simp: sends_ok_def)
next
  case 3
  with p v put_leaves_nonempty [OF 3(3)] uncommitted_spend [OF i 3(1)] show ?thesis
    by (auto simp: sends_ok_def)
qed

lemma sends_ok_loop:
  "\<lbrakk>\<forall>p \<in> set ps. fst p < length store \<and> snd p \<in> vs; commit_loop tb ps store = (r, store')\<rbrakk> \<Longrightarrow>
   sends_ok tb vs store (case r of Inl e \<Rightarrow> [] | Inr js \<Rightarrow> js) store'"
proof (induction tb ps store arbitrary: r store' rule: commit_loop.induct)
  case (1 tb store)
  then show ?case by (auto simp: sends_ok_refl)
next
  case (2 tb i v ps store)
  obtain r1 op1 where p: "put_prepare tb v (store ! i) = (r1, op1)" by (cases "put_prepare tb v (store ! i)")
  have one: "sends_ok tb vs store (case r1 of Inl e \<Rightarrow> [] | Inr j \<Rightarrow> [j]) (store[i := op1])"
    using "2.prems"(1) p by (intro sends_ok_prepare) auto
  show ?case
  proof (cases r1)
    case (Inl e)
    with one p "2.prems"(2) show ?thesis by auto
  next
    case (Inr j)
    obtain r2 st where l: "commit_loop tb ps (store[i := op1]) = (r2, st)"
      by (cases "commit_loop tb ps (store[i := op1])")
    have "sends_ok tb vs (store[i := op1]) (case r2 of Inl e \<Rightarrow> [] | Inr js \<Rightarrow> js) st"
      using "2.prems"(1) by (intro "2.IH" [OF p [symmetric] Inr _ l]) auto
    with sends_ok_trans [OF one [unfolded Inr sum.case] this] p l Inr "2.prems"(2) show ?thesis
      by (cases r2) (auto dest: sends_ok_fewer)
  qed
qed

lemma sends_ok_step:
  assumes "put_call_ok c (length store)" and "put_call_step tb c store = (r, store')"
    and "(case c of CallCommit i v \<Rightarrow> {v} | CallMany is vs' \<Rightarrow> set vs' | CallCurrent i \<Rightarrow> {}) \<subseteq> vs"
  shows "sends_ok tb vs store (case r of Inl e \<Rightarrow> [] | Inr js \<Rightarrow> js) store'"
proof (cases c)
  case (CallCommit i v)
  then obtain r1 op1 where p: "put_prepare tb v (store ! i) = (r1, op1)" "r = map_res (\<lambda>j. [j]) r1"
      "store' = store[i := op1]"
    using assms(2) by (auto simp: put_call_step_def commit_async_def split: prod.splits)
  have "sends_ok tb vs store (case r1 of Inl e \<Rightarrow> [] | Inr j \<Rightarrow> [j]) (store[i := op1])"
    using assms CallCommit p by (intro sends_ok_prepare) (auto simp: put_call_ok_def)
  with p show ?thesis by (cases r1) auto
next
  case (CallMany ops vals)
  show ?thesis
  proof (cases "length ops = length vals")
    case True
    with CallMany assms show ?thesis
      by (intro sends_ok_loop [of "zip ops vals"])
        (auto simp: put_call_step_def put_commit_many_def put_call_ok_def dest: set_zip_leftD set_zip_rightD)
  next
    case False
    with CallMany assms show ?thesis
      by (auto simp: put_call_step_def put_commit_many_def sends_ok_refl)
  qed
next
  case (CallCurrent i)
  with assms show ?thesis
    by (auto simp: put_call_step_def put_current_def sends_ok_def uncommitted_def map_filter_update_same)
qed

definition call_values :: "put_call list \<Rightarrow> (string \<times> root) set" where
  "call_values cs = (\<Union>c \<in> set cs. case c of CallCommit i v \<Rightarrow> {v} | CallMany is vs \<Rightarrow> set vs | CallCurrent i \<Rightarrow> {})"

lemma sends_ok_run:
  "\<lbrakk>list_all (\<lambda>c. put_call_ok c (length store)) cs; put_run tb cs store = (js, store');
    call_values cs \<subseteq> vs\<rbrakk> \<Longrightarrow> sends_ok tb vs store js store'"
proof (induction cs arbitrary: store js)
  case Nil
  then show ?case by (simp add: sends_ok_refl)
next
  case (Cons c cs)
  obtain r store1 where c: "put_call_step tb c store = (r, store1)" by (cases "put_call_step tb c store")
  obtain js1 where cs: "put_run tb cs store1 = (js1, store')"
      "js = (case r of Inl e \<Rightarrow> [] | Inr j \<Rightarrow> j) @ js1"
    using Cons.prems c by (auto split: prod.splits sum.splits)
  have one: "sends_ok tb vs store (case r of Inl e \<Rightarrow> [] | Inr js \<Rightarrow> js) store1"
    using Cons.prems c by (intro sends_ok_step) (auto simp: call_values_def)
  then have "length store1 = length store" by (simp add: sends_ok_def)
  with Cons.prems cs have "sends_ok tb vs store1 js1 store'"
    by (intro Cons.IH) (auto simp: call_values_def)
  with one cs show ?case by (auto intro: sends_ok_trans)
qed


text \<open>A client with two puts; the first is committed, alone and again with the second.\<close>

definition two_puts :: "nat put_op list" where
  "two_puts =
     [\<lparr>po_type = sample_desc, po_present = None, po_inner = Some 1\<rparr>,
      \<lparr>po_type = sample_desc, po_present = None, po_inner = Some 2\<rparr>]"

definition two_calls :: "put_call list" where
  "two_calls = [CallCommit 0 ([], sample_root), CallMany [0, 1] [([], sample_root), ([], sample_root)],
     CallCommit 1 ([], sample_root)]"

lemma two_calls_run: "map fst (fst (put_run ref_bits two_calls two_puts)) = [1, 2]"
  by code_simp


text \<open>
  A commit takes the operation before it looks at the value: a value that is refused spends the
  put, and \<open>put_commit_many\<close> that raises for one pair has spent the ones before it unsent.
\<close>

lemma refused_value_spends_the_put:
  "\<lbrakk>i < length store; po_inner (store ! i) = Some h; put_leaves tb v = Inl e;
    commit_async tb i v store = (r, store')\<rbrakk> \<Longrightarrow>
   r = Inl e \<and> (\<forall>w. fst (commit_async tb i w store') = Inl (PvaError (Msg ''put already committed'' [])))"
  by (auto simp: commit_async_def put_prepare_def put_take_def)

lemma failed_many_sends_nothing:
  "put_commit_many tb ops values store = (Inl e, store') \<Longrightarrow>
   put_run tb [CallMany ops values] store = ([], store')"
  by (simp add: put_call_step_def)

section \<open>Queue size\<close>

definition queue_limit :: "(string \<times> scalar_value) list option \<Rightarrow> u64 option \<Rightarrow> u64" where
  "queue_limit record_options explicit =
     (case explicit of
        Some n \<Rightarrow> max n 1
      | None \<Rightarrow>
          let from_request =
            Option.bind record_options (\<lambda>opts.
            Option.bind (List.find (\<lambda>kv. fst kv = ''queueSize'') opts) (\<lambda>kv.
              case snd kv of
                SvInt n \<Rightarrow> Some (scast n)
              | SvLong n \<Rightarrow> Some n
              | SvUInt n \<Rightarrow> Some (ucast n)
              | SvString s \<Rightarrow> map_option of_nat (parse_unsigned (2 ^ 64) s)
              | _ \<Rightarrow> None))
          in max (case from_request of None \<Rightarrow> 4 | Some n \<Rightarrow> n) 1)"

lemma queue_limit_positive: "1 \<le> queue_limit opts explicit"
  by (simp add: queue_limit_def Let_def split: option.splits)

lemma queue_limit_explicit: "queue_limit opts (Some n) = max n 1"
  by (simp add: queue_limit_def)

text \<open>A negative size in the request is sign-extended: the queue is as good as unbounded.\<close>

lemma negative_queue_size_is_huge:
  "queue_limit (Some [(''queueSize'', SvInt (- 1))]) None = 2 ^ 64 - 1"
  by (simp add: queue_limit_def)

end
