(* ===== verification/PvaServing.thy ===== *)
theory PvaServing
  imports PvaServer PvaClient
begin

text \<open>
  The Python side of the pvAccess server, \<open>src/src/pva/server.rs\<close>: what an operation tells its
  handler, events as Python sees them, \<open>PvaSharedPV\<close> over its entry, and the server object with
  the address and the \<open>conf\<close> it hands out. The library's server, its composite source and its
  configuration are parameters.
\<close>

section \<open>Operations and events\<close>

definition pva_op_kind :: "pva_operation \<Rightarrow> string" where
  "pva_op_kind op = (case op_kind op of OpPut \<Rightarrow> ''put'' | OpRpc \<Rightarrow> ''rpc'')"

definition pva_op_peer :: "pva_operation \<Rightarrow> string" where
  "pva_op_peer op = show_sock (op_peer op)"

definition pva_op_account :: "(string \<Rightarrow> string) \<Rightarrow> pva_operation \<Rightarrow> string" where
  "pva_op_account lossy_text op = lossy_text (cr_account (op_creds op))"

definition pva_op_method :: "pva_operation \<Rightarrow> string" where
  "pva_op_method op = cr_method (op_creds op)"

definition pva_op_value :: "pva_operation \<Rightarrow> string \<times> root" where
  "pva_op_value op = from_parts (op_desc op) (op_value op) (op_marks op)"

text \<open>\<open>descr\<close> is the library's descriptor of a bare value.\<close>

definition pva_op_request ::
  "(field_desc \<Rightarrow> nat) \<Rightarrow> (pv_field \<Rightarrow> field_desc) \<Rightarrow> pva_operation \<Rightarrow> (string \<times> root) option"
where
  "pva_op_request tb descr op =
     map_option (\<lambda>req. let desc = descr req in from_parts desc req (all_marks tb desc)) (op_pv_request op)"

fun pva_event_to_py :: "'tok \<Rightarrow> pva_event \<Rightarrow> 'tok \<times> string \<times> pva_operation option" where
  "pva_event_to_py tok (PutEvent op) = (tok, ''put'', Some op)"
| "pva_event_to_py tok (RpcEvent op) = (tok, ''rpc'', Some op)"
| "pva_event_to_py tok FirstConnect = (tok, ''first'', None)"
| "pva_event_to_py tok LastDisconnect = (tok, ''last'', None)"

section \<open>\<open>PvaSharedPV\<close>\<close>

text \<open>The connect callbacks hold the entry weakly and ignore a queue that is gone.\<close>

definition connect_hook :: "bool \<Rightarrow> pva_event \<Rightarrow> pva_event workq \<Rightarrow> pva_event workq" where
  "connect_hook entry_alive ev q = (if entry_alive then fst (workq_send ev q) else q)"

definition pva_pv_open ::
  "(rs_pva_error \<Rightarrow> string) \<Rightarrow> 'p shared_pv_ops \<Rightarrow> string \<Rightarrow> root \<Rightarrow> 'p pv_entry \<Rightarrow> unit res \<times> 'p pv_entry"
where
  "pva_pv_open ts S pre r e =
     (case snapshot pre r of
        Inl err \<Rightarrow> (Inl err, e)
      | Inr (desc, field, marks) \<Rightarrow> entry_open ts S desc field marks e)"

section \<open>The server\<close>

record ('src, 'c, 's, 'i, 'd) pva_server_lib =
  add_source :: "string \<Rightarrow> 'src \<Rightarrow> i32 \<Rightarrow> 'c \<Rightarrow> string + 'c"
  start_isolated :: "'c \<Rightarrow> rs_pva_error + 's"
  start_with :: "'c \<Rightarrow> ('i, 'd) pva_server_config \<Rightarrow> rs_pva_error + 's"
  default_config :: "('i, 'd) pva_server_config"
  config_with_env :: "string + ('i, 'd) pva_server_config"
  tcp_addr :: "'s \<Rightarrow> sock_addr"
  server_config :: "'s \<Rightarrow> ('i, 'd) pva_server_config"
  intf_ip :: "'i \<Rightarrow> ip_addr"
  resolve_intfs :: "string \<Rightarrow> u16 \<Rightarrow> string + 'i list option"
  endpoints_with_port :: "string \<Rightarrow> u16 \<Rightarrow> 'd list"
  pva_error_text :: "rs_pva_error \<Rightarrow> string"

fun add_sources ::
  "('src, 'c, 's, 'i, 'd) pva_server_lib \<Rightarrow> (string \<times> 'src \<times> i32) list \<Rightarrow> 'c \<Rightarrow> 'c res"
where
  "add_sources B [] c = Inr c"
| "add_sources B ((name, src, order) # ps) c =
     (case add_source B name src order c of
        Inl e \<Rightarrow> Inl (ValueError (Msg ''{e}'' [AStr e]))
      | Inr c' \<Rightarrow> add_sources B ps c')"

text \<open>The configuration; an isolated server has none.\<close>

definition chosen_config ::
  "('src, 'c, 's, 'i, 'd) pva_server_lib \<Rightarrow> (string \<Rightarrow> string option) option \<Rightarrow> bool \<Rightarrow> bool \<Rightarrow>
     ('i, 'd) pva_server_config option res"
where
  "chosen_config B conf useenv isolate =
     (if isolate then Inr None
      else
        (let base = (if useenv
               then (case config_with_env B of Inl e \<Rightarrow> Inl (ValueError (Msg ''{e}'' [AStr e])) | Inr c \<Rightarrow> Inr c)
               else Inr (default_config B))
         in map_res Some (bind_res base (\<lambda>c.
              server_configure (resolve_intfs B) (endpoints_with_port B) c (case conf of None \<Rightarrow> Map.empty | Some m \<Rightarrow> m)))))"

text \<open>The address handed out: loopback if isolated, else the first interface that names one, else the bound one.\<close>

definition chosen_addr ::
  "('src, 'c, 's, 'i, 'd) pva_server_lib \<Rightarrow> bool \<Rightarrow> ('i, 'd) pva_server_config \<Rightarrow> ip_addr"
where
  "chosen_addr B isolate cfg =
     (if isolate then ip_loopback
      else case List.find (\<lambda>ip. \<not> ip_unspecified ip) (map (intf_ip B) (sc_interfaces cfg)) of
             Some ip \<Rightarrow> ip
           | None \<Rightarrow> if ip_unspecified (sc_bind_ip cfg) then ip_loopback else sc_bind_ip cfg)"

record 's pva_srv =
  ps_inner :: "'s option"
  ps_tcp :: sock_addr
  ps_udp_port :: u16
  ps_addr :: ip_addr

definition pva_server_new ::
  "('src, 'c, 's, 'i, 'd) pva_server_lib \<Rightarrow> 'c \<Rightarrow> (string \<times> 'src \<times> i32) list \<Rightarrow>
     (string \<Rightarrow> string option) option \<Rightarrow> bool \<Rightarrow> bool \<Rightarrow> 's pva_srv res"
where
  "pva_server_new B composite providers conf useenv isolate =
     bind_res (add_sources B providers composite) (\<lambda>c.
     bind_res (chosen_config B conf useenv isolate) (\<lambda>config.
       (case (case config of None \<Rightarrow> start_isolated B c | Some cfg \<Rightarrow> start_with B c cfg) of
          Inl e \<Rightarrow> Inl (map_pva (pva_error_text B) e)
        | Inr s \<Rightarrow>
            Inr \<lparr>ps_inner = Some s, ps_tcp = tcp_addr B s, ps_udp_port = sc_udp_port (server_config B s),
              ps_addr = chosen_addr B isolate (server_config B s)\<rparr>)))"

text \<open>\<open>stop\<close>, with the library servers it stops.\<close>

definition pva_server_stop :: "'s pva_srv \<Rightarrow> 's list \<times> 's pva_srv" where
  "pva_server_stop srv =
     (case ps_inner srv of None \<Rightarrow> ([], srv) | Some s \<Rightarrow> ([s], srv\<lparr>ps_inner := None\<rparr>))"

definition pva_server_running :: "'s pva_srv \<Rightarrow> bool" where
  "pva_server_running srv \<longleftrightarrow> ps_inner srv \<noteq> None"

definition pva_tcp_port :: "'s pva_srv \<Rightarrow> u16" where
  "pva_tcp_port srv = sa_port (ps_tcp srv)"

text \<open>\<open>conf\<close>, in the order the dict is filled.\<close>

definition pva_server_conf :: "'s pva_srv \<Rightarrow> (string \<times> string) list" where
  "pva_server_conf srv =
     (let addr = show_ip (ps_addr srv) in
      [(''EPICS_PVA_ADDR_LIST'', addr @ '':'' @ show_port (ps_udp_port srv)),
       (''EPICS_PVA_AUTO_ADDR_LIST'', ''NO''),
       (''EPICS_PVA_SERVER_PORT'', show_port (sa_port (ps_tcp srv))),
       (''EPICS_PVA_NAME_SERVERS'', addr @ '':'' @ show_port (sa_port (ps_tcp srv))),
       (''EPICS_PVAS_INTF_ADDR_LIST'', addr),
       (''EPICS_PVAS_SERVER_PORT'', show_port (sa_port (ps_tcp srv))),
       (''EPICS_PVAS_BROADCAST_PORT'', show_port (ps_udp_port srv))])"

section \<open>Properties\<close>

text \<open>
  The handler a put is meant for: post the operation's value, then complete the operation, with an
  error if the post failed.
\<close>

definition post_and_done ::
  "(rs_pva_error \<Rightarrow> string) \<Rightarrow> 'p shared_pv_ops \<Rightarrow> (field_desc \<Rightarrow> nat set \<Rightarrow> string list) \<Rightarrow> (nat \<Rightarrow> bool) \<Rightarrow>
     pva_operation \<Rightarrow> 'p pv_entry \<Rightarrow> op_reply list \<times> 'p pv_entry"
where
  "post_and_done ts S paths alive op e =
     (case entry_post ts S paths alive (fst (pva_op_value op)) (snd (pva_op_value op)) e of
        (Inl _, e') \<Rightarrow> (fst (pva_done None (Some ''post failed'') op), e')
      | (Inr _, e') \<Rightarrow> (fst (pva_done None None op), e'))"

text \<open>
  A client's put reaches every subscriber. When the source accepts a put and its handler posts the
  operation's value, either the post fails, the client is told so and the PV is as it was; or the
  client is told it succeeded, the PV stores a value made from the client's fields completed with what
  was stored, each subscriber that is alive has exactly one more update, that value with exactly the
  paths the client changed, and \<open>current\<close> is that value with these marks added.
\<close>

theorem accepted_put_is_seen:
  assumes "shared_pv S"
    and "put_delta_checked fill denied (\<lambda>a. sp_current S (pe_pv (pvs a))) entries checked desc changes delta ctx = Inr (a, op)"
    and "pe_opened (pvs a) = Some desc" and "changes \<noteq> {}"
    and "post_and_done ts S paths alive (op\<lparr>op_reply_slot := True\<rparr>) (pvs a) = (replies, e')"
  shows "ac_write checked \<and>
    (replies = [Inl ''post failed''] \<and> e' = pvs a \<or>
     replies = [Inr None] \<and>
     (\<exists>prior p v. sp_current S (pe_pv (pvs a)) = Some prior \<and>
        sp_post_delta S changes (fill desc changes delta prior) (pe_pv (pvs a)) = Inr p \<and> sp_current S p = Some v \<and>
        entry_current S e' = Some \<lparr>r_desc = desc, r_field = v, r_marks = pe_marks (pvs a) \<union> changes\<rparr> \<and>
        pe_subs e' = map (\<lambda>s. s\<lparr>su_posts := su_posts s @
            [(v, case su_kind s of SubMarked \<Rightarrow> Some (paths desc changes) | SubPlain \<Rightarrow> None)]\<rparr>)
          (filter (\<lambda>s. alive (su_ring s)) (pe_subs (pvs a)))))"
proof -
  from assms(2) obtain prior where w: "ac_write checked" and prior: "sp_current S (pe_pv (pvs a)) = Some prior"
    and op: "op_kind op = OpPut" "op_desc op = desc" "op_value op = fill desc changes delta prior" "op_marks op = changes"
    by (auto simp: put_delta_checked_def split: if_splits option.splits)
  let ?f = "fill desc changes delta prior"
  have root: "pva_op_value (op\<lparr>op_reply_slot := True\<rparr>) = ([], \<lparr>r_desc = desc, r_field = ?f, r_marks = changes\<rparr>)"
    using op by (simp add: pva_op_value_def from_parts_def)
  show ?thesis
  proof (cases "sp_post_delta S changes ?f (pe_pv (pvs a))")
    case (Inl err)
    with assms(3-5) root w show ?thesis
      by (simp add: post_and_done_def entry_post_def pva_done_def finish_def)
  next
    case (Inr p)
    from shared_pv.post_current [OF assms(1) Inr] obtain v where v: "sp_current S p = Some v" by blast
    have posts: "subscriber_post v (paths desc changes) =
        (\<lambda>s. s\<lparr>su_posts := su_posts s @ [(v, case su_kind s of SubMarked \<Rightarrow> Some (paths desc changes) | SubPlain \<Rightarrow> None)]\<rparr>)"
      by (simp add: fun_eq_iff subscriber_post_def)
    from assms(3-5) root Inr v have "replies = [Inr None] \<and>
        e' = (pvs a)\<lparr>pe_pv := p, pe_marks := pe_marks (pvs a) \<union> changes,
          pe_subs := map (subscriber_post v (paths desc changes)) (filter (\<lambda>s. alive (su_ring s)) (pe_subs (pvs a)))\<rparr>"
      by (auto simp: post_and_done_def entry_post_def pva_done_def finish_def op Let_def split: op_kind.splits)
    with w prior Inr v assms(3) show ?thesis by (auto simp: entry_current_def posts)
  qed
qed

definition served_entry :: "pv_field option pv_entry" where
  "served_entry = \<lparr>pe_pv = Some (FScalar (SvInt 1)),
     pe_subs = [\<lparr>su_ring = 7, su_kind = SubMarked, su_seed = FScalar (SvInt 1), su_posts = []\<rparr>],
     pe_marks = {0}, pe_opened = Some (DScalar StInt)\<rparr>"

definition any_ctx :: channel_context where
  "any_ctx = \<lparr>cx_peer = no_peer, cx_creds = no_creds, cx_pv_request = None\<rparr>"

theorem accepted_put_is_seen_witness:
  "\<exists>op e'. put_delta_checked (\<lambda>d c v p. v) (\<lambda>_ _. OpDenied []) (\<lambda>a. sp_current plain_pv (pe_pv served_entry))
       [''pv'' \<mapsto> 0] \<lparr>ac_name = ''pv'', ac_read = True, ac_write = True\<rparr> (DScalar StInt) {0} (FScalar (SvInt 2)) any_ctx =
       Inr (0, op) \<and>
     post_and_done (\<lambda>_. []) plain_pv (\<lambda>_ _. []) (\<lambda>_. True) (op\<lparr>op_reply_slot := True\<rparr>) served_entry = ([Inr None], e') \<and>
     map su_posts (pe_subs e') = [[(FScalar (SvInt 2), Some [])]]"
proof -
  let ?checked = "\<lparr>ac_name = ''pv'', ac_read = True, ac_write = True\<rparr>"
  have "utf8_valid ''pv''" by (simp add: Let_def)
  then obtain op where op: "put_delta_checked (\<lambda>d c v p. v) (\<lambda>_ _. OpDenied []) (\<lambda>a. sp_current plain_pv (pe_pv ((\<lambda>_. served_entry) a)))
       [''pv'' \<mapsto> 0] ?checked (DScalar StInt) {0} (FScalar (SvInt 2)) any_ctx = Inr (0, op)"
    by (simp add: put_delta_checked_def source_entry_def served_entry_def plain_pv_def)
  obtain replies e' where h: "post_and_done (\<lambda>_. []) plain_pv (\<lambda>_ _. []) (\<lambda>_. True) (op\<lparr>op_reply_slot := True\<rparr>) served_entry = (replies, e')"
    by (metis surj_pair)
  have "replies \<noteq> [Inl ''post failed''] \<or> e' \<noteq> served_entry"
  proof -
    have "op_desc op = DScalar StInt" "op_marks op = {0}" "op_kind op = OpPut"
      using op by (auto simp: put_delta_checked_def split: if_splits option.splits)
    with h show ?thesis
      by (auto simp: post_and_done_def entry_post_def pva_op_value_def from_parts_def served_entry_def plain_pv_def
          pva_done_def finish_def Let_def)
  qed
  with accepted_put_is_seen [OF plain_pv.shared_pv_axioms op _ _ h] have "replies = [Inr None]"
    "map su_posts (pe_subs e') = [[(FScalar (SvInt 2), Some [])]]"
    by (auto simp: served_entry_def plain_pv_def)
  with op h show ?thesis by auto
qed

text \<open>A run of \<open>stop\<close> calls.\<close>

fun stops :: "nat \<Rightarrow> 's pva_srv \<Rightarrow> 's list \<times> 's pva_srv" where
  "stops 0 srv = ([], srv)"
| "stops (Suc n) srv =
     (case pva_server_stop srv of (ss, srv') \<Rightarrow> (case stops n srv' of (ss', srv'') \<Rightarrow> (ss @ ss', srv'')))"

lemma stops_stopped: "ps_inner srv = None \<Longrightarrow> stops n srv = ([], srv)"
  by (induction n) (simp_all add: pva_server_stop_def)

lemma new_runs:
  "pva_server_new B composite providers conf useenv isolate = Inr srv \<Longrightarrow>
     \<exists>s. ps_inner srv = Some s \<and> ps_tcp srv = tcp_addr B s \<and>
       ps_addr srv = chosen_addr B isolate (server_config B s)"
proof -
  assume "pva_server_new B composite providers conf useenv isolate = Inr srv"
  then obtain c config where
    "(case (case config of None \<Rightarrow> start_isolated B c | Some cfg \<Rightarrow> start_with B c cfg) of
        Inl e \<Rightarrow> Inl (map_pva (pva_error_text B) e)
      | Inr s \<Rightarrow>
          Inr \<lparr>ps_inner = Some s, ps_tcp = tcp_addr B s, ps_udp_port = sc_udp_port (server_config B s),
            ps_addr = chosen_addr B isolate (server_config B s)\<rparr>) = Inr srv"
    by (auto simp: pva_server_new_def)
  then show ?thesis
    by (cases "case config of None \<Rightarrow> start_isolated B c | Some cfg \<Rightarrow> start_with B c cfg") auto
qed

lemma chosen_addr_specified: "\<not> ip_unspecified (chosen_addr B isolate cfg)"
proof -
  have "\<not> ip_unspecified ip_loopback" by (simp add: ip_unspecified_def ip_loopback_def)
  then show ?thesis
    by (auto simp: chosen_addr_def find_Some_iff split: option.splits)
qed

lemma conf_stopped: "pva_server_conf (snd (pva_server_stop srv)) = pva_server_conf srv"
  by (simp add: pva_server_stop_def pva_server_conf_def split: option.split)

text \<open>
  A server that started runs until it is stopped: any number of \<open>stop\<close> calls stops the library's
  server once, the first time, and it no longer runs; the address it hands out is never the
  unspecified one, is the loopback address when isolated, and stays with its ports after the stop.
\<close>

theorem pva_server_lifecycle:
  assumes "pva_server_new B composite providers conf useenv isolate = Inr srv"
  shows "pva_server_running srv \<and> \<not> ip_unspecified (ps_addr srv) \<and>
    (isolate \<longrightarrow> ps_addr srv = ip_loopback) \<and>
    (\<exists>s. stops (Suc n) srv = ([s], srv\<lparr>ps_inner := None\<rparr>) \<and> ps_tcp srv = tcp_addr B s) \<and>
    \<not> pva_server_running (snd (stops (Suc n) srv)) \<and>
    pva_server_conf (snd (stops (Suc n) srv)) = pva_server_conf srv"
proof -
  from new_runs [OF assms] obtain s where s: "ps_inner srv = Some s" "ps_tcp srv = tcp_addr B s"
    "ps_addr srv = chosen_addr B isolate (server_config B s)" by blast
  have stop: "stops (Suc n) srv = ([s], srv\<lparr>ps_inner := None\<rparr>)"
    using s(1) stops_stopped [of "srv\<lparr>ps_inner := None\<rparr>" n] by (simp add: pva_server_stop_def)
  have "isolate \<Longrightarrow> ps_addr srv = ip_loopback" using s(3) by (simp add: chosen_addr_def)
  moreover have "\<not> ip_unspecified (ps_addr srv)" using s(3) chosen_addr_specified by metis
  moreover have "pva_server_conf (srv\<lparr>ps_inner := None\<rparr>) = pva_server_conf srv"
    using conf_stopped [of srv] s(1) by (simp add: pva_server_stop_def)
  ultimately show ?thesis using s stop by (simp add: pva_server_running_def)
qed

text \<open>A library server that is its configuration.\<close>

definition sample_config :: "(ip_addr, string) pva_server_config" where
  "sample_config = \<lparr>sc_tcp_port = 5075, sc_udp_port = 5076, sc_interfaces = [V4 0, V4 0x0A000001],
     sc_bind_ip = V4 0, sc_auto_beacon = True, sc_beacon_destinations = []\<rparr>"

definition sample_lib :: "(nat, nat list, (ip_addr, string) pva_server_config, ip_addr, string) pva_server_lib" where
  "sample_lib = \<lparr>add_source = (\<lambda>n s k c. Inr (s # c)), start_isolated = (\<lambda>c. Inr sample_config),
     start_with = (\<lambda>c cfg. Inr cfg), default_config = sample_config, config_with_env = Inl ''no'',
     tcp_addr = (\<lambda>s. \<lparr>sa_ip = sc_bind_ip s, sa_port = sc_tcp_port s, sa_scope = 0\<rparr>), server_config = (\<lambda>s. s),
     intf_ip = (\<lambda>i. i), resolve_intfs = (\<lambda>s p. Inr None), endpoints_with_port = (\<lambda>s p. [s]),
     pva_error_text = (\<lambda>_. [])\<rparr>"

definition sample_server :: "(ip_addr, string) pva_server_config pva_srv" where
  "sample_server = \<lparr>ps_inner = Some sample_config, ps_tcp = \<lparr>sa_ip = V4 0, sa_port = 5075, sa_scope = 0\<rparr>,
     ps_udp_port = 5076, ps_addr = V4 0x0A000001\<rparr>"

lemma sample_server_new: "pva_server_new sample_lib [] [(''p'', 3, 0)] None False False = Inr sample_server"
  by (simp add: pva_server_new_def chosen_config_def chosen_addr_def server_configure_def sample_lib_def sample_config_def
      sample_server_def ip_unspecified_def)

theorem pva_server_lifecycle_witness:
  "\<not> pva_server_running (snd (stops 3 sample_server))"
  using pva_server_lifecycle [OF sample_server_new, of 2] by (simp add: eval_nat_numeral)

text \<open>Text without blanks is one word.\<close>

lemma split_ws_visible:
  "list_all visible s \<Longrightarrow> tok @ s \<noteq> [] \<Longrightarrow> split_ws white_space tok s = [tok @ s]"
proof (induction s arbitrary: tok)
  case Nil
  then show ?case by (simp add: push_token_def)
next
  case (Cons c cs)
  then have "strip_any white_space (c # cs) = None" by (simp add: strip_space_visible)
  with Cons show ?case by (simp add: white_space_nonempty)
qed

lemma split_whitespace_visible: "list_all visible s \<Longrightarrow> s \<noteq> [] \<Longrightarrow> split_whitespace s = [s]"
  by (simp add: split_whitespace_def split_ws_visible)

lemma visible_endpoint: "list_all visible (show_ip ip @ CHR '':'' # show_port p)"
  by (simp add: visible_ip visible_port)

lemma show_ip_nonempty: "show_ip ip \<noteq> []"
proof (cases ip)
  case (V4 w)
  then show ?thesis by (simp add: show_ip_def show_v4_def decimal_nonempty)
next
  case (V6 w)
  have "hex n \<noteq> []" for n by (subst hex.simps) (simp add: Let_def)
  moreover have "v6_segments w \<noteq> []" by (simp add: v6_segments_def)
  then obtain s ss where "v6_segments w = s # ss" by (cases "v6_segments w") auto
  ultimately show ?thesis using V6 by (simp add: show_ip_def show_v6_def Let_def split: prod.split)
qed

lemma trim_endpoint [simp]: "trim (show_ip ip @ CHR '':'' # show_port p) = show_ip ip @ CHR '':'' # show_port p"
  by (rule trim_visible) (rule visible_endpoint)

lemma trim_ip [simp]: "trim (show_ip ip) = show_ip ip"
  by (rule trim_visible) (rule visible_ip)



end
