(* ===== verification/PvaHub.thy ===== *)
theory PvaHub
  imports PvConform Errors NetAddr
begin

text \<open>
  \<open>src/src/pva/hub.rs\<close>: the per-monitor queue with its squashing and its signal, the decoder that
  completes partial updates, and \<open>PvaMonitorHub\<close>, which learns which monitors to take from.

  Pushes come from callbacks on runtime threads, takes from Python. Each is one critical section
  of the queue's mutex; \<open>signal\<close> leaves it before it sends the id, so a send that is still to come
  is part of the state (\<open>pm_sending\<close>), and so is a batch of ids that \<open>recv_batch\<close> has pulled and
  not used yet (\<open>ph_hands\<close>). \<open>pm_pushed\<close> and \<open>pm_taken\<close> are ghosts: what was pushed and what was
  taken over the life of a monitor. The \<open>k\<close>-th monitor of the hub has the id \<open>k + 1\<close>, modulo
  \<open>2 ^ 32\<close>. The wire decoding of the client library is a parameter of the decoder.
\<close>

section \<open>The queue of a monitor\<close>

datatype update =
    UValue field_desc pv_field "nat set"
  | UConnected sock_addr
  | UDisconnected
  | UFinished

fun is_value_update :: "update \<Rightarrow> bool" where
  "is_value_update (UValue _ _ _) = True"
| "is_value_update _ = False"

record monitor =
  pm_items :: "update list"
  pm_limit :: nat
  pm_signalled :: bool
  pm_sending :: nat
  pm_opening :: bool
  pm_pushed :: "update list"
  pm_taken :: "update list"

definition signal :: "monitor \<Rightarrow> monitor" where
  "signal m =
     (if \<not> pm_signalled m then m\<lparr>pm_signalled := True, pm_sending := pm_sending m + 1\<rparr> else m)"

definition push :: "update \<Rightarrow> monitor \<Rightarrow> monitor" where
  "push u m = signal (m\<lparr>pm_items := pm_items m @ [u], pm_pushed := pm_pushed m @ [u]\<rparr>)"

text \<open>What \<open>push_value\<close> does to the items: squash into the tail, or append.\<close>

definition squash :: "nat \<Rightarrow> field_desc \<Rightarrow> pv_field \<Rightarrow> nat set \<Rightarrow> update list \<Rightarrow> update list" where
  "squash limit desc value changed items =
     (let values = length (filter is_value_update items) in
      if limit \<le> values \<and> items \<noteq> [] \<and> is_value_update (last items)
      then (case last items of
              UValue _ _ tchanged \<Rightarrow> butlast items @ [UValue desc value (tchanged \<union> changed)]
            | _ \<Rightarrow> items)
      else items @ [UValue desc value changed])"

definition push_value :: "field_desc \<Rightarrow> pv_field \<Rightarrow> nat set \<Rightarrow> monitor \<Rightarrow> monitor" where
  "push_value desc value changed m =
     signal (m\<lparr>pm_items := squash (pm_limit m) desc value changed (pm_items m),
       pm_pushed := pm_pushed m @ [UValue desc value changed]\<rparr>)"

definition take_queue :: "monitor \<Rightarrow> update list \<times> monitor" where
  "take_queue m =
     (pm_items m, m\<lparr>pm_signalled := False, pm_items := [], pm_taken := pm_taken m @ pm_items m\<rparr>)"

definition new_monitor :: "nat \<Rightarrow> monitor" where
  "new_monitor limit =
     \<lparr>pm_items = [UDisconnected], pm_limit = limit, pm_signalled = False, pm_sending = 0,
      pm_opening = True, pm_pushed = [UDisconnected], pm_taken = []\<rparr>"

section \<open>The decoder\<close>

record decoder =
  dec_desc :: "field_desc option"
  dec_prior :: "pv_field option"

definition decode ::
  "('b \<Rightarrow> 'o \<Rightarrow> (nat set \<times> 'b) option) \<Rightarrow> (field_desc \<Rightarrow> nat set \<Rightarrow> 'b \<Rightarrow> 'o \<Rightarrow> pv_field option) \<Rightarrow>
     (field_desc \<Rightarrow> nat set \<Rightarrow> pv_field \<Rightarrow> pv_field \<Rightarrow> pv_field) \<Rightarrow>
     field_desc \<Rightarrow> 'b \<Rightarrow> 'o \<Rightarrow> decoder \<Rightarrow> decoder \<times> (field_desc \<times> pv_field \<times> nat set) option"
where
  "decode bits_decode field_decode fill desc body order s =
     (let s' = (if dec_desc s = Some desc then s else \<lparr>dec_desc = Some desc, dec_prior = None\<rparr>) in
      case bits_decode body order of
        None \<Rightarrow> (s', None)
      | Some (changed, rest) \<Rightarrow>
          (case field_decode desc changed rest order of
             None \<Rightarrow> (s', None)
           | Some decoded \<Rightarrow>
               let full = (case dec_prior s' of
                             Some prior \<Rightarrow> fill desc changed decoded prior
                           | None \<Rightarrow> decoded)
               in (s'\<lparr>dec_prior := Some full\<rparr>, Some (desc, full, changed))))"

text \<open>
  \<open>open\<close>: the pvRequest sent, and the two callbacks the library calls on its own threads, with
  what they do to the decoder and the monitor.
\<close>

datatype monitor_conn_event = McConnected sock_addr | McDisconnected | McFinished

definition open_request :: "(string \<Rightarrow> 'rq) \<Rightarrow> ('rq \<Rightarrow> pv_field) \<Rightarrow> 'rq option \<Rightarrow> pv_field" where
  "open_request parse to_pv_field request =
     to_pv_field (case request of Some rq \<Rightarrow> rq | None \<Rightarrow> parse ''field()'')"

definition on_frame ::
  "('b \<Rightarrow> 'o \<Rightarrow> (nat set \<times> 'b) option) \<Rightarrow> (field_desc \<Rightarrow> nat set \<Rightarrow> 'b \<Rightarrow> 'o \<Rightarrow> pv_field option) \<Rightarrow>
     (field_desc \<Rightarrow> nat set \<Rightarrow> pv_field \<Rightarrow> pv_field \<Rightarrow> pv_field) \<Rightarrow>
     field_desc \<Rightarrow> 'b \<Rightarrow> 'o \<Rightarrow> decoder \<times> monitor \<Rightarrow> decoder \<times> monitor"
where
  "on_frame bits_decode field_decode fill desc body order sm =
     (case decode bits_decode field_decode fill desc body order (fst sm) of
        (s, None) \<Rightarrow> (s, snd sm)
      | (s, Some (d, v, c)) \<Rightarrow> (s, push_value d v c (snd sm)))"

definition on_conn :: "monitor_conn_event \<Rightarrow> monitor \<Rightarrow> monitor" where
  "on_conn ev m =
     push (case ev of
         McConnected peer \<Rightarrow> UConnected peer
       | McDisconnected \<Rightarrow> UDisconnected
       | McFinished \<Rightarrow> UFinished) m"

section \<open>The hub\<close>

text \<open>\<open>ph_subs\<close> gives the monitor of an id and whether its control handle is set.\<close>

record pva_hub =
  ph_monitors :: "monitor list"
  ph_subs :: "u32 \<Rightarrow> (nat \<times> bool) option"
  ph_ready :: "u32 list"
  ph_open :: bool
  ph_hands :: "u32 list list"
  ph_next_id :: u32

definition pva_hub_new :: pva_hub where
  "pva_hub_new = \<lparr>ph_monitors = [], ph_subs = Map.empty, ph_ready = [], ph_open = True,
     ph_hands = [], ph_next_id = 1\<rparr>"

definition on_monitor :: "nat \<Rightarrow> (monitor \<Rightarrow> monitor) \<Rightarrow> pva_hub \<Rightarrow> pva_hub" where
  "on_monitor k f h = h\<lparr>ph_monitors := (ph_monitors h)[k := f (ph_monitors h ! k)]\<rparr>"

text \<open>\<open>subscribe\<close> up to the open, and what follows a successful or failed open.\<close>

definition subscribe_begin :: "nat \<Rightarrow> pva_hub \<Rightarrow> pva_hub \<times> u32" where
  "subscribe_begin limit h =
     (let i = ph_next_id h in
      (h\<lparr>ph_next_id := i + 1, ph_subs := (ph_subs h)(i \<mapsto> (length (ph_monitors h), False)),
         ph_monitors := ph_monitors h @ [new_monitor limit]\<rparr>, i))"

definition subscribe_end :: "u32 \<Rightarrow> nat \<Rightarrow> pva_hub \<Rightarrow> pva_hub" where
  "subscribe_end i k h =
     on_monitor k (\<lambda>m. signal (m\<lparr>pm_opening := False\<rparr>))
       (h\<lparr>ph_subs := (case ph_subs h i of
            None \<Rightarrow> ph_subs h
          | Some (j, _) \<Rightarrow> (ph_subs h)(i \<mapsto> (j, True)))\<rparr>)"

definition subscribe_failed :: "u32 \<Rightarrow> pva_hub \<Rightarrow> pva_hub" where
  "subscribe_failed i h = h\<lparr>ph_subs := (ph_subs h)(i := None)\<rparr>"

text \<open>The handle to stop is returned: \<open>None\<close> when there is nothing to wait for.\<close>

definition pva_close_subscription :: "u32 \<Rightarrow> pva_hub \<Rightarrow> pva_hub \<times> nat option" where
  "pva_close_subscription i h =
     (h\<lparr>ph_subs := (ph_subs h)(i := None)\<rparr>,
      case ph_subs h i of Some (k, True) \<Rightarrow> Some k | _ \<Rightarrow> None)"

definition pauser :: "u32 \<Rightarrow> pva_hub \<Rightarrow> nat option" where
  "pauser i h = (case ph_subs h i of Some (k, True) \<Rightarrow> Some k | _ \<Rightarrow> None)"

definition pva_hub_len :: "pva_hub \<Rightarrow> nat" where
  "pva_hub_len h = card (dom (ph_subs h))"

text \<open>What \<open>pause\<close> and \<open>resume\<close> await: the call on the pauser of the monitor, if it has one.\<close>

datatype pause_call = PausePauser nat | ResumePauser nat

definition pva_hub_pause :: "u32 \<Rightarrow> pva_hub \<Rightarrow> pause_call option" where
  "pva_hub_pause i h = map_option PausePauser (pauser i h)"

definition pva_hub_resume :: "u32 \<Rightarrow> pva_hub \<Rightarrow> pause_call option" where
  "pva_hub_resume i h = map_option ResumePauser (pauser i h)"

text \<open>\<open>close\<close> drops every entry, and then closes the drain; other calls may come between.\<close>

definition close_drop :: "pva_hub \<Rightarrow> pva_hub" where
  "close_drop h = h\<lparr>ph_subs := Map.empty\<rparr>"

definition close_ready :: "pva_hub \<Rightarrow> pva_hub" where
  "close_ready h = h\<lparr>ph_ready := [], ph_open := False\<rparr>"

definition pva_hub_close :: "pva_hub \<Rightarrow> pva_hub" where
  "pva_hub_close h = close_ready (close_drop h)"

text \<open>\<open>send\<close> of \<open>signal\<close>, after the critical section.\<close>

definition send_id :: "nat \<Rightarrow> pva_hub \<Rightarrow> pva_hub" where
  "send_id k h =
     on_monitor k (\<lambda>m. m\<lparr>pm_sending := pm_sending m - 1\<rparr>)
       (if ph_open h then h\<lparr>ph_ready := ph_ready h @ [nth_id k]\<rparr> else h)"

text \<open>\<open>recv_batch\<close>: pull every id there is, then take the queues of those still subscribed.\<close>

definition pull_ids :: "pva_hub \<Rightarrow> (u32 list \<times> pva_hub) option" where
  "pull_ids h =
     (if ph_open h \<and> ph_ready h \<noteq> []
      then Some (ph_ready h, h\<lparr>ph_ready := [], ph_hands := ph_hands h @ [ph_ready h]\<rparr>) else None)"

fun take_ids :: "u32 list \<Rightarrow> pva_hub \<Rightarrow> (u32 \<times> update list) list \<times> pva_hub" where
  "take_ids [] h = ([], h)"
| "take_ids (i # is) h =
     (case ph_subs h i of
        None \<Rightarrow> take_ids is h
      | Some (k, _) \<Rightarrow>
          let (us, m) = take_queue (ph_monitors h ! k);
              (taken, h') = take_ids is (h\<lparr>ph_monitors := (ph_monitors h)[k := m]\<rparr>)
          in ((i, us) # taken, h'))"

text \<open>The batch items; a value's payload is the \<open>Value\<close> of its parts.\<close>

definition KIND_VALUE :: u8 where "KIND_VALUE = 0"

definition KIND_CONNECTED :: u8 where "KIND_CONNECTED = 1"

definition KIND_DISCONNECTED :: u8 where "KIND_DISCONNECTED = 2"

definition KIND_FINISHED :: u8 where "KIND_FINISHED = 3"

datatype pva_payload = PvValuePayload field_desc pv_field "nat set" | PvPeer string | PvNone

fun update_item :: "u32 \<Rightarrow> update \<Rightarrow> u32 \<times> u8 \<times> pva_payload" where
  "update_item i (UValue desc value changed) = (i, KIND_VALUE, PvValuePayload desc value changed)"
| "update_item i (UConnected peer) = (i, KIND_CONNECTED, PvPeer (show_sock peer))"
| "update_item i UDisconnected = (i, KIND_DISCONNECTED, PvNone)"
| "update_item i UFinished = (i, KIND_FINISHED, PvNone)"

definition batch_items :: "(u32 \<times> update list) list \<Rightarrow> (u32 \<times> u8 \<times> pva_payload) list" where
  "batch_items taken = concat (map (\<lambda>(i, us). map (update_item i) us) taken)"

text \<open>
  What \<open>recv_batch\<close> answers once the bounded pull is done, and the hub after it; \<open>None\<close> is a closed hub.
\<close>

definition finish_batch ::
  "u32 list option outcome \<Rightarrow> pva_hub \<Rightarrow> (u32 \<times> u8 \<times> pva_payload) list option outcome \<times> pva_hub"
where
  "finish_batch pulled h =
     (case pulled of
        Finished (Inr (Some is)) \<Rightarrow>
          (case take_ids is h of (taken, h') \<Rightarrow> (Finished (Inr (Some (batch_items taken))), h'))
      | Finished (Inr None) \<Rightarrow> (Finished (Inr None), h)
      | Finished (Inl e) \<Rightarrow> (Finished (Inl e), h)
      | Panicked \<Rightarrow> (Panicked, h)
      | Waiting \<Rightarrow> (Waiting, h))"

definition remove_at :: "nat \<Rightarrow> 'a list \<Rightarrow> 'a list" where
  "remove_at n xs = take n xs @ drop (Suc n) xs"

inductive pva_hub_step :: "pva_hub \<Rightarrow> pva_hub \<Rightarrow> bool" where
  step_subscribe: "subscribe_begin limit h = (h', i) \<Longrightarrow> pva_hub_step h h'"
| step_opened: "k < length (ph_monitors h) \<Longrightarrow> pm_opening (ph_monitors h ! k) \<Longrightarrow>
    pva_hub_step h (subscribe_end (nth_id k) k h)"
| step_open_failed: "k < length (ph_monitors h) \<Longrightarrow> pm_opening (ph_monitors h ! k) \<Longrightarrow>
    pva_hub_step h (subscribe_failed (nth_id k) h)"
| step_conn: "k < length (ph_monitors h) \<Longrightarrow> pva_hub_step h (on_monitor k (on_conn ev) h)"
| step_push_value: "k < length (ph_monitors h) \<Longrightarrow>
    pva_hub_step h (on_monitor k (push_value d v c) h)"
| step_send: "k < length (ph_monitors h) \<Longrightarrow> 0 < pm_sending (ph_monitors h ! k) \<Longrightarrow>
    pva_hub_step h (send_id k h)"
| step_pull: "pull_ids h = Some (is, h') \<Longrightarrow> pva_hub_step h h'"
| step_take: "n < length (ph_hands h) \<Longrightarrow>
    take_ids (ph_hands h ! n) (h\<lparr>ph_hands := remove_at n (ph_hands h)\<rparr>) = (taken, h') \<Longrightarrow>
    pva_hub_step h h'"
| step_close_subscription: "pva_close_subscription i h = (h', r) \<Longrightarrow> pva_hub_step h h'"
| step_close_drop: "pva_hub_step h (close_drop h)"
| step_close_ready: "pva_hub_step h (close_ready h)"

abbreviation pva_hub_reachable :: "pva_hub \<Rightarrow> bool" where
  "pva_hub_reachable \<equiv> pva_hub_step\<^sup>*\<^sup>* pva_hub_new"

section \<open>Squashing\<close>

lemma signal_simps [simp]:
  "pm_items (signal m) = pm_items m" "pm_limit (signal m) = pm_limit m"
  "pm_opening (signal m) = pm_opening m" "pm_pushed (signal m) = pm_pushed m"
  "pm_taken (signal m) = pm_taken m" "pm_signalled (signal m)"
  "pm_sending (signal m) = pm_sending m + (if pm_signalled m then 0 else 1)"
  by (simp_all add: signal_def)

text \<open>
  The specification of squashing: what was pushed falls into consecutive groups, each a single
  update or a run of values, and every group is represented by its newest value with the union of
  the changed sets.
\<close>

fun combine :: "update \<Rightarrow> update \<Rightarrow> update" where
  "combine (UValue _ _ c) (UValue d v c') = UValue d v (c \<union> c')"
| "combine a b = b"

fun merge_group :: "update list \<Rightarrow> update" where
  "merge_group [] = UFinished"
| "merge_group (u # us) = foldl combine u us"

definition group_ok :: "update list \<Rightarrow> bool" where
  "group_ok g \<longleftrightarrow> g \<noteq> [] \<and> (length g = 1 \<or> (\<forall>u \<in> set g. is_value_update u))"

definition compressed :: "update list \<Rightarrow> update list \<Rightarrow> bool" where
  "compressed pushed queued \<longleftrightarrow>
     (\<exists>gs. concat gs = pushed \<and> map merge_group gs = queued \<and> (\<forall>g \<in> set gs. group_ok g))"

lemma merge_group_snoc: "g \<noteq> [] \<Longrightarrow> merge_group (g @ [u]) = combine (merge_group g) u"
  by (cases g) auto

lemma compressed_snoc: "compressed ps qs \<Longrightarrow> compressed (ps @ [u]) (qs @ [u])"
  unfolding compressed_def
proof (elim exE conjE)
  fix gs
  assume "concat gs = ps" "map merge_group gs = qs" "\<forall>g \<in> set gs. group_ok g"
  then show "\<exists>gs. concat gs = ps @ [u] \<and> map merge_group gs = qs @ [u] \<and> (\<forall>g \<in> set gs. group_ok g)"
    by (intro exI [of _ "gs @ [[u]]"]) (auto simp: group_ok_def)
qed

lemma combine_value: "is_value_update (foldl combine u us) = is_value_update (last (u # us))"
proof (induction us arbitrary: u)
  case (Cons x us)
  have "is_value_update (combine u x) = is_value_update x" by (cases u; cases x) auto
  with Cons show ?case by auto
qed simp

lemma merge_group_value: "group_ok g \<Longrightarrow> is_value_update (merge_group g) \<Longrightarrow> \<forall>u \<in> set g. is_value_update u"
  by (cases g) (auto simp: group_ok_def)

lemma compressed_squash:
  assumes "compressed ps (qs @ [q])" and "is_value_update q" and "is_value_update u"
  shows "compressed (ps @ [u]) (qs @ [combine q u])"
proof -
  from assms(1) obtain gs g where gs: "concat (gs @ [g]) = ps" "map merge_group gs = qs"
    "merge_group g = q" "\<forall>g' \<in> set (gs @ [g]). group_ok g'"
    by (auto simp: compressed_def map_eq_append_conv)
  then have g: "group_ok g" "g \<noteq> []" by (auto simp: group_ok_def)
  with merge_group_value [OF g(1)] gs(3) assms(2,3) have "group_ok (g @ [u])"
    by (auto simp: group_ok_def)
  moreover have "merge_group (g @ [u]) = combine q u"
    using g(2) gs(3) by (simp add: merge_group_snoc)
  ultimately show ?thesis
    using gs unfolding compressed_def by (intro exI [of _ "gs @ [g @ [u]]"]) auto
qed

lemma compressed_prefix_squash:
  "compressed ps (ts @ items) \<Longrightarrow> compressed (ps @ [UValue d v c]) (ts @ squash n d v c items)"
proof (cases items rule: rev_cases)
  case Nil
  assume "compressed ps (ts @ items)"
  with Nil show ?thesis by (simp add: squash_def compressed_snoc)
next
  case (snoc xs x)
  assume c: "compressed ps (ts @ items)"
  show ?thesis
  proof (cases "n \<le> length (filter is_value_update items) \<and> is_value_update x")
    case False
    with snoc c compressed_snoc [OF c, of "UValue d v c"] show ?thesis by (auto simp: squash_def Let_def)
  next
    case True
    with snoc obtain d' v' c' where x: "x = UValue d' v' c'" by (cases x) auto
    from c snoc True have "compressed (ps @ [UValue d v c]) ((ts @ xs) @ [combine x (UValue d v c)])"
      by (intro compressed_squash) auto
    with True snoc x show ?thesis by (simp add: squash_def Let_def)
  qed
qed

lemma compressed_lifecycle: "compressed ps qs \<Longrightarrow> filter (Not \<circ> is_value_update) ps = filter (Not \<circ> is_value_update) qs"
proof -
  assume "compressed ps qs"
  then obtain gs where gs: "concat gs = ps" "map merge_group gs = qs" "\<forall>g \<in> set gs. group_ok g"
    by (auto simp: compressed_def)
  have "filter (Not \<circ> is_value_update) g = filter (Not \<circ> is_value_update) [merge_group g]" if "group_ok g" for g
  proof (cases "\<forall>u \<in> set g. is_value_update u")
    case True
    with that have "is_value_update (merge_group g)"
      by (cases g) (auto simp: group_ok_def combine_value)
    with True show ?thesis by (simp add: filter_empty_conv)
  next
    case False
    with that obtain u where "g = [u]" by (auto simp: group_ok_def length_Suc_conv)
    then show ?thesis by simp
  qed
  then have "filter (Not \<circ> is_value_update) (concat gs) = filter (Not \<circ> is_value_update) (map merge_group gs)"
    using gs(3) by (induction gs) auto
  with gs show ?thesis by simp
qed

section \<open>The number of values\<close>

text \<open>Between two takes the values are bounded by the limit, but for one more per lifecycle item.\<close>

definition lifecycle_count :: "update list \<Rightarrow> nat" where
  "lifecycle_count us = length (filter (Not \<circ> is_value_update) us)"

definition value_count :: "update list \<Rightarrow> nat" where
  "value_count us = length (filter is_value_update us)"

definition values_bounded :: "nat \<Rightarrow> update list \<Rightarrow> bool" where
  "values_bounded limit us \<longleftrightarrow>
     (if us = [] \<or> is_value_update (last us) then value_count us \<le> max limit 1 + lifecycle_count us
      else value_count us < max limit 1 + lifecycle_count us)"

lemma counts_snoc [simp]:
  "value_count (us @ [u]) = value_count us + (if is_value_update u then 1 else 0)"
  "lifecycle_count (us @ [u]) = lifecycle_count us + (if is_value_update u then 0 else 1)"
  "value_count [] = 0" "lifecycle_count [] = 0"
  by (simp_all add: value_count_def lifecycle_count_def)

lemma values_bounded_push: "values_bounded n us \<Longrightarrow> \<not> is_value_update u \<Longrightarrow> values_bounded n (us @ [u])"
  by (auto simp: values_bounded_def split: if_splits)

lemma values_bounded_squash: "values_bounded n us \<Longrightarrow> values_bounded n (squash n d v c us)"
proof (cases us rule: rev_cases)
  case Nil
  then show ?thesis by (simp add: squash_def values_bounded_def value_count_def lifecycle_count_def)
next
  case (snoc xs x)
  assume b: "values_bounded n us"
  show ?thesis
  proof (cases "n \<le> value_count us \<and> is_value_update x")
    case True
    with snoc obtain d' v' c' where x: "x = UValue d' v' c'" by (cases x) auto
    with True snoc have "squash n d v c us = xs @ [UValue d v (c' \<union> c)]"
      by (auto simp: squash_def Let_def value_count_def)
    with b snoc x show ?thesis by (simp add: values_bounded_def)
  next
    case False
    with snoc have "squash n d v c us = us @ [UValue d v c]"
      by (auto simp: squash_def Let_def value_count_def)
    moreover have "value_count us < max n 1 + lifecycle_count us"
      using b snoc False by (cases "is_value_update x") (simp_all add: values_bounded_def)
    ultimately show ?thesis by (simp add: values_bounded_def)
  qed
qed

section \<open>Invariant of the hub\<close>

definition mon_ok :: "monitor \<Rightarrow> bool" where
  "mon_ok m \<longleftrightarrow> compressed (pm_pushed m) (pm_taken m @ pm_items m) \<and> values_bounded (pm_limit m) (pm_items m)"

lemma mon_ok_signal [simp]: "mon_ok (signal m) = mon_ok m"
  by (simp add: mon_ok_def)

lemma mon_ok_push: "mon_ok m \<Longrightarrow> \<not> is_value_update u \<Longrightarrow> mon_ok (push u m)"
  using compressed_snoc [of "pm_pushed m" "pm_taken m @ pm_items m" u]
  by (simp add: push_def) (simp add: mon_ok_def values_bounded_push)

lemma mon_ok_push_value: "mon_ok m \<Longrightarrow> mon_ok (push_value d v c m)"
  by (simp add: push_value_def) (simp add: mon_ok_def values_bounded_squash compressed_prefix_squash)

lemma mon_ok_take: "mon_ok m \<Longrightarrow> mon_ok (snd (take_queue m))"
  by (simp add: mon_ok_def take_queue_def values_bounded_def)

lemma mon_ok_new: "mon_ok (new_monitor limit)"
  by (auto simp: mon_ok_def new_monitor_def values_bounded_def value_count_def lifecycle_count_def
      compressed_def group_ok_def intro: exI [of _ "[[UDisconnected]]"])

text \<open>How many times the id of a monitor is on its way to a take.\<close>

definition tokens :: "pva_hub \<Rightarrow> nat \<Rightarrow> nat" where
  "tokens h k =
     pm_sending (ph_monitors h ! k) + count_list (ph_ready h) (nth_id k) +
     count_list (concat (ph_hands h)) (nth_id k)"

definition wake_ok :: "pva_hub \<Rightarrow> nat \<Rightarrow> bool" where
  "wake_ok h k \<longleftrightarrow>
     (let m = ph_monitors h ! k in
      tokens h k = (if pm_signalled m then 1 else 0) \<and>
      (pm_items m \<noteq> [] \<longrightarrow> pm_signalled m \<or> pm_opening m))"

definition pva_hub_inv :: "pva_hub \<Rightarrow> bool" where
  "pva_hub_inv h \<longleftrightarrow>
     (\<forall>m \<in> set (ph_monitors h). mon_ok m) \<and>
     ph_next_id h = nth_id (length (ph_monitors h)) \<and>
     (\<forall>i k c. ph_subs h i = Some (k, c) \<longrightarrow> k < length (ph_monitors h) \<and> i = nth_id k) \<and>
     (\<forall>i \<in> set (ph_ready h) \<union> set (concat (ph_hands h)). \<exists>k < length (ph_monitors h). i = nth_id k) \<and>
     (ph_open h \<and> length (ph_monitors h) \<le> 2 ^ 32 \<longrightarrow>
        (\<forall>k c. ph_subs h (nth_id k) = Some (k, c) \<longrightarrow> wake_ok h k))"

lemma pva_hub_invI:
  assumes "\<And>m. m \<in> set (ph_monitors h) \<Longrightarrow> mon_ok m"
    and "ph_next_id h = nth_id (length (ph_monitors h))"
    and "\<And>i k c. ph_subs h i = Some (k, c) \<Longrightarrow> k < length (ph_monitors h) \<and> i = nth_id k"
    and "\<And>i. i \<in> set (ph_ready h) \<union> set (concat (ph_hands h)) \<Longrightarrow> \<exists>k < length (ph_monitors h). i = nth_id k"
    and "\<And>k c. ph_open h \<Longrightarrow> length (ph_monitors h) \<le> 2 ^ 32 \<Longrightarrow> ph_subs h (nth_id k) = Some (k, c) \<Longrightarrow> wake_ok h k"
  shows "pva_hub_inv h"
  unfolding pva_hub_inv_def using assms by blast

lemma pva_hub_invD:
  assumes "pva_hub_inv h"
  shows "\<And>m. m \<in> set (ph_monitors h) \<Longrightarrow> mon_ok m"
    and "ph_next_id h = nth_id (length (ph_monitors h))"
    and "\<And>i k c. ph_subs h i = Some (k, c) \<Longrightarrow> k < length (ph_monitors h) \<and> i = nth_id k"
    and "\<And>i. i \<in> set (ph_ready h) \<union> set (concat (ph_hands h)) \<Longrightarrow> \<exists>k < length (ph_monitors h). i = nth_id k"
    and "\<And>k c. ph_open h \<Longrightarrow> length (ph_monitors h) \<le> 2 ^ 32 \<Longrightarrow> ph_subs h (nth_id k) = Some (k, c) \<Longrightarrow> wake_ok h k"
  using assms unfolding pva_hub_inv_def by blast+

lemma pva_hub_inv_new: "pva_hub_inv pva_hub_new"
  by (simp add: pva_hub_inv_def pva_hub_new_def)

lemma inv_subscribe_begin:
  assumes inv: "pva_hub_inv h" and s: "subscribe_begin limit h = (h', i)"
  shows "pva_hub_inv h'"
proof -
  let ?n = "length (ph_monitors h)"
  have h': "h' = h\<lparr>ph_next_id := nth_id (Suc ?n), ph_subs := (ph_subs h)(nth_id ?n \<mapsto> (?n, False)),
      ph_monitors := ph_monitors h @ [new_monitor limit]\<rparr>"
    using s pva_hub_invD(2) [OF inv] by (auto simp: subscribe_begin_def Let_def nth_id_Suc)
  show ?thesis
  proof (rule pva_hub_invI)
    fix i
    assume "i \<in> set (ph_ready h') \<union> set (concat (ph_hands h'))"
    with pva_hub_invD(4) [OF inv, of i] obtain k where "k < ?n" "i = nth_id k" by (auto simp: h')
    then show "\<exists>k < length (ph_monitors h'). i = nth_id k" by (auto simp: h' less_Suc_eq)
  next
    fix k c
    assume "length (ph_monitors h') \<le> 2 ^ 32" "ph_open h'" "ph_subs h' (nth_id k) = Some (k, c)"
    then have n: "Suc ?n \<le> 2 ^ 32" "ph_open h"
      and k: "k = ?n \<or> ph_subs h (nth_id k) = Some (k, c) \<and> nth_id k \<noteq> nth_id ?n"
      by (auto simp: h' split: if_splits)
    show "wake_ok h' k"
    proof (cases "k = ?n")
      case True
      have "nth_id ?n \<notin> set (ph_ready h) \<union> set (concat (ph_hands h))"
      proof
        assume "nth_id ?n \<in> set (ph_ready h) \<union> set (concat (ph_hands h))"
        with pva_hub_invD(4) [OF inv] obtain j where "j < ?n" "nth_id ?n = nth_id j" by blast
        with n(1) show False by (simp add: nth_id_inject)
      qed
      with True show ?thesis
        by (auto simp: wake_ok_def tokens_def h' new_monitor_def count_list_0_iff)
    next
      case False
      with k have "k < ?n" "wake_ok h k"
        using pva_hub_invD(3,5) [OF inv] n by auto
      then show ?thesis by (simp add: wake_ok_def tokens_def h' nth_append)
    qed
  qed (use pva_hub_invD [OF inv] in \<open>auto simp: h' mon_ok_new less_Suc_eq split: if_splits\<close>)
qed

text \<open>A step on one monitor that leaves the ids on their way alone.\<close>

lemma inv_on_monitor:
  assumes inv: "pva_hub_inv h" and k: "k < length (ph_monitors h)"
    and ok: "mon_ok (ph_monitors h ! k) \<Longrightarrow> mon_ok (f (ph_monitors h ! k))"
    and wake: "\<And>c. wake_ok h k \<Longrightarrow> wake_ok (on_monitor k f h) k"
  shows "pva_hub_inv (on_monitor k f h)"
proof (rule pva_hub_invI)
  fix m
  assume "m \<in> set (ph_monitors (on_monitor k f h))"
  then have "m \<in> set (ph_monitors h) \<or> m = f (ph_monitors h ! k)"
    by (auto simp: on_monitor_def dest: subsetD [OF set_update_subset_insert])
  with pva_hub_invD(1) [OF inv] ok k show "mon_ok m" by auto
next
  fix j c
  assume "ph_open (on_monitor k f h)" "length (ph_monitors (on_monitor k f h)) \<le> 2 ^ 32"
    "ph_subs (on_monitor k f h) (nth_id j) = Some (j, c)"
  then have "wake_ok h j" using pva_hub_invD(5) [OF inv] by (simp add: on_monitor_def)
  then show "wake_ok (on_monitor k f h) j"
    using wake by (cases "j = k") (simp_all add: wake_ok_def tokens_def on_monitor_def)
qed (use pva_hub_invD [OF inv] in \<open>auto simp: on_monitor_def\<close>)

lemma wake_ok_signal:
  assumes "k < length (ph_monitors h)" and "wake_ok h k"
    and "pm_sending (f (ph_monitors h ! k)) = pm_sending (ph_monitors h ! k)"
    and "pm_signalled (f (ph_monitors h ! k)) = pm_signalled (ph_monitors h ! k)"
  shows "wake_ok (on_monitor k (\<lambda>m. signal (f m)) h) k"
  using assms by (auto simp: wake_ok_def tokens_def on_monitor_def Let_def)

lemma inv_subs_shrink:
  assumes "pva_hub_inv h" and "\<And>i k c. S i = Some (k, c) \<Longrightarrow> \<exists>c'. ph_subs h i = Some (k, c')"
  shows "pva_hub_inv (h\<lparr>ph_subs := S\<rparr>)"
proof (rule pva_hub_invI)
  fix k c
  assume "ph_open (h\<lparr>ph_subs := S\<rparr>)" "length (ph_monitors (h\<lparr>ph_subs := S\<rparr>)) \<le> 2 ^ 32"
    "ph_subs (h\<lparr>ph_subs := S\<rparr>) (nth_id k) = Some (k, c)"
  then have "wake_ok h k" using assms(2) pva_hub_invD(5) [OF assms(1)] by fastforce
  then show "wake_ok (h\<lparr>ph_subs := S\<rparr>) k" by (simp add: wake_ok_def tokens_def)
qed (use pva_hub_invD [OF assms(1)] assms(2) in \<open>fastforce+\<close>)

lemma inv_subscribe_end:
  assumes "pva_hub_inv h" and "k < length (ph_monitors h)"
  shows "pva_hub_inv (subscribe_end i k h)"
proof -
  let ?h = "h\<lparr>ph_subs := (case ph_subs h i of None \<Rightarrow> ph_subs h | Some (j, _) \<Rightarrow> (ph_subs h)(i \<mapsto> (j, True)))\<rparr>"
  have inv: "pva_hub_inv ?h"
    by (rule inv_subs_shrink [OF assms(1)]) (auto split: option.splits if_splits prod.splits)
  have "wake_ok (on_monitor k (\<lambda>m. signal (m\<lparr>pm_opening := False\<rparr>)) ?h) k" if "wake_ok ?h k"
    using that assms(2) by (intro wake_ok_signal) simp_all
  then show ?thesis
    unfolding subscribe_end_def using inv assms(2)
    by (intro inv_on_monitor) (simp_all add: mon_ok_def)
qed

lemma inv_send:
  assumes inv: "pva_hub_inv h" and k: "k < length (ph_monitors h)" and s: "0 < pm_sending (ph_monitors h ! k)"
  shows "pva_hub_inv (send_id k h)"
proof (rule pva_hub_invI)
  fix m
  assume "m \<in> set (ph_monitors (send_id k h))"
  then have "m \<in> set (ph_monitors h) \<or>
      m = (ph_monitors h ! k)\<lparr>pm_sending := pm_sending (ph_monitors h ! k) - 1\<rparr>"
    by (auto simp: send_id_def on_monitor_def dest: subsetD [OF set_update_subset_insert] split: if_splits)
  with pva_hub_invD(1) [OF inv nth_mem [OF k]] pva_hub_invD(1) [OF inv] show "mon_ok m"
    by (auto simp: mon_ok_def)
next
  fix i
  assume "i \<in> set (ph_ready (send_id k h)) \<union> set (concat (ph_hands (send_id k h)))"
  then have "i = nth_id k \<or> i \<in> set (ph_ready h) \<union> set (concat (ph_hands h))"
    by (auto simp: send_id_def on_monitor_def split: if_splits)
  moreover have "length (ph_monitors (send_id k h)) = length (ph_monitors h)"
    by (simp add: send_id_def on_monitor_def)
  ultimately show "\<exists>j < length (ph_monitors (send_id k h)). i = nth_id j"
    using pva_hub_invD(4) [OF inv, of i] k by auto
next
  fix j c
  assume a: "ph_open (send_id k h)" "length (ph_monitors (send_id k h)) \<le> 2 ^ 32"
    "ph_subs (send_id k h) (nth_id j) = Some (j, c)"
  then have o: "ph_open h" "length (ph_monitors h) \<le> 2 ^ 32" "ph_subs h (nth_id j) = Some (j, c)"
    by (auto simp: send_id_def on_monitor_def split: if_splits)
  then have "wake_ok h j" "j < length (ph_monitors h)"
    using pva_hub_invD(3,5) [OF inv] by blast+
  then show "wake_ok (send_id k h) j"
    using k s o
    by (cases "j = k") (auto simp: wake_ok_def tokens_def send_id_def on_monitor_def Let_def nth_id_inject)
qed (use pva_hub_invD [OF inv] k in \<open>auto simp: send_id_def on_monitor_def split: if_splits\<close>)

lemma inv_pull:
  assumes inv: "pva_hub_inv h" and p: "pull_ids h = Some (is, h')"
  shows "pva_hub_inv h'"
proof (rule pva_hub_invI)
  from p have h': "h' = h\<lparr>ph_ready := [], ph_hands := ph_hands h @ [ph_ready h]\<rparr>"
    by (auto simp: pull_ids_def split: if_splits)
  show "\<exists>k < length (ph_monitors h'). i = nth_id k"
    if "i \<in> set (ph_ready h') \<union> set (concat (ph_hands h'))" for i
    using that pva_hub_invD(4) [OF inv, of i] by (auto simp: h')
  fix k c
  assume "ph_open h'" "length (ph_monitors h') \<le> 2 ^ 32" "ph_subs h' (nth_id k) = Some (k, c)"
  with pva_hub_invD(5) [OF inv] have "wake_ok h k" by (simp add: h')
  moreover have "tokens h' k = tokens h k" by (simp add: tokens_def h')
  ultimately show "wake_ok h' k" by (simp add: wake_ok_def h')
qed (use pva_hub_invD [OF inv] p in \<open>auto simp: pull_ids_def split: if_splits\<close>)

lemma take_queue_twice: "snd (take_queue (snd (take_queue m))) = snd (take_queue m)"
  by (simp add: take_queue_def)

definition after_take :: "nat \<Rightarrow> pva_hub \<Rightarrow> pva_hub" where
  "after_take k h = on_monitor k (\<lambda>m. snd (take_queue m)) h"

lemma take_ids_Cons:
  "ph_subs h i = None \<Longrightarrow> take_ids (i # is) h = take_ids is h"
  "ph_subs h i = Some (k, c) \<Longrightarrow> take_ids is (after_take k h) = (taken, h') \<Longrightarrow>
     take_ids (i # is) h = ((i, pm_items (ph_monitors h ! k)) # taken, h')"
  by (simp_all add: take_queue_def after_take_def on_monitor_def)

lemma after_take_simps [simp]:
  "ph_subs (after_take k h) = ph_subs h" "ph_ready (after_take k h) = ph_ready h"
  "ph_open (after_take k h) = ph_open h" "ph_hands (after_take k h) = ph_hands h"
  "ph_next_id (after_take k h) = ph_next_id h"
  "length (ph_monitors (after_take k h)) = length (ph_monitors h)"
  "j < length (ph_monitors h) \<Longrightarrow> ph_monitors (after_take k h) ! j =
     (if j = k then snd (take_queue (ph_monitors h ! j)) else ph_monitors h ! j)"
  by (simp_all add: after_take_def on_monitor_def)

text \<open>What a batch of ids does to the hub: the state, the monitors, the items.\<close>

lemma take_ids_effect:
  assumes "take_ids is h = (taken, h')"
    and "\<And>i k c. ph_subs h i = Some (k, c) \<Longrightarrow> k < length (ph_monitors h)"
  shows "ph_subs h' = ph_subs h \<and> ph_ready h' = ph_ready h \<and> ph_open h' = ph_open h \<and>
     ph_hands h' = ph_hands h \<and> ph_next_id h' = ph_next_id h \<and>
     length (ph_monitors h') = length (ph_monitors h) \<and>
     (\<forall>k < length (ph_monitors h). ph_monitors h' ! k =
       (if \<exists>i \<in> set is. \<exists>c. ph_subs h i = Some (k, c) then snd (take_queue (ph_monitors h ! k))
        else ph_monitors h ! k))"
  using assms
proof (induction "is" arbitrary: h taken h')
  case (Cons i "is")
  show ?case
  proof (cases "ph_subs h i")
    case None
    with Cons.prems(1) have "take_ids is h = (taken, h')" by (simp add: take_ids_Cons)
    from Cons.IH [OF this Cons.prems(2)] None show ?thesis by simp
  next
    case (Some jc)
    obtain j c where jc: "ph_subs h i = Some (j, c)" using Some by (cases jc) auto
    obtain taken' h'' where rec: "take_ids is (after_take j h) = (taken', h'')"
      by (cases "take_ids is (after_take j h)")
    with Cons.prems(1) take_ids_Cons(2) [OF jc rec] have "h'' = h'" by simp
    with Cons.IH [OF rec] Cons.prems(2)
    have IH: "ph_subs h' = ph_subs h \<and> ph_ready h' = ph_ready h \<and> ph_open h' = ph_open h \<and>
       ph_hands h' = ph_hands h \<and> ph_next_id h' = ph_next_id h \<and>
       length (ph_monitors h') = length (ph_monitors h) \<and>
       (\<forall>k < length (ph_monitors h). ph_monitors h' ! k =
         (if \<exists>i \<in> set is. \<exists>c. ph_subs h i = Some (k, c) then snd (take_queue (ph_monitors (after_take j h) ! k))
          else ph_monitors (after_take j h) ! k))"
      by simp
    have "ph_monitors h' ! k =
       (if \<exists>i \<in> set (i # is). \<exists>c. ph_subs h i = Some (k, c) then snd (take_queue (ph_monitors h ! k))
        else ph_monitors h ! k)" if k: "k < length (ph_monitors h)" for k
    proof (cases "k = j")
      case True
      with IH k jc show ?thesis by (auto simp: take_queue_twice)
    next
      case False
      with IH k jc show ?thesis by auto
    qed
    with IH show ?thesis by blast
  qed
qed simp

lemma concat_remove_at:
  "n < length xss \<Longrightarrow> count_list (concat xss) x = count_list (xss ! n) x + count_list (concat (remove_at n xss)) x"
  by (subst (1) id_take_nth_drop [of n xss]) (simp_all add: remove_at_def)

lemma inv_take:
  assumes inv: "pva_hub_inv h" and n: "n < length (ph_hands h)"
    and t: "take_ids (ph_hands h ! n) (h\<lparr>ph_hands := remove_at n (ph_hands h)\<rparr>) = (taken, h')"
  shows "pva_hub_inv h'"
proof -
  let ?is = "ph_hands h ! n"
  have e: "ph_subs h' = ph_subs h" "ph_ready h' = ph_ready h" "ph_open h' = ph_open h"
     "ph_hands h' = remove_at n (ph_hands h)" "ph_next_id h' = ph_next_id h"
     "length (ph_monitors h') = length (ph_monitors h)"
    and m: "\<And>k. k < length (ph_monitors h) \<Longrightarrow> ph_monitors h' ! k =
       (if \<exists>i \<in> set ?is. \<exists>c. ph_subs h i = Some (k, c) then snd (take_queue (ph_monitors h ! k))
        else ph_monitors h ! k)"
    using take_ids_effect [OF t] pva_hub_invD(3) [OF inv] by auto
  show ?thesis
  proof (rule pva_hub_invI)
    fix x
    assume "x \<in> set (ph_monitors h')"
    then obtain k where "k < length (ph_monitors h)" "x = ph_monitors h' ! k"
      by (auto simp: in_set_conv_nth e)
    with m pva_hub_invD(1) [OF inv, of "ph_monitors h ! k"] show "mon_ok x"
      by (auto simp: mon_ok_take)
  next
    fix i
    assume i: "i \<in> set (ph_ready h') \<union> set (concat (ph_hands h'))"
    have "set (remove_at n (ph_hands h)) \<subseteq> set (ph_hands h)"
      by (auto simp: remove_at_def dest: in_set_takeD in_set_dropD)
    with i have "i \<in> set (ph_ready h) \<union> set (concat (ph_hands h))" by (auto simp: e)
    with pva_hub_invD(4) [OF inv] show "\<exists>k < length (ph_monitors h'). i = nth_id k" by (simp add: e)
  next
    fix k c
    assume a: "ph_open h'" "length (ph_monitors h') \<le> 2 ^ 32" "ph_subs h' (nth_id k) = Some (k, c)"
    with e have w: "wake_ok h k" and s: "ph_subs h (nth_id k) = Some (k, c)"
      using pva_hub_invD(5) [OF inv] by auto
    then have k: "k < length (ph_monitors h)" using pva_hub_invD(3) [OF inv] by blast
    have own: "(\<exists>i \<in> set ?is. \<exists>c. ph_subs h i = Some (k, c)) \<longleftrightarrow> nth_id k \<in> set ?is"
      using s pva_hub_invD(3) [OF inv] by blast
    have count: "count_list (concat (ph_hands h)) (nth_id k) =
        count_list ?is (nth_id k) + count_list (concat (ph_hands h')) (nth_id k)"
      unfolding e by (rule concat_remove_at [OF n])
    show "wake_ok h' k"
    proof (cases "nth_id k \<in> set ?is")
      case True
      then have "0 < count_list ?is (nth_id k)" by (metis count_list_0_iff gr0I)
      with True w m [OF k] own count show ?thesis
        by (auto simp: wake_ok_def tokens_def Let_def e take_queue_def split: if_splits)
    next
      case False
      then have "count_list ?is (nth_id k) = 0" by simp
      with False w m [OF k] own count show ?thesis
        by (simp add: wake_ok_def tokens_def Let_def e)
    qed
  qed (use pva_hub_invD(2,3) [OF inv] in \<open>auto simp: e\<close>)
qed

lemma inv_push:
  assumes "pva_hub_inv h" and "k < length (ph_monitors h)" and "\<not> is_value_update u"
  shows "pva_hub_inv (on_monitor k (push u) h)"
proof (rule inv_on_monitor [OF assms(1,2)])
  have p: "push u = (\<lambda>m. signal (m\<lparr>pm_items := pm_items m @ [u], pm_pushed := pm_pushed m @ [u]\<rparr>))"
    by (simp add: push_def fun_eq_iff)
  show "wake_ok h k \<Longrightarrow> wake_ok (on_monitor k (push u) h) k"
    unfolding p using assms(2) by (intro wake_ok_signal) simp_all
qed (simp add: mon_ok_push assms(3))

lemma inv_conn: "pva_hub_inv h \<Longrightarrow> k < length (ph_monitors h) \<Longrightarrow> pva_hub_inv (on_monitor k (on_conn ev) h)"
  unfolding on_conn_def by (cases ev) (simp_all add: inv_push)

lemma inv_push_value:
  assumes "pva_hub_inv h" and "k < length (ph_monitors h)"
  shows "pva_hub_inv (on_monitor k (push_value d v c) h)"
proof (rule inv_on_monitor [OF assms])
  have p: "push_value d v c = (\<lambda>m. signal (m\<lparr>pm_items := squash (pm_limit m) d v c (pm_items m),
       pm_pushed := pm_pushed m @ [UValue d v c]\<rparr>))"
    by (simp add: push_value_def fun_eq_iff)
  show "wake_ok h k \<Longrightarrow> wake_ok (on_monitor k (push_value d v c) h) k"
    unfolding p using assms(2) by (intro wake_ok_signal) simp_all
qed (simp add: mon_ok_push_value)

lemma pva_hub_step_inv: "pva_hub_step h h' \<Longrightarrow> pva_hub_inv h \<Longrightarrow> pva_hub_inv h'"
proof (induction rule: pva_hub_step.induct)
  case (step_open_failed k h)
  then show ?case
    unfolding subscribe_failed_def by (intro inv_subs_shrink) (auto split: if_splits)
next
  case (step_close_subscription i h h' r)
  then have "h' = h\<lparr>ph_subs := (ph_subs h)(i := None)\<rparr>" by (simp add: pva_close_subscription_def)
  with step_close_subscription show ?case by (auto intro!: inv_subs_shrink split: if_splits)
next
  case (step_close_drop h)
  then show ?case unfolding close_drop_def by (rule inv_subs_shrink) simp
next
  case (step_close_ready h)
  then show ?case by (auto simp: pva_hub_inv_def close_ready_def)
qed (blast intro: inv_subscribe_begin inv_subscribe_end inv_conn inv_push_value inv_send inv_pull inv_take)+

lemma pva_hub_reachable_inv: "pva_hub_reachable h \<Longrightarrow> pva_hub_inv h"
  by (induction rule: rtranclp_induct) (auto intro: pva_hub_inv_new pva_hub_step_inv)

section \<open>Properties\<close>

text \<open>
  C16. No wakeup is lost and none is doubled: in every reachable open hub with at most \<open>2 ^ 32\<close>
  monitors, a subscribed monitor whose open has finished and that has something queued has its id
  on its way to a take, exactly once: in the hand of the thread about to send it, in the ready
  channel, or in a batch of ids already pulled.
\<close>

theorem pva_hub_no_lost_wakeup:
  assumes "pva_hub_reachable h" and "ph_open h" and "length (ph_monitors h) \<le> 2 ^ 32"
    and "ph_subs h i = Some (k, c)" and "pm_items (ph_monitors h ! k) \<noteq> []"
    and "\<not> pm_opening (ph_monitors h ! k)"
  shows "pm_sending (ph_monitors h ! k) + count_list (ph_ready h) i + count_list (concat (ph_hands h)) i = 1"
proof -
  have inv: "pva_hub_inv h" using assms(1) by (rule pva_hub_reachable_inv)
  with assms(4) have i: "i = nth_id k" using pva_hub_invD(3) by blast
  with assms(2-4) inv have "wake_ok h k" using pva_hub_invD(5) by blast
  with assms(5,6) i show ?thesis by (simp add: wake_ok_def tokens_def Let_def)
qed

text \<open>A hub with one monitor, opened, with its first item queued and signalled.\<close>

definition sample_pva_hub :: pva_hub where
  "sample_pva_hub = send_id 0 (subscribe_end 1 0 (fst (subscribe_begin 4 pva_hub_new)))"

lemma sample_pva_hub_reachable: "pva_hub_reachable sample_pva_hub"
proof -
  let ?a = "fst (subscribe_begin 4 pva_hub_new)"
  have "pva_hub_step pva_hub_new ?a"
    by (rule step_subscribe [where limit = 4 and i = 1]) (simp add: subscribe_begin_def pva_hub_new_def)
  moreover have "pva_hub_step ?a (subscribe_end 1 0 ?a)"
    using step_opened [of 0 ?a] by (simp add: subscribe_begin_def pva_hub_new_def new_monitor_def)
  moreover have "pva_hub_step (subscribe_end 1 0 ?a) sample_pva_hub"
    unfolding sample_pva_hub_def
    by (rule step_send)
      (simp_all add: subscribe_begin_def subscribe_end_def pva_hub_new_def new_monitor_def on_monitor_def signal_def)
  ultimately show ?thesis
    by (metis rtranclp.rtrancl_into_rtrancl rtranclp.rtrancl_refl)
qed

lemmas sample_pva_hub_eval = sample_pva_hub_def send_id_def subscribe_begin_def subscribe_end_def
  pva_hub_new_def new_monitor_def on_monitor_def signal_def

theorem pva_hub_no_lost_wakeup_witness:
  "pm_sending (ph_monitors sample_pva_hub ! 0) + count_list (ph_ready sample_pva_hub) 1 +
     count_list (concat (ph_hands sample_pva_hub)) 1 = 1"
  by (rule pva_hub_no_lost_wakeup [OF sample_pva_hub_reachable, where c = True])
    (simp_all add: sample_pva_hub_eval)

text \<open>
  C22. Squashing is faithful: over the life of a monitor, what was taken followed by what is queued
  represents everything pushed, in order, where a run of values may be represented by its newest
  value with the union of the changed sets; connection and end items are neither dropped nor
  merged nor reordered.
\<close>

theorem pva_queue_squash_faithful:
  assumes "pva_hub_reachable h" and "m \<in> set (ph_monitors h)"
  shows "(\<exists>gs. concat gs = pm_pushed m \<and> map merge_group gs = pm_taken m @ pm_items m \<and>
      (\<forall>g \<in> set gs. g \<noteq> [] \<and> (length g = 1 \<or> (\<forall>u \<in> set g. is_value_update u)))) \<and>
    filter (Not \<circ> is_value_update) (pm_taken m @ pm_items m) = filter (Not \<circ> is_value_update) (pm_pushed m)"
proof -
  have c: "compressed (pm_pushed m) (pm_taken m @ pm_items m)"
    using pva_hub_invD(1) [OF pva_hub_reachable_inv [OF assms(1)] assms(2)] by (simp add: mon_ok_def)
  show ?thesis
    using c compressed_lifecycle [OF c]
    by (simp only: compressed_def group_ok_def)
qed

theorem pva_queue_squash_faithful_witness:
  "filter (Not \<circ> is_value_update) (pm_taken (ph_monitors sample_pva_hub ! 0) @ pm_items (ph_monitors sample_pva_hub ! 0)) =
     [UDisconnected]"
  using pva_queue_squash_faithful [OF sample_pva_hub_reachable, of "ph_monitors sample_pva_hub ! 0"]
  by (simp add: sample_pva_hub_eval)

text \<open>
  The queue of a monitor holds at most its limit of values, and one more for every connection
  or end item queued with them: a value is appended beyond the limit only behind such an item.
\<close>

theorem pva_queue_values_bounded:
  assumes "pva_hub_reachable h" and "m \<in> set (ph_monitors h)"
  shows "length (filter is_value_update (pm_items m)) \<le>
    max (pm_limit m) 1 + length (filter (Not \<circ> is_value_update) (pm_items m))"
  using pva_hub_invD(1) [OF pva_hub_reachable_inv [OF assms(1)] assms(2)]
  by (auto simp: mon_ok_def values_bounded_def value_count_def lifecycle_count_def split: if_splits)

theorem pva_queue_values_bounded_witness:
  "length (filter is_value_update (pm_items (ph_monitors sample_pva_hub ! 0))) \<le> 5"
  using pva_queue_values_bounded [OF sample_pva_hub_reachable, of "ph_monitors sample_pva_hub ! 0"]
  by (simp add: sample_pva_hub_eval)

text \<open>
  The limit is not a bound on the queue: lifecycle items are never squashed, and each of them lets
  one more value in. A monitor that reconnects \<open>n\<close> times between two takes queues \<open>3 n\<close> items.
\<close>

fun reconnects :: "nat \<Rightarrow> monitor \<Rightarrow> monitor" where
  "reconnects 0 m = m"
| "reconnects (Suc n) m =
     push_value (DScalar StInt) (FScalar (SvInt 0)) {0}
       (push (UConnected \<lparr>sa_ip = ip_loopback, sa_port = 5075, sa_scope = 0\<rparr>) (push UDisconnected (reconnects n m)))"

lemma queue_not_bounded_by_limit:
  "pm_items m = [] \<Longrightarrow> length (pm_items (reconnects n m)) = 3 * n \<and>
     length (filter is_value_update (pm_items (reconnects n m))) = n"
proof (induction n)
  case (Suc n)
  then show ?case by (simp add: push_value_def push_def squash_def Let_def)
qed simp

text \<open>
  A batch may be empty: what was queued while \<open>subscribe\<close> was opening is signalled and taken, and
  the signal at the end of \<open>subscribe\<close> then announces an empty queue.
\<close>

definition opening_hub :: pva_hub where
  "opening_hub = send_id 0 (on_monitor 0 (push UDisconnected) (fst (subscribe_begin 4 pva_hub_new)))"

definition pull_and_take :: "pva_hub \<Rightarrow> (u32 \<times> u8 \<times> pva_payload) list \<times> pva_hub" where
  "pull_and_take h =
     (case pull_ids h of
        None \<Rightarrow> ([], h)
      | Some (ids, h') \<Rightarrow>
          (case take_ids ids (h'\<lparr>ph_hands := butlast (ph_hands h')\<rparr>) of
             (taken, h'') \<Rightarrow> (batch_items taken, h'')))"

lemma opening_hub_eval:
  "opening_hub = \<lparr>ph_monitors = [\<lparr>pm_items = [UDisconnected, UDisconnected], pm_limit = 4, pm_signalled = True,
      pm_sending = 0, pm_opening = True, pm_pushed = [UDisconnected, UDisconnected], pm_taken = []\<rparr>],
    ph_subs = [1 \<mapsto> (0, False)], ph_ready = [1], ph_open = True, ph_hands = [], ph_next_id = 2\<rparr>"
  by (simp add: opening_hub_def subscribe_begin_def pva_hub_new_def new_monitor_def send_id_def
      on_monitor_def push_def signal_def)

lemma batch_may_be_empty:
  "length (fst (pull_and_take opening_hub)) = 2 \<and>
   pull_ids (send_id 0 (subscribe_end 1 0 (snd (pull_and_take opening_hub)))) \<noteq> None \<and>
   fst (pull_and_take (send_id 0 (subscribe_end 1 0 (snd (pull_and_take opening_hub))))) = []"
  by (simp add: opening_hub_eval pull_and_take_def pull_ids_def take_queue_def batch_items_def
      subscribe_end_def send_id_def on_monitor_def signal_def)

text \<open>The frames of a monitor, one after the other: what is pushed.\<close>

fun decode_all ::
  "('b \<Rightarrow> 'o \<Rightarrow> (nat set \<times> 'b) option) \<Rightarrow> (field_desc \<Rightarrow> nat set \<Rightarrow> 'b \<Rightarrow> 'o \<Rightarrow> pv_field option) \<Rightarrow>
     (field_desc \<Rightarrow> nat set \<Rightarrow> pv_field \<Rightarrow> pv_field \<Rightarrow> pv_field) \<Rightarrow>
     (field_desc \<times> 'b \<times> 'o) list \<Rightarrow> decoder \<Rightarrow> (field_desc \<times> pv_field \<times> nat set) option list"
where
  "decode_all bd fd fill [] s = []"
| "decode_all bd fd fill ((desc, body, order) # fs) s =
     (case decode bd fd fill desc body order s of (s', r) \<Rightarrow> r # decode_all bd fd fill fs s')"

definition decoder_default :: decoder where
  "decoder_default = \<lparr>dec_desc = None, dec_prior = None\<rparr>"

definition decoder_ok :: "decoder \<Rightarrow> bool" where
  "decoder_ok s \<longleftrightarrow>
     (\<forall>p. dec_prior s = Some p \<longrightarrow> (\<exists>d. dec_desc s = Some d \<and> conforms d p))"

lemma decode_ok:
  assumes "decode bd fd fill desc body order s = (s', r)" and "decoder_ok s"
    and "\<And>d c b k v. fd d c b k = Some v \<Longrightarrow> conforms d v"
    and "\<And>d c v p. conforms d v \<Longrightarrow> conforms d p \<Longrightarrow> conforms d (fill d c v p)"
  shows "decoder_ok s' \<and> (\<forall>d v c. r = Some (d, v, c) \<longrightarrow> d = desc \<and> conforms d v)"
  using assms(1,2)
  by (auto simp: decode_def decoder_ok_def Let_def assms(3,4) split: option.splits if_splits)

text \<open>
  A partial update is never completed from a value of another type: if decoding a frame yields
  a value of its descriptor and completing from a value of the same descriptor keeps that, every
  value a monitor pushes fits the descriptor it is pushed with, however the type of the channel
  changes from frame to frame and whatever frames fail to decode.
\<close>

theorem decoded_values_fit_their_type:
  assumes "\<And>d c b k v. fd d c b k = Some v \<Longrightarrow> conforms d v"
    and "\<And>d c v p. conforms d v \<Longrightarrow> conforms d p \<Longrightarrow> conforms d (fill d c v p)"
    and "Some (d, v, c) \<in> set (decode_all bd fd fill frames decoder_default)"
  shows "conforms d v"
proof -
  have "decoder_ok s \<Longrightarrow> Some (d, v, c) \<in> set (decode_all bd fd fill frames s) \<Longrightarrow> conforms d v" for s
  proof (induction frames arbitrary: s)
    case (Cons f fs)
    obtain desc body order where f: "f = (desc, body, order)" by (cases f) auto
    obtain s' r where d: "decode bd fd fill desc body order s = (s', r)"
      by (cases "decode bd fd fill desc body order s")
    have ok: "decoder_ok s' \<and> (\<forall>d v c. r = Some (d, v, c) \<longrightarrow> d = desc \<and> conforms d v)"
      by (rule decode_ok [OF d Cons.prems(1)]) (fact assms(1), fact assms(2))
    with Cons.IH [of s'] Cons.prems(2) d f show ?case by auto
  qed simp
  moreover have "decoder_ok decoder_default" by (simp add: decoder_ok_def decoder_default_def)
  ultimately show ?thesis using assms(3) by blast
qed

text \<open>An instance: every frame carries the default value, completing keeps what is decoded.\<close>

theorem decoded_values_fit_their_type_witness: "conforms (DScalar StInt) (FScalar (SvInt 0))"
proof -
  let ?bd = "\<lambda>(_ :: unit) (_ :: unit). Some ({0 :: nat}, ())"
  let ?fd = "\<lambda>d (_ :: nat set) (_ :: unit) (_ :: unit). Some (ref_default d)"
  have "Some (DScalar StInt, FScalar (SvInt 0), {0}) \<in>
      set (decode_all ?bd ?fd (\<lambda>_ _ v _. v) [(DScalar StInt, (), ())] decoder_default)"
    by (simp add: decode_def decoder_default_def Let_def)
  from decoded_values_fit_their_type [OF _ _ this] show ?thesis
    using ref_default_conforms by auto
qed

end
