(* ===== verification/PvOverlay.thy ===== *)
theory PvOverlay
  imports PvConform PvMarks
begin

text \<open>
  Partial updates of a pvData value. A put, a post and a monitor update each are a value with the
  set of its changed bits: a marked leaf, or one below a marked structure, is taken from the value,
  every other leaf from what was there before. The library does the merging
  (\<open>fill_unmarked_from_prior\<close>, \<open>SharedPV::post_delta\<close>); the locale \<open>overlaying\<close> states what
  \<open>src/src/pva/server.rs\<close> and \<open>src/src/pva/hub.rs\<close> rely on, and \<open>overlay\<close> is a function that does it.
  Streams of partial updates, and what merging neighbours of a stream preserves, are stated on the
  leaves of a value.
\<close>

section \<open>The leaves of a value\<close>

type_synonym leaf_map = "string list \<Rightarrow> pv_field option"

definition leaf_of :: "field_desc \<Rightarrow> string list \<Rightarrow> bool" where
  "leaf_of d ss = (case walk desc_child d ss of None \<Rightarrow> False | Some c \<Rightarrow> \<not> is_structure c)"

definition leaves :: "field_desc \<Rightarrow> pv_field \<Rightarrow> leaf_map" where
  "leaves d f ss = (if leaf_of d ss then walk field_child f ss else None)"

definition cover :: "(field_desc \<Rightarrow> nat) \<Rightarrow> field_desc \<Rightarrow> nat set \<Rightarrow> string list \<Rightarrow> bool" where
  "cover tb d m ss \<longleftrightarrow> leaf_of d ss \<and> covered tb d 0 m ss"

lemma leaf_of_iff: "leaf_of d ss \<longleftrightarrow> (\<exists>c. walk desc_child d ss = Some c \<and> \<not> is_structure c)"
  by (simp add: leaf_of_def split: option.splits)

lemma cover_Un: "cover tb d (m \<union> n) ss \<longleftrightarrow> cover tb d m ss \<or> cover tb d n ss"
  by (auto simp: cover_def covered_def)

lemma leaf_prefix: "leaf_of d ss \<Longrightarrow> walk desc_child d ts \<noteq> None \<Longrightarrow> prefix ss ts \<Longrightarrow> ss = ts"
  by (auto simp: leaf_of_iff prefix_def walk_append walk_leaf)

section \<open>Merging\<close>

locale overlaying =
  fixes tb :: "field_desc \<Rightarrow> nat"
    and fill :: "field_desc \<Rightarrow> nat set \<Rightarrow> pv_field \<Rightarrow> pv_field \<Rightarrow> pv_field"
  assumes fill_conforms: "conforms d v \<Longrightarrow> conforms d p \<Longrightarrow> conforms d (fill d m v p)"
    and fill_leaf: "wf_desc d \<Longrightarrow> conforms d v \<Longrightarrow> conforms d p \<Longrightarrow> leaf_of d ss \<Longrightarrow>
      walk field_child (fill d m v p) ss = walk field_child (if covered tb d 0 m ss then v else p) ss"
begin

lemma fill_leaves:
  "wf_desc d \<Longrightarrow> conforms d v \<Longrightarrow> conforms d p \<Longrightarrow>
     leaves d (fill d m v p) = (\<lambda>ss. if cover tb d m ss then leaves d v ss else leaves d p ss)"
  by (simp add: fun_eq_iff leaves_def cover_def fill_leaf)

end

text \<open>Merging member by member, numbering the bits as \<open>child_bits\<close> does.\<close>

fun overlay :: "(field_desc \<Rightarrow> nat) \<Rightarrow> nat set \<Rightarrow> field_desc \<Rightarrow> nat \<Rightarrow> pv_field \<Rightarrow> pv_field \<Rightarrow> pv_field"
  and overlay_members :: "(field_desc \<Rightarrow> nat) \<Rightarrow> nat set \<Rightarrow> (string \<times> field_desc) list \<Rightarrow> nat \<Rightarrow>
    (string \<times> pv_field) list \<Rightarrow> (string \<times> pv_field) list \<Rightarrow> (string \<times> pv_field) list"
where
  "overlay tb m (DStructure sid fs) b (FStructure i vs) (FStructure j ps) =
     (if b \<in> m then FStructure i vs else FStructure j (overlay_members tb m fs (Suc b) vs ps))"
| "overlay tb m d b v p = (if b \<in> m then v else p)"
| "overlay_members tb m ((n, d) # fs) b ((k, v) # vs) ((l, p) # ps) =
     (l, overlay tb m d b v p) # overlay_members tb m fs (b + tb d) vs ps"
| "overlay_members tb m fs b vs ps = []"

lemma overlay_leaf: "\<not> is_structure d \<Longrightarrow> overlay tb m d b v p = (if b \<in> m then v else p)"
  by (cases d) simp_all

lemma overlay_conforms: "conforms d v \<Longrightarrow> conforms d p \<Longrightarrow> conforms d (overlay tb m d b v p)"
  and overlay_members_ok: "members_ok conforms fs vs \<Longrightarrow> members_ok conforms fs ps \<Longrightarrow>
    members_ok conforms fs (overlay_members tb m fs b vs ps)"
proof (induction tb m d b v p and tb m fs b vs ps rule: overlay_overlay_members.induct)
  case (1 tb m sid fs b i vs j ps)
  then show ?case by (simp add: conforms_structure)
qed (simp_all add: members_ok_def list_all2_Cons1 list_all2_Cons2 list_all2_Nil)

lemma overlay_members_of:
  "members_ok conforms fs vs \<Longrightarrow> members_ok conforms fs ps \<Longrightarrow> member_bit tb b fs s = Some (c, x) \<Longrightarrow>
     \<exists>v p. map_of vs s = Some v \<and> map_of ps s = Some p \<and> conforms c v \<and> conforms c p \<and>
       map_of (overlay_members tb m fs b vs ps) s = Some (overlay tb m c x v p)"
proof (induction fs arbitrary: b vs ps)
  case (Cons nd fs)
  obtain n d where nd: "nd = (n, d)" by (cases nd)
  from Cons.prems(1,2) nd obtain v vs' p ps' where vs: "vs = (n, v) # vs'" "ps = (n, p) # ps'"
    "conforms d v" "conforms d p" "members_ok conforms fs vs'" "members_ok conforms fs ps'"
    by (auto simp: members_ok_def list_all2_Cons1)
  with Cons nd show ?case by (auto split: if_splits)
qed simp

lemma overlay_walk:
  "wf_desc d \<Longrightarrow> conforms d v \<Longrightarrow> conforms d p \<Longrightarrow> walk desc_child d ss = Some c \<Longrightarrow> \<not> is_structure c \<Longrightarrow>
     walk field_child (overlay tb m d b v p) ss = walk field_child (if covered tb d b m ss then v else p) ss"
proof (induction ss arbitrary: d b v p)
  case Nil
  then show ?case by (simp add: overlay_leaf)
next
  case (Cons s ss)
  then obtain sid fs e where d: "d = DStructure sid fs" "map_of fs s = Some e" "walk desc_child e ss = Some c"
    by (cases d) (auto simp: desc_child_map_of simp del: desc_child.simps(1) split: option.splits)
  from Cons.prems(2,3) d(1) obtain i vs j ps where v: "v = FStructure i vs" "p = FStructure j ps"
    "members_ok conforms fs vs" "members_ok conforms fs ps"
    by (auto simp: conforms_structure)
  from member_bit_exists [OF d(2)] obtain x where x: "member_bit tb (Suc b) fs s = Some (e, x)" by blast
  from overlay_members_of [OF v(3,4) x] obtain v' p' where m: "map_of vs s = Some v'" "map_of ps s = Some p'"
    "conforms e v'" "conforms e p'" "map_of (overlay_members tb m fs (Suc b) vs ps) s = Some (overlay tb m e x v' p')"
    by blast
  have "(s, e) \<in> set fs" using d(2) by (rule map_of_SomeD)
  with Cons.prems(1) d(1) have "wf_desc e" by (auto simp: list_all_iff)
  from Cons.IH [OF this m(3,4) d(3) Cons.prems(5), of x] v(1,2) m(1,2,5) show ?case
    by (simp add: d(1) covered_Cons [OF x])
qed

definition ref_fill :: "field_desc \<Rightarrow> nat set \<Rightarrow> pv_field \<Rightarrow> pv_field \<Rightarrow> pv_field" where
  "ref_fill d m v p = overlay ref_bits m d 0 v p"

interpretation ref: overlaying ref_bits ref_fill
  by unfold_locales (auto simp: ref_fill_def leaf_of_iff overlay_conforms overlay_walk)

section \<open>Streams of updates\<close>

text \<open>
  An update on the leaves: the values, and which of them it says are changed. A stream is tracked
  from a value when no update changes a leaf it does not name.
\<close>

type_synonym leaf_update = "leaf_map \<times> (string list \<Rightarrow> bool)"

definition apply_update :: "leaf_update \<Rightarrow> leaf_map \<Rightarrow> leaf_map" where
  "apply_update u L = (\<lambda>ss. if snd u ss then fst u ss else L ss)"

definition replay :: "leaf_map \<Rightarrow> leaf_update list \<Rightarrow> leaf_map" where
  "replay L us = foldl (\<lambda>L u. apply_update u L) L us"

fun tracked :: "leaf_map \<Rightarrow> leaf_update list \<Rightarrow> bool" where
  "tracked L [] \<longleftrightarrow> True"
| "tracked L (u # us) \<longleftrightarrow> apply_update u L = fst u \<and> tracked (fst u) us"

definition stream_end :: "leaf_map \<Rightarrow> leaf_update list \<Rightarrow> leaf_map" where
  "stream_end L us = (if us = [] then L else fst (last us))"

lemma stream_end_simps [simp]:
  "stream_end L [] = L" "stream_end L (u # us) = stream_end (fst u) us" "stream_end L (us @ [u]) = fst u"
  by (simp_all add: stream_end_def)

lemma stream_end_append [simp]: "stream_end L (us @ vs) = stream_end (stream_end L us) vs"
  by (induction us arbitrary: L) simp_all

lemma tracked_append [simp]: "tracked L (us @ vs) \<longleftrightarrow> tracked L us \<and> tracked (stream_end L us) vs"
  by (induction us arbitrary: L) simp_all

text \<open>Applying only what an update names, one update after the other, ends at the newest value.\<close>

lemma tracked_replay: "tracked L us \<Longrightarrow> replay L us = stream_end L us"
  by (induction us arbitrary: L) (simp_all add: replay_def)

lemma tracked_unnamed: "tracked L us \<Longrightarrow> \<forall>u \<in> set us. \<not> snd u ss \<Longrightarrow> stream_end L us ss = L ss"
proof (induction us arbitrary: L)
  case (Cons u us)
  then have "fst u ss = L ss" by (auto simp: apply_update_def fun_eq_iff dest: spec [of _ ss])
  with Cons show ?case by simp
qed simp

lemma tracked_widen:
  "tracked L us \<Longrightarrow> list_all2 (\<lambda>u w. fst w = fst u \<and> (\<forall>ss. snd u ss \<longrightarrow> snd w ss)) us ws \<Longrightarrow> tracked L ws"
proof (induction us arbitrary: L ws)
  case (Cons u us)
  then obtain w ws' where w: "ws = w # ws'" "fst w = fst u" "\<forall>ss. snd u ss \<longrightarrow> snd w ss"
    by (auto simp: list_all2_Cons1)
  from Cons.prems(1) have "\<And>ss. \<not> snd u ss \<Longrightarrow> L ss = fst u ss"
    by (auto simp: apply_update_def dest: fun_cong split: if_splits)
  with w(2,3) have "apply_update w L = fst w" by (auto simp: apply_update_def fun_eq_iff)
  with w Cons.IH [of "fst u" ws'] Cons.prems show ?case by auto
qed simp

text \<open>
  A slow reader is given fewer updates: neighbours are merged into the newest value with the union
  of what they name.
\<close>

definition merged :: "leaf_update list \<Rightarrow> leaf_update" where
  "merged g = (fst (last g), \<lambda>ss. \<exists>u \<in> set g. snd u ss)"

definition coarser :: "leaf_update list \<Rightarrow> leaf_update list \<Rightarrow> bool" where
  "coarser us vs \<longleftrightarrow> (\<exists>gs. concat gs = us \<and> map merged gs = vs \<and> [] \<notin> set gs)"

lemma merged_single [simp]: "merged [u] = u"
  by (simp add: merged_def)

lemma coarser_refl: "coarser us us"
  unfolding coarser_def by (intro exI [of _ "map (\<lambda>u. [u]) us"]) (auto simp: o_def)

lemma apply_merged: "tracked L g \<Longrightarrow> g \<noteq> [] \<Longrightarrow> apply_update (merged g) L = stream_end L g"
  using tracked_unnamed [of L g] by (auto simp: apply_update_def merged_def stream_end_def fun_eq_iff)

lemma coarser_keeps:
  assumes "coarser us vs"
  shows "tracked L us \<Longrightarrow> tracked L vs" and "stream_end L vs = stream_end L us"
    and "vs = [] \<longleftrightarrow> us = []" and "subseq (map fst vs) (map fst us)"
proof -
  from assms obtain gs where gs: "concat gs = us" "map merged gs = vs" "[] \<notin> set gs"
    by (auto simp: coarser_def)
  have "(tracked L (concat gs) \<longrightarrow> tracked L (map merged gs)) \<and>
      stream_end L (map merged gs) = stream_end L (concat gs) \<and>
      subseq (map fst (map merged gs)) (map fst (concat gs))"
    using gs(3)
  proof (induction gs arbitrary: L)
    case (Cons g gs)
    then have g: "g \<noteq> []" "stream_end L g = fst (merged g)"
      by (auto simp: merged_def stream_end_def)
    then have "subseq [fst (merged g)] (map fst g)"
      by (simp add: merged_def subseq_singleton_left)
    from list_emb_append_mono [OF this] Cons g show ?case
      by (auto simp: apply_merged)
  qed simp
  with gs show "tracked L us \<Longrightarrow> tracked L vs" "stream_end L vs = stream_end L us" "subseq (map fst vs) (map fst us)"
    by auto
  from gs show "vs = [] \<longleftrightarrow> us = []" by (cases gs) auto
qed

end
