(* ===== verification/PvaFollow.thy ===== *)
theory PvaFollow
  imports PvaHub PvaServer PvOverlay
begin

text \<open>
  What a monitoring client sees of a served PV, as streams of updates on the leaves of its value
  (theory \<open>PvOverlay\<close>): the stream a subscriber of a \<open>SharedPV\<close> is posted (\<open>src/src/pva/server.rs\<close>),
  the stream the decoder of a monitor pushes and the one its squashing queue hands to Python
  (\<open>src/src/pva/hub.rs\<close>).
\<close>

section \<open>The client's queue\<close>

fun value_update :: "(field_desc \<Rightarrow> nat) \<Rightarrow> update \<Rightarrow> leaf_update option" where
  "value_update tb (UValue d v c) = Some (leaves d v, cover tb d c)"
| "value_update tb _ = None"

definition value_updates :: "(field_desc \<Rightarrow> nat) \<Rightarrow> update list \<Rightarrow> leaf_update list" where
  "value_updates tb us = List.map_filter (value_update tb) us"

definition of_type :: "field_desc \<Rightarrow> update \<Rightarrow> bool" where
  "of_type d u \<longleftrightarrow> (case u of UValue d' _ _ \<Rightarrow> d' = d | _ \<Rightarrow> True)"

lemma value_updates_simps [simp]:
  "value_updates tb [] = []" "value_updates tb (us @ vs) = value_updates tb us @ value_updates tb vs"
  "value_updates tb (UValue d v c # us) = (leaves d v, cover tb d c) # value_updates tb us"
  "\<not> is_value_update u \<Longrightarrow> value_updates tb (u # us) = value_updates tb us"
  by (cases u; simp add: value_updates_def map_filter_def)+

lemma value_updates_Cons: "value_updates tb (u # us) = value_updates tb [u] @ value_updates tb us"
  by (cases u) simp_all

lemma combine_values:
  "list_all is_value_update (u # us) \<Longrightarrow> list_all (of_type d) (u # us) \<Longrightarrow>
     is_value_update (foldl combine u us) \<and> of_type d (foldl combine u us) \<and>
     value_updates tb [foldl combine u us] = [merged (value_updates tb (u # us))]"
proof (induction us rule: rev_induct)
  case Nil
  then show ?case by (cases u) simp_all
next
  case (snoc x us)
  then obtain v c w e where q: "foldl combine u us = UValue d w e" "x = UValue d v c"
    by (cases "foldl combine u us"; cases x) (auto simp: of_type_def)
  from snoc q(1) have "merged (value_updates tb (u # us)) = (leaves d w, cover tb d e)" by simp
  moreover have "value_updates tb (u # us @ [x]) = value_updates tb (u # us) @ [(leaves d v, cover tb d c)]"
    using value_updates_simps(2) [of tb "u # us" "[x]"] by (simp add: q(2))
  moreover have "merged (g @ [(L, C)]) = (L, \<lambda>ss. snd (merged g) ss \<or> C ss)" for g :: "leaf_update list" and L C
    by (auto simp: merged_def fun_eq_iff)
  ultimately show ?case using snoc.prems(2)
    by (simp add: q of_type_def cover_Un fun_eq_iff)
qed

text \<open>What is taken and still queued is a coarser stream than what was pushed, while the type stays the same.\<close>

lemma compressed_coarser:
  assumes "compressed ps qs" and "list_all (of_type d) ps"
  shows "coarser (value_updates tb ps) (value_updates tb qs)"
proof -
  from assms(1) obtain gs where gs: "concat gs = ps" "map merge_group gs = qs" "\<forall>g \<in> set gs. group_ok g"
    by (auto simp: compressed_def)
  have one: "\<exists>hs. concat hs = value_updates tb g \<and> map merged hs = value_updates tb [merge_group g] \<and> [] \<notin> set hs"
    if g: "group_ok g" "list_all (of_type d) g" for g
  proof (cases "list_all is_value_update g")
    case True
    from g(1) obtain u us where u: "g = u # us" by (cases g) (auto simp: group_ok_def)
    with True have "value_updates tb g \<noteq> []" by (cases u) simp_all
    with combine_values [of u us d tb] True g(2) u show ?thesis
      by (intro exI [of _ "[value_updates tb g]"]) simp
  next
    case False
    with g(1) obtain u where u: "g = [u]"
      by (auto simp: group_ok_def list_all_iff length_Suc_conv)
    with False have "value_updates tb g = []" by (cases u) simp_all
    with u show ?thesis by (intro exI [of _ "[]"]) simp
  qed
  from gs(3) assms(2) [folded gs(1)] have "\<exists>hs. concat hs = value_updates tb (concat gs) \<and>
      map merged hs = value_updates tb (map merge_group gs) \<and> [] \<notin> set hs"
  proof (induction gs)
    case (Cons g gs)
    then obtain hs hs' where
      "concat hs = value_updates tb g" "map merged hs = value_updates tb [merge_group g]" "[] \<notin> set hs"
      "concat hs' = value_updates tb (concat gs)" "map merged hs' = value_updates tb (map merge_group gs)" "[] \<notin> set hs'"
      using one [of g] by auto
    moreover have "value_updates tb (map merge_group (g # gs)) =
        value_updates tb [merge_group g] @ value_updates tb (map merge_group gs)"
      by (simp only: list.map) (rule value_updates_Cons)
    ultimately show ?case by (intro exI [of _ "hs @ hs'"]) simp
  qed simp
  with gs show ?thesis by (simp add: coarser_def)
qed

text \<open>
  The type matters. A value of another type is merged into the tail like any other: the bits that
  were changed in the old type stay set in the changed set of the new one, where they number
  other fields or none.
\<close>

lemma squash_joins_types:
  "squash 1 (DScalar StString) (FScalar (SvString ''on'')) {0} [UValue (DStructure [] [(''x'', DScalar StInt)]) v {1}] =
     [UValue (DScalar StString) (FScalar (SvString ''on'')) {0, 1}]"
  by (simp add: squash_def)

section \<open>The decoder\<close>

text \<open>
  A frame carries an update of the stream: the library reads from it the bits of the leaves the
  update names and a value that has the update's fields there.
\<close>

definition carries ::
  "(field_desc \<Rightarrow> nat) \<Rightarrow> ('b \<Rightarrow> 'o \<Rightarrow> (nat set \<times> 'b) option) \<Rightarrow>
     (field_desc \<Rightarrow> nat set \<Rightarrow> 'b \<Rightarrow> 'o \<Rightarrow> pv_field option) \<Rightarrow> field_desc \<Rightarrow> field_desc \<times> 'b \<times> 'o \<Rightarrow> leaf_update \<Rightarrow> bool"
where
  "carries tb bd fd d frame u \<longleftrightarrow>
     (case frame of (desc, body, order) \<Rightarrow>
        desc = d \<and>
        (\<exists>c rest delta. bd body order = Some (c, rest) \<and> fd d c rest order = Some delta \<and> conforms d delta \<and>
           cover tb d c = snd u \<and> (\<forall>ss. cover tb d c ss \<longrightarrow> leaves d delta ss = fst u ss)))"

text \<open>The updates a monitor pushes; a frame that does not decode pushes none.\<close>

definition pushed_by :: "(field_desc \<times> pv_field \<times> nat set) option list \<Rightarrow> update list" where
  "pushed_by rs = List.map_filter (\<lambda>r. case r of None \<Rightarrow> None | Some (d, v, c) \<Rightarrow> Some (UValue d v c)) rs"

lemma pushed_by_simps [simp]:
  "pushed_by [] = []" "pushed_by (None # rs) = pushed_by rs"
  "pushed_by (Some (d, v, c) # rs) = UValue d v c # pushed_by rs"
  by (simp_all add: pushed_by_def map_filter_def)

context overlaying
begin

lemma decode_carried:
  assumes "wf_desc d" and "carries tb bd fd d (desc, body, order) u"
    and "dec_desc s = Some d" and "dec_prior s = Some p" and "conforms d p"
  shows "\<exists>w c. decode bd fd fill desc body order s = (s\<lparr>dec_prior := Some w\<rparr>, Some (d, w, c)) \<and> conforms d w \<and>
    leaves d w = apply_update u (leaves d p) \<and> cover tb d c = snd u"
proof -
  from assms(2) obtain c rest delta where f: "desc = d" "bd body order = Some (c, rest)" "fd d c rest order = Some delta"
    "conforms d delta" "cover tb d c = snd u" "\<forall>ss. cover tb d c ss \<longrightarrow> leaves d delta ss = fst u ss"
    by (auto simp: carries_def)
  have "leaves d (fill d c delta p) = apply_update u (leaves d p)"
    using f(5,6) by (simp add: fill_leaves [OF assms(1) f(4) assms(5)] apply_update_def fun_eq_iff)
  with f fill_conforms [OF f(4) assms(5), of c] assms(3,4) show ?thesis
    by (intro exI [of _ "fill d c delta p"] exI [of _ c]) (simp add: decode_def Let_def)
qed

lemma decode_rest:
  assumes "wf_desc d" and "list_all2 (carries tb bd fd d) frames us"
    and "dec_desc s = Some d" and "dec_prior s = Some p" and "conforms d p" and "tracked (leaves d p) us"
  shows "value_updates tb (pushed_by (decode_all bd fd fill frames s)) = us \<and>
    list_all (of_type d) (pushed_by (decode_all bd fd fill frames s))"
  using assms(2-)
proof (induction frames us arbitrary: s p rule: list_all2_induct)
  case (Cons f frames u us)
  obtain desc body order where fr: "f = (desc, body, order)" by (cases f) auto
  from decode_carried [OF assms(1) Cons.hyps(1) [unfolded fr] Cons.prems(1-3)] obtain w c where
    w: "decode bd fd fill desc body order s = (s\<lparr>dec_prior := Some w\<rparr>, Some (d, w, c))" "conforms d w"
    "leaves d w = apply_update u (leaves d p)" "cover tb d c = snd u" by blast
  from Cons.prems(4) w(3) have "leaves d w = fst u" "tracked (leaves d w) us" by simp_all
  with Cons.IH [of "s\<lparr>dec_prior := Some w\<rparr>" w] Cons.prems(1) w(1,2,4) fr show ?case
    by (simp add: of_type_def)
qed simp

text \<open>
  A fresh decoder turns frames that carry a stream whose first update is complete into the values
  of that stream, each with the changed set of its update.
\<close>

lemma decode_all_follows:
  assumes "wf_desc d" and "list_all2 (carries tb bd fd d) frames us"
    and "us \<noteq> [] \<Longrightarrow> snd (hd us) = leaf_of d \<and> (\<forall>ss. \<not> leaf_of d ss \<longrightarrow> fst (hd us) ss = None) \<and> tracked (fst (hd us)) (tl us)"
  shows "value_updates tb (pushed_by (decode_all bd fd fill frames decoder_default)) = us \<and>
    list_all (of_type d) (pushed_by (decode_all bd fd fill frames decoder_default))"
proof (cases us)
  case Nil
  with assms(2) show ?thesis by simp
next
  case (Cons u us')
  with assms(2) obtain body order frames' where fr: "frames = (d, body, order) # frames'"
    "carries tb bd fd d (d, body, order) u" "list_all2 (carries tb bd fd d) frames' us'"
    by (auto simp: list_all2_Cons2 carries_def)
  from fr(2) obtain c rest delta where f: "bd body order = Some (c, rest)" "fd d c rest order = Some delta"
    "conforms d delta" "cover tb d c = snd u" "\<forall>ss. cover tb d c ss \<longrightarrow> leaves d delta ss = fst u ss"
    by (auto simp: carries_def)
  have u: "snd u = leaf_of d" "\<And>ss. \<not> leaf_of d ss \<Longrightarrow> fst u ss = None" "tracked (fst u) us'"
    using assms(3) Cons by auto
  have l: "leaves d delta = fst u"
  proof
    show "leaves d delta ss = fst u ss" for ss
      using f(4,5) u(1,2) by (cases "leaf_of d ss") (auto simp: leaves_def)
  qed
  have dec: "decode bd fd fill d body order decoder_default =
      (\<lparr>dec_desc = Some d, dec_prior = Some delta\<rparr>, Some (d, delta, c))"
    using f(1,2) by (simp add: decode_def decoder_default_def Let_def)
  from decode_rest [OF assms(1) fr(3) _ _ f(3), of "\<lparr>dec_desc = Some d, dec_prior = Some delta\<rparr>"] u(3) l
  show ?thesis by (simp add: fr(1) dec Cons of_type_def f(4))
qed

end

text \<open>A frame that does not decode is skipped, and what it carried stays old in every later value.\<close>

lemma skipped_frame_stays_old:
  assumes "bd body order = None" and "dec_desc s = Some d"
  shows "decode bd fd fill d body order s = (s, None)"
  using assms by (simp add: decode_def Let_def)

text \<open>The queue of a monitor in a hub: coarser than the stream of its frames, and ends where it ends.\<close>

lemma monitor_coarser:
  assumes "pva_hub_reachable h" and "m \<in> set (ph_monitors h)" and "list_all (of_type d) (pm_pushed m)"
  shows "coarser (value_updates tb (pm_pushed m)) (value_updates tb (pm_taken m @ pm_items m))"
  using pva_hub_invD(1) [OF pva_hub_reachable_inv [OF assms(1)] assms(2)] assms(3)
  by (intro compressed_coarser [of _ _ d]) (simp_all add: mon_ok_def)

section \<open>What a served PV posts\<close>

text \<open>
  What is relied on of \<open>SharedPV\<close> beyond \<open>shared_pv\<close>: it keeps the descriptor it was opened with, and
  a post merges the marked leaves into the stored value.
\<close>

locale delta_pv = shared_pv S
  for S :: "'p shared_pv_ops" +
  fixes tb :: "field_desc \<Rightarrow> nat" and introspection :: "'p \<Rightarrow> field_desc option"
  assumes open_type: "sp_open S d f p = Inr p' \<Longrightarrow> introspection p' = Some d"
    and post_type: "sp_post_delta S m f p = Inr p' \<Longrightarrow> introspection p' = introspection p"
    and post_merges: "sp_post_delta S m f p = Inr p' \<Longrightarrow> introspection p = Some d \<Longrightarrow> wf_desc d \<Longrightarrow>
      sp_current S p = Some old \<Longrightarrow> conforms d f \<Longrightarrow> conforms d old \<Longrightarrow>
      \<exists>v. sp_current S p' = Some v \<and> conforms d v \<and>
        leaves d v = (\<lambda>ss. if cover tb d m ss then leaves d f ss else leaves d old ss)"

text \<open>The paths \<open>changed_bitset_paths\<close> names are at or above exactly the marked leaves.\<close>

definition paths_cover :: "(field_desc \<Rightarrow> nat) \<Rightarrow> (field_desc \<Rightarrow> nat set \<Rightarrow> string list) \<Rightarrow> bool" where
  "paths_cover tb paths \<longleftrightarrow>
     (\<forall>d m ss. wf_desc d \<longrightarrow> leaf_of d ss \<longrightarrow>
        ((\<exists>p \<in> set (paths d m). prefix (segments p) ss) \<longleftrightarrow> covered tb d 0 m ss))"

text \<open>Values that Python opens a PV with or posts are values of their type (theory \<open>PvAssign\<close>).\<close>

fun typed_op :: "entry_op \<Rightarrow> bool" where
  "typed_op (EOpen d f m) \<longleftrightarrow> wf_desc d \<and> conforms d f"
| "typed_op (EPost alive pre r) \<longleftrightarrow> conforms (r_desc r) (r_field r)"
| "typed_op _ \<longleftrightarrow> True"

definition post_update :: "(field_desc \<Rightarrow> nat) \<Rightarrow> field_desc \<Rightarrow> pv_field \<times> string list \<times> nat set \<Rightarrow> leaf_update" where
  "post_update tb d x = (leaves d (fst x), cover tb d (snd (snd x)))"

definition history_ok ::
  "(field_desc \<Rightarrow> nat) \<Rightarrow> (field_desc \<Rightarrow> nat set \<Rightarrow> string list) \<Rightarrow> field_desc \<Rightarrow> history \<Rightarrow> bool"
where
  "history_ok tb paths d h \<longleftrightarrow>
     wf_desc d \<and> (\<forall>x \<in> set h. conforms d (fst x)) \<and> (\<forall>x \<in> set (tl h). fst (snd x) = paths d (snd (snd x))) \<and>
     (h \<noteq> [] \<longrightarrow> tracked (leaves d (fst (hd h))) (map (post_update tb d) (tl h)))"

lemma history_end: "h \<noteq> [] \<Longrightarrow> stream_end (leaves d (fst (hd h))) (map (post_update tb d) (tl h)) = leaves d (fst (last h))"
  by (cases h) (auto simp: stream_end_def last_map post_update_def)

lemma history_ok_snoc:
  assumes "history_ok tb paths d h" and "h \<noteq> []" and "conforms d v"
    and "leaves d v = (\<lambda>ss. if cover tb d m ss then leaves d f ss else leaves d (fst (last h)) ss)"
  shows "history_ok tb paths d (h @ [(v, paths d m, m)])"
proof -
  have "apply_update (post_update tb d (v, paths d m, m)) (leaves d (fst (last h))) = leaves d v"
    using assms(4) by (auto simp: apply_update_def post_update_def fun_eq_iff)
  with assms(1-3) history_end [OF assms(2), of d tb] show ?thesis
    by (auto simp: history_ok_def post_update_def)
qed

definition typed_entry ::
  "(field_desc \<Rightarrow> nat) \<Rightarrow> ('p \<Rightarrow> field_desc option) \<Rightarrow> (field_desc \<Rightarrow> nat set \<Rightarrow> string list) \<Rightarrow>
     'p pv_entry \<times> history \<Rightarrow> bool"
where
  "typed_entry tb introspection paths eh \<longleftrightarrow>
     (\<forall>d. pe_opened (fst eh) = Some d \<longrightarrow> introspection (pe_pv (fst eh)) = Some d \<and> history_ok tb paths d (snd eh))"

context delta_pv
begin

lemma typed_entry_step:
  assumes "entry_inv S (e, h)" and "typed_entry tb introspection paths (e, h)" and "typed_op op"
  shows "typed_entry tb introspection paths (entry_step ts S paths op (e, h))"
proof (cases op)
  case (EOpen d f m)
  with assms(2,3) show ?thesis
    by (auto simp: entry_step_def entry_open_def typed_entry_def history_ok_def open_type split: sum.splits)
next
  case (EPost alive pre r)
  obtain res e' where post: "entry_post ts S paths alive pre r e = (res, e')"
    by (cases "entry_post ts S paths alive pre r e")
  show ?thesis
  proof (cases "(\<exists>err. res = Inl err) \<or> r_marks r = {}")
    case True
    then have "e' = e" using post by (auto simp: entry_post_def Let_def split: if_splits option.splits sum.splits)
    with True post EPost assms(2) show ?thesis by (auto simp: entry_step_def split: sum.splits)
  next
    case False
    then obtain u where res: "res = Inr u" by (cases res) auto
    with post False obtain p where p: "pe_opened e = Some (r_desc r)" "sp_post_delta S (r_marks r) (r_field r) (pe_pv e) = Inr p"
      "pe_pv e' = p" "pe_opened e' = pe_opened e"
      by (auto simp: entry_post_def Let_def split: if_splits option.splits sum.splits)
    from assms(2) p(1) have d: "introspection (pe_pv e) = Some (r_desc r)" "history_ok tb paths (r_desc r) h"
      by (auto simp: typed_entry_def)
    from assms(1) p(1) have h: "h \<noteq> []" "sp_current S (pe_pv e) = Some (fst (last h))"
      by (auto simp: entry_inv_def)
    have "wf_desc (r_desc r)" "conforms (r_desc r) (r_field r)" "conforms (r_desc r) (fst (last h))"
      using d(2) h(1) assms(3) EPost by (auto simp: history_ok_def)
    from post_merges [OF p(2) d(1) this(1) h(2) this(2,3)] obtain v where v: "sp_current S p = Some v" "conforms (r_desc r) v"
      "leaves (r_desc r) v = (\<lambda>ss. if cover tb (r_desc r) (r_marks r) ss then leaves (r_desc r) (r_field r) ss
         else leaves (r_desc r) (fst (last h)) ss)"
      by blast
    with history_ok_snoc [OF d(2) h(1) v(2,3)] post_type [OF p(2)] d(1) p False res post EPost show ?thesis
      by (simp add: entry_step_def typed_entry_def)
  qed
next
  case EClose
  then show ?thesis by (simp add: entry_step_def entry_close_def typed_entry_def)
next
  case (ESubscribe kind ring)
  with assms(2) show ?thesis
    by (auto simp: entry_step_def entry_subscribe_def typed_entry_def split: option.splits)
qed

lemma entry_run_typed:
  "sp_current S p = None \<Longrightarrow> list_all typed_op ops \<Longrightarrow> typed_entry tb introspection paths (entry_run ts S paths ops p)"
proof (induction ops rule: rev_induct)
  case Nil
  then show ?case by (simp add: entry_run_def typed_entry_def pv_entry_new_def)
next
  case (snoc op ops)
  obtain e h where eh: "entry_run ts S paths ops p = (e, h)" by (metis surj_pair)
  with entry_run_inv [OF snoc.prems(1), of ts paths ops] snoc typed_entry_step [of e h paths op ts]
  show ?case by (simp add: entry_run_def)
qed

end

text \<open>The stream of a subscriber: its seed, which is complete, and its posts; a plain one gets whole values.\<close>

definition subscriber_stream :: "field_desc \<Rightarrow> pv_subscriber \<Rightarrow> leaf_update list" where
  "subscriber_stream d s =
     (leaves d (su_seed s), leaf_of d) #
     map (\<lambda>(v, ps). (leaves d v, \<lambda>ss. leaf_of d ss \<and>
         (case ps of None \<Rightarrow> True | Some qs \<Rightarrow> \<exists>q \<in> set qs. prefix (segments q) ss)))
       (su_posts s)"

lemma subscriber_tracked:
  assumes "history_ok tb paths d h" and "paths_cover tb paths" and "sees h s"
  shows "tracked (leaves d (su_seed s)) (tl (subscriber_stream d s)) \<and>
    stream_end L (subscriber_stream d s) = leaves d (fst (last h))"
proof -
  from assms(3) obtain pre x post where h: "h = pre @ x # post" "su_seed s = fst x"
    "su_posts s = map (posted (su_kind s)) post"
    by (auto simp: sees_def)
  have "tracked (leaves d (fst x)) (map (post_update tb d) post)"
    using assms(1) h(1) by (cases pre) (auto simp: history_ok_def post_update_def)
  moreover have "list_all2 (\<lambda>u w. fst w = fst u \<and> (\<forall>ss. snd u ss \<longrightarrow> snd w ss))
      (map (post_update tb d) post) (tl (subscriber_stream d s))"
    unfolding subscriber_stream_def h(3) list.sel list_all2_map1 list_all2_map2
  proof (rule list.rel_refl_strong)
    fix y assume "y \<in> set post"
    with h(1) have "y \<in> set (tl h)" by (cases pre) auto
    with assms(1,2) show "fst (case posted (su_kind s) y of (v, ps) \<Rightarrow> (leaves d v, \<lambda>ss. leaf_of d ss \<and>
          (case ps of None \<Rightarrow> True | Some qs \<Rightarrow> \<exists>q \<in> set qs. prefix (segments q) ss))) = fst (post_update tb d y) \<and>
        (\<forall>ss. snd (post_update tb d y) ss \<longrightarrow> snd (case posted (su_kind s) y of (v, ps) \<Rightarrow> (leaves d v, \<lambda>ss. leaf_of d ss \<and>
          (case ps of None \<Rightarrow> True | Some qs \<Rightarrow> \<exists>q \<in> set qs. prefix (segments q) ss))) ss)"
      by (auto simp: posted_def post_update_def cover_def history_ok_def paths_cover_def split: subscriber_kind.splits)
  qed
  ultimately have "tracked (leaves d (su_seed s)) (tl (subscriber_stream d s))"
    by (simp add: h(2) tracked_widen)
  moreover have "stream_end L (subscriber_stream d s) = leaves d (fst (last h))"
    by (cases post rule: rev_cases) (auto simp: subscriber_stream_def h posted_def stream_end_def)
  ultimately show ?thesis by blast
qed

text \<open>A \<open>SharedPV\<close> that is its descriptor and its value, and paths that are the marked leaves.\<close>

type_synonym typed_value = "(field_desc \<times> pv_field) option"

definition typed_pv :: "typed_value shared_pv_ops" where
  "typed_pv = \<lparr>sp_open = (\<lambda>d f p. case p of None \<Rightarrow> Inr (Some (d, f)) | Some _ \<Rightarrow> Inl (POther 0)),
     sp_post_delta = (\<lambda>m f p. case p of None \<Rightarrow> Inl (POther 1) | Some (d, old) \<Rightarrow> Inr (Some (d, ref_fill d m f old))),
     sp_current = map_option snd, sp_close = (\<lambda>p. None)\<rparr>"

interpretation typed_pv: delta_pv typed_pv ref_bits "map_option fst"
  by unfold_locales (auto simp: typed_pv_def ref.fill_conforms ref.fill_leaves split: option.splits prod.splits)

definition ref_paths :: "field_desc \<Rightarrow> nat set \<Rightarrow> string list" where
  "ref_paths d m =
     (if is_structure d then collect_marked ref_bits d 0 [] m False True else if 0 \<in> m then [[]] else [])"

lemma ref_paths_cover: "paths_cover ref_bits ref_paths"
  unfolding paths_cover_def
proof (intro allI impI)
  fix d m ss
  assume d: "wf_desc d" "leaf_of d ss"
  show "(\<exists>p \<in> set (ref_paths d m). prefix (segments p) ss) \<longleftrightarrow> covered ref_bits d 0 m ss"
  proof (cases "is_structure d")
    case False
    with d(2) have "ss = []" by (auto simp: leaf_of_iff walk_leaf)
    with False show ?thesis by (auto simp: ref_paths_def segments_def)
  next
    case True
    have names: "list_all plain_name ts" if "walk desc_child d ts = Some c" for ts c
      using that d(1) by (blast dest: walk_wf)
    from d(2) obtain c where c: "walk desc_child d ss = Some c" "\<not> is_structure c" by (auto simp: leaf_of_iff)
    with True have "ss \<noteq> []" by auto
    have seg: "segments (path_of [] ts) = ts" if "walk desc_child d ts = Some e" for ts e
      using names [OF that] by (simp add: segments_path_of)
    have "path_of [] ss \<noteq> []" using seg [OF c(1)] \<open>ss \<noteq> []\<close> by auto
    show ?thesis
    proof
      assume "\<exists>p \<in> set (ref_paths d m). prefix (segments p) ss"
      then obtain ts e where t: "walk desc_child d ts = Some e" "\<not> is_structure e" "covered ref_bits d 0 m ts" "prefix ts ss"
        using True by (auto simp: ref_paths_def collect_marked_expand [OF d(1)] seg)
      with leaf_prefix [of d ts ss] c(1) have "ts = ss" by (simp add: leaf_of_iff)
      with t show "covered ref_bits d 0 m ss" by simp
    next
      assume "covered ref_bits d 0 m ss"
      with True c \<open>path_of [] ss \<noteq> []\<close> have "path_of [] ss \<in> set (ref_paths d m)"
        by (auto simp: ref_paths_def collect_marked_expand [OF d(1)])
      with seg [OF c(1)] show "\<exists>p \<in> set (ref_paths d m). prefix (segments p) ss" by force
    qed
  qed
qed

section \<open>From the server to Python\<close>

lemma stream_from_any_start: "tracked (leaves d (su_seed s)) (tl (subscriber_stream d s)) \<Longrightarrow>
  tracked (leaves d f) (subscriber_stream d s)"
  by (auto simp: subscriber_stream_def apply_update_def leaves_def fun_eq_iff)

lemma coarser_first:
  assumes "coarser (subscriber_stream d s) us"
  shows "us \<noteq> [] \<and> snd (hd us) = leaf_of d \<and> (\<forall>ss. \<not> leaf_of d ss \<longrightarrow> fst (hd us) ss = None)"
proof -
  from assms obtain gs where gs: "concat gs = subscriber_stream d s" "map merged gs = us" "[] \<notin> set gs"
    by (auto simp: coarser_def)
  then obtain g gs' where g: "gs = g # gs'" "g \<noteq> []" by (cases gs) (auto simp: subscriber_stream_def)
  with gs(1) have app: "subscriber_stream d s = g @ concat gs'" by simp
  have "hd g = hd (subscriber_stream d s)" using g(2) app by simp
  then have first: "hd g = (leaves d (su_seed s), leaf_of d)" "set g \<subseteq> set (subscriber_stream d s)"
    by (simp_all only: subscriber_stream_def list.sel) (simp add: app [unfolded subscriber_stream_def])
  have all: "(\<forall>ss. snd u ss \<longrightarrow> leaf_of d ss) \<and> (\<forall>ss. \<not> leaf_of d ss \<longrightarrow> fst u ss = None)"
    if "u \<in> set (subscriber_stream d s)" for u
    using that by (auto simp: subscriber_stream_def leaves_def)
  have "hd g \<in> set g" "last g \<in> set g" using g(2) by simp_all
  with first have ex: "\<exists>u \<in> set g. snd u ss" if "leaf_of d ss" for ss
    using that by force
  have "snd (merged g) ss = leaf_of d ss" for ss
    using ex [of ss] all first(2) by (auto simp: merged_def)
  moreover have "fst (merged g) ss = None" if "\<not> leaf_of d ss" for ss
    using that all [of "last g"] \<open>last g \<in> set g\<close> first(2) by (auto simp: merged_def)
  ultimately show ?thesis using g gs(2) by (auto simp: fun_eq_iff)
qed



text \<open>A pair opened, subscribed to and posted to; each update in a frame of its own.\<close>

definition pair_desc :: field_desc where
  "pair_desc = DStructure [] [(''x'', DScalar StInt), (''y'', DScalar StInt)]"

definition pair_of :: "i32 \<Rightarrow> i32 \<Rightarrow> pv_field" where
  "pair_of x y = FStructure [] [(''x'', FScalar (SvInt x)), (''y'', FScalar (SvInt y))]"

definition pair_ops :: "entry_op list" where
  "pair_ops = [EOpen pair_desc (pair_of 1 2) {0}, ESubscribe SubMarked 7,
     EPost (\<lambda>_. True) [] \<lparr>r_desc = pair_desc, r_field = pair_of 5 9, r_marks = {1}\<rparr>]"

definition pair_frames :: "(field_desc \<times> (nat set \<times> pv_field) \<times> unit) list" where
  "pair_frames = [(pair_desc, ({0}, pair_of 1 2), ()), (pair_desc, ({1}, pair_of 5 0), ())]"

definition pair_subscriber :: pv_subscriber where
  "pair_subscriber = \<lparr>su_ring = 7, su_kind = SubMarked, su_seed = pair_of 1 2,
     su_posts = [(pair_of 5 2, Some (ref_paths pair_desc {1}))]\<rparr>"

definition pair_hub :: pva_hub where
  "pair_hub = on_monitor 0 (push_value pair_desc (pair_of 5 2) {1})
     (on_monitor 0 (push_value pair_desc (pair_of 1 2) {0}) sample_pva_hub)"

lemma pair_wf [simp]: "wf_desc pair_desc" "is_structure pair_desc"
  by (simp_all add: pair_desc_def plain_name_def)

lemma pair_conforms [simp]: "conforms pair_desc (pair_of x y)"
  by (simp add: pair_desc_def pair_of_def conforms_structure members_ok_def)

lemma pair_leaf: "leaf_of pair_desc ss \<longleftrightarrow> ss = [''x''] \<or> ss = [''y'']"
proof (cases ss)
  case (Cons s ts)
  then show ?thesis by (cases ts) (auto simp: leaf_of_iff pair_desc_def)
qed (simp add: leaf_of_iff pair_desc_def)

lemma pair_cover: "cover ref_bits pair_desc {Suc 0} ss \<longleftrightarrow> ss = [''x'']"
proof -
  have x: "covered ref_bits pair_desc 0 {1} [''x'']" and y: "\<not> covered ref_bits pair_desc 0 {1} [''y'']"
    by (simp_all add: pair_desc_def covered_Cons)
  then show ?thesis by (auto simp: cover_def pair_leaf)
qed

lemma pair_fill: "ref_fill pair_desc {Suc 0} (pair_of x y) (pair_of 1 2) = pair_of x 2"
  by (simp add: ref_fill_def pair_desc_def pair_of_def)

lemma pair_run: "\<exists>e h. entry_run (\<lambda>_. []) typed_pv ref_paths pair_ops None = (e, h) \<and>
    pe_subs e = [pair_subscriber] \<and> pe_opened e = Some pair_desc \<and> pe_pv e = Some (pair_desc, pair_of 5 2)"
  by (simp add: pair_ops_def entry_run_def entry_step_def entry_open_def entry_subscribe_def entry_post_def pv_entry_new_def
      typed_pv_def pair_fill pair_subscriber_def subscriber_post_def Let_def)

lemma pair_carried:
  "list_all2 (carries ref_bits (\<lambda>b _. Some (fst b, b)) (\<lambda>d c b _. Some (snd b)) pair_desc) pair_frames
     (subscriber_stream pair_desc pair_subscriber)"
proof -
  have "cover ref_bits pair_desc {0} = leaf_of pair_desc"
    by (simp add: fun_eq_iff cover_def covered_root)
  moreover have "cover ref_bits pair_desc {1} =
      (\<lambda>ss. leaf_of pair_desc ss \<and> (\<exists>q \<in> set (ref_paths pair_desc {1}). prefix (segments q) ss))"
    using ref_paths_cover [unfolded paths_cover_def, rule_format, OF pair_wf(1)]
    by (simp add: fun_eq_iff cover_def cong: conj_cong)
  moreover have "\<forall>ss. cover ref_bits pair_desc {1} ss \<longrightarrow> leaves pair_desc (pair_of 5 0) ss = leaves pair_desc (pair_of 5 2) ss"
    by (simp add: pair_cover leaves_def pair_leaf) (simp add: pair_of_def)
  ultimately show ?thesis
    by (simp add: pair_frames_def subscriber_stream_def pair_subscriber_def carries_def)
qed

lemma pair_hub_reachable: "pva_hub_reachable pair_hub"
proof -
  have "0 < length (ph_monitors sample_pva_hub)"
    "0 < length (ph_monitors (on_monitor 0 (push_value pair_desc (pair_of 1 2) {0}) sample_pva_hub))"
    by (simp_all add: sample_pva_hub_eval on_monitor_def)
  then have "pva_hub_step sample_pva_hub (on_monitor 0 (push_value pair_desc (pair_of 1 2) {0}) sample_pva_hub)"
    "pva_hub_step (on_monitor 0 (push_value pair_desc (pair_of 1 2) {0}) sample_pva_hub) pair_hub"
    unfolding pair_hub_def by (blast intro: step_push_value)+
  with sample_pva_hub_reachable show ?thesis by (meson rtranclp.rtrancl_into_rtrancl)
qed


end
