(* ===== verification/PyCalls.thy ===== *)
theory PyCalls
  imports Runtime CaMonitorHub CaServing CaChannel PvaServing PvaHub
begin

text \<open>
  The calls of the extension that wait, in both their forms. A method \<open>f\<close> and its \<open>f_async\<close> make the same
  Rust future; \<open>f\<close> blocks on it with \<open>block_on\<close>, \<open>f_async\<close> hands it to asyncio with
  \<open>into_py_future\<close> (\<open>src/src/runtime.rs\<close>). An argument that is refused raises in either before there
  is a future. \<open>conv\<close> is the conversion of the result to a Python object. Pausing and resuming a
  subscription have the blocking form only.
\<close>

section \<open>Blocking and asyncio\<close>

text \<open>\<open>called\<close> is what the blocking form returns or raises, for a future with a given outcome.\<close>

definition called :: "('r \<Rightarrow> 'v res) \<Rightarrow> 'r outcome \<Rightarrow> 'v outcome" where
  "called conv out =
     (case out of Finished r \<Rightarrow> Finished (bind_res r conv) | Panicked \<Rightarrow> Panicked | Waiting \<Rightarrow> Waiting)"

text \<open>
  The asyncio form; \<open>ready\<close> says whether the future comes to its end at the first poll, and a panic
  there is the caller's.
\<close>

definition call_async ::
  "('r \<Rightarrow> 'v res) \<Rightarrow> bool \<Rightarrow> 'r outcome \<Rightarrow> ('r, 'v) rt \<Rightarrow> ('r, 'v) awaitable outcome \<times> ('r, 'v) rt"
where
  "call_async conv ready out s =
     (case (if ready then out else Waiting) of
        Finished r \<Rightarrow> apfst Finished (into_py_future conv (Some r) s)
      | Panicked \<Rightarrow> (Panicked, s)
      | Waiting \<Rightarrow> apfst Finished (into_py_future conv None s))"

text \<open>A handed future ends as the Rust future it stands for does.\<close>

definition ends_as :: "'r outcome \<Rightarrow> ('r, 'v) handed \<Rightarrow> bool" where
  "ends_as out h \<longleftrightarrow>
     (case h_phase h of
        Posted (Some r) \<Rightarrow>
          (case out of Finished r' \<Rightarrow> r = r' | Panicked \<Rightarrow> r = Inl rust_future_failed | Waiting \<Rightarrow> False)
      | _ \<Rightarrow> True)"

lemma bind_map_res: "bind_res x (\<lambda>v. map_res f (k v)) = map_res f (bind_res x k)"
  by (cases x) simp_all

lemma call_async_cases:
  "call_async conv ready out s =
     (if ready \<and> out = Panicked then (Panicked, s)
      else case (if ready then out else Waiting) of
             Finished r \<Rightarrow> (Finished (map_res Completed (bind_res r conv)), s)
           | _ \<Rightarrow> (Finished (Inr (HandedOver (length (rt_hands s)))), hand_over s))"
  by (auto simp: call_async_def into_py_future_def bind_map_res split: outcome.splits)

lemma rt_steps_hands: "(rt_step conv)\<^sup>*\<^sup>* s s' \<Longrightarrow> length (rt_hands s) \<le> length (rt_hands s')"
  by (induction rule: rtranclp_induct) (auto dest: rt_step_hands)


lemma run_completes: "(rt_step Inr)\<^sup>*\<^sup>* (hand_over rt_new) completed_run"
proof -
  have "rt_step Inr (hand_over rt_new :: (nat, nat) rt) ready_run"
    unfolding ready_run_def
    by (rule rt_step.fut_ready) (simp_all add: hand_over_def rt_new_def handed_new_def)
  moreover have "rt_step Inr ready_run posted_run"
    unfolding posted_run_def
    by (rule rt_step.posting) (simp_all add: ready_run_def on_hand_def hand_over_def rt_new_def handed_new_def)
  ultimately show ?thesis
    using completing_run by (meson rtranclp.rtrancl_into_rtrancl rtranclp.rtrancl_refl)
qed


section \<open>Channel Access\<close>

definition refused :: "pyexc \<Rightarrow> 's \<Rightarrow> 'a outcome \<times> 's" where
  "refused e s = (Finished (Inl e), s)"

definition ca_wait_connected :: "(unit \<Rightarrow> 'v res) \<Rightarrow> eca_lib \<Rightarrow> 'h ca_chan \<Rightarrow> f64 option \<Rightarrow> 'v outcome" where
  "ca_wait_connected conv eca ch timeout = called conv (do_wait_connected eca ch timeout)"

definition ca_wait_connected_async ::
  "(unit \<Rightarrow> 'v res) \<Rightarrow> bool \<Rightarrow> eca_lib \<Rightarrow> 'h ca_chan \<Rightarrow> f64 option \<Rightarrow>
     (unit, 'v) rt \<Rightarrow> (unit, 'v) awaitable outcome \<times> (unit, 'v) rt"
where
  "ca_wait_connected_async conv ready eca ch timeout = call_async conv ready (do_wait_connected eca ch timeout)"

definition ca_get_async ::
  "(ca_snapshot \<Rightarrow> 'v res) \<Rightarrow> bool \<Rightarrow> py_lib \<Rightarrow> value_lib \<Rightarrow> eca_lib \<Rightarrow> 'h ca_chan \<Rightarrow> string \<Rightarrow> u16 option \<Rightarrow> u16 \<Rightarrow>
     bool \<Rightarrow> i64 \<Rightarrow> f64 option \<Rightarrow> (ca_snapshot, 'v) rt \<Rightarrow> (ca_snapshot, 'v) awaitable outcome \<times> (ca_snapshot, 'v) rt"
where
  "ca_get_async conv ready L V eca ch name dbr form enum_as_string cnt timeout =
     call_async conv ready (snd (ca_do_get L V eca ch name
       \<lparr>gr_dbr = dbr, gr_form = form, gr_enum_as_string = enum_as_string\<rparr> cnt timeout))"

definition ca_put_async ::
  "(unit \<Rightarrow> 'v res) \<Rightarrow> bool \<Rightarrow> py_lib \<Rightarrow> eca_lib \<Rightarrow> 'h ca_chan \<Rightarrow> py \<Rightarrow> bool \<Rightarrow> f64 option \<Rightarrow>
     (unit, 'v) rt \<Rightarrow> (unit, 'v) awaitable outcome \<times> (unit, 'v) rt"
where
  "ca_put_async conv ready L eca ch val wait timeout =
     (case ca_from_py L val of
        Inl e \<Rightarrow> refused e
      | Inr rq \<Rightarrow> call_async conv ready (snd (ca_do_put eca ch rq wait timeout)))"

definition ca_subscribe_async ::
  "(string \<times> (('h, 'w) ca_monitor, 'q) drain \<Rightarrow> 'v res) \<Rightarrow> bool \<Rightarrow> eca_lib \<Rightarrow> dbe_lib \<Rightarrow> 'h ca_chan \<Rightarrow> string \<Rightarrow>
     f64 \<Rightarrow> u16 option \<Rightarrow> bool \<Rightarrow> bool \<Rightarrow> i64 \<Rightarrow> (string \<times> (('h, 'w) ca_monitor, 'q) drain, 'v) rt \<Rightarrow>
     (string \<times> (('h, 'w) ca_monitor, 'q) drain, 'v) awaitable outcome \<times> (string \<times> (('h, 'w) ca_monitor, 'q) drain, 'v) rt"
where
  "ca_subscribe_async conv ready eca dbe ch name deadband dbe_mask enum_as_string float_as_string cnt =
     call_async conv ready (block_on (do_subscribe eca ch name deadband
       (case dbe_mask of Some m \<Rightarrow> m | None \<Rightarrow> DEFAULT_MASK dbe) enum_as_string float_as_string cnt))"

text \<open>The forms over many channels build their list inside the future.\<close>

definition wait_connected_many_async ::
  "bool \<Rightarrow> eca_lib \<Rightarrow> 'h ca_chan list \<Rightarrow> f64 option \<Rightarrow> (py py_item list, py py_item list) rt \<Rightarrow>
     (py py_item list, py py_item list) awaitable outcome \<times> (py py_item list, py py_item list) rt"
where
  "wait_connected_many_async ready eca chans timeout =
     call_async Inr ready (joined_with (ca_join_error eca) (wait_futs eca chans timeout))"

definition ca_get_many_async ::
  "bool \<Rightarrow> py_lib \<Rightarrow> value_lib \<Rightarrow> eca_lib \<Rightarrow> ('h ca_chan \<times> string) list \<Rightarrow> u16 option \<Rightarrow> u16 \<Rightarrow> bool \<Rightarrow> i64 \<Rightarrow>
     f64 option \<Rightarrow> (ca_snapshot py_item list, ca_snapshot py_item list) rt \<Rightarrow>
     (ca_snapshot py_item list, ca_snapshot py_item list) awaitable outcome \<times>
       (ca_snapshot py_item list, ca_snapshot py_item list) rt"
where
  "ca_get_many_async ready L V eca chans dbr form enum_as_string cnt timeout =
     call_async Inr ready (joined_with (ca_join_error eca)
       (get_futs L V eca chans \<lparr>gr_dbr = dbr, gr_form = form, gr_enum_as_string = enum_as_string\<rparr> cnt timeout))"

definition put_many_async ::
  "bool \<Rightarrow> py_lib \<Rightarrow> eca_lib \<Rightarrow> 'h ca_chan list \<Rightarrow> py list \<Rightarrow> bool \<Rightarrow> f64 option \<Rightarrow>
     (py py_item list, py py_item list) rt \<Rightarrow>
     (py py_item list, py py_item list) awaitable outcome \<times> (py py_item list, py py_item list) rt"
where
  "put_many_async ready L eca chans vals wait timeout =
     (case put_futs L eca chans vals wait timeout of
        Inl e \<Rightarrow> refused e
      | Inr puts \<Rightarrow> call_async Inr ready (joined_with (ca_join_error eca) (map snd puts)))"

text \<open>What a pull of a drain came to is the argument; the drain itself is theory \<open>Drain\<close>.\<close>

definition ca_events_recv ::
  "(connection_event option \<Rightarrow> 'v res) \<Rightarrow> eca_lib \<Rightarrow> f64 option \<Rightarrow> (recv_error + rs_connection_event) option future \<Rightarrow> 'v outcome"
where
  "ca_events_recv conv eca timeout pulled = called conv (events_recv eca timeout pulled)"

definition ca_events_recv_async ::
  "(connection_event option \<Rightarrow> 'v res) \<Rightarrow> bool \<Rightarrow> eca_lib \<Rightarrow> f64 option \<Rightarrow>
     (recv_error + rs_connection_event) option future \<Rightarrow> (connection_event option, 'v) rt \<Rightarrow>
     (connection_event option, 'v) awaitable outcome \<times> (connection_event option, 'v) rt"
where
  "ca_events_recv_async conv ready eca timeout pulled = call_async conv ready (events_recv eca timeout pulled)"

definition ca_sub_recv ::
  "('s option \<Rightarrow> 'v res) \<Rightarrow> eca_lib \<Rightarrow> (string \<Rightarrow> 'w \<Rightarrow> 's res) \<Rightarrow> string \<Rightarrow> f64 option \<Rightarrow> (rs_ca_error + 'w) option future \<Rightarrow>
     'v outcome"
where
  "ca_sub_recv conv eca snap name timeout pulled = called conv (sub_recv eca snap name timeout pulled)"

definition ca_sub_recv_async ::
  "('s option \<Rightarrow> 'v res) \<Rightarrow> bool \<Rightarrow> eca_lib \<Rightarrow> (string \<Rightarrow> 'w \<Rightarrow> 's res) \<Rightarrow> string \<Rightarrow> f64 option \<Rightarrow>
     (rs_ca_error + 'w) option future \<Rightarrow> ('s option, 'v) rt \<Rightarrow> ('s option, 'v) awaitable outcome \<times> ('s option, 'v) rt"
where
  "ca_sub_recv_async conv ready eca snap name timeout pulled =
     call_async conv ready (sub_recv eca snap name timeout pulled)"

definition ca_sub_recv_batch ::
  "('s list option \<Rightarrow> 'v res) \<Rightarrow> eca_lib \<Rightarrow> (string \<Rightarrow> 'w \<Rightarrow> 's res) \<Rightarrow> string \<Rightarrow> f64 option \<Rightarrow>
     (rs_ca_error + 'w list option) future \<Rightarrow> 'v outcome"
where
  "ca_sub_recv_batch conv eca snap name timeout pulled = called conv (sub_recv_batch eca snap name timeout pulled)"

definition ca_sub_recv_batch_async ::
  "('s list option \<Rightarrow> 'v res) \<Rightarrow> bool \<Rightarrow> eca_lib \<Rightarrow> (string \<Rightarrow> 'w \<Rightarrow> 's res) \<Rightarrow> string \<Rightarrow> f64 option \<Rightarrow>
     (rs_ca_error + 'w list option) future \<Rightarrow> ('s list option, 'v) rt \<Rightarrow>
     ('s list option, 'v) awaitable outcome \<times> ('s list option, 'v) rt"
where
  "ca_sub_recv_batch_async conv ready eca snap name timeout pulled =
     call_async conv ready (sub_recv_batch eca snap name timeout pulled)"

definition ca_hub_recv_batch ::
  "((u32 \<times> u8 \<times> 's payload) list option \<Rightarrow> 'v res) \<Rightarrow> eca_lib \<Rightarrow> (string \<Rightarrow> 'w \<Rightarrow> 's res) \<Rightarrow> f64 option \<Rightarrow>
     'w item list option future \<Rightarrow> 'v outcome"
where
  "ca_hub_recv_batch conv eca snap timeout pulled = called conv (hub_recv_batch eca snap timeout pulled)"

definition ca_hub_recv_batch_async ::
  "((u32 \<times> u8 \<times> 's payload) list option \<Rightarrow> 'v res) \<Rightarrow> bool \<Rightarrow> eca_lib \<Rightarrow> (string \<Rightarrow> 'w \<Rightarrow> 's res) \<Rightarrow> f64 option \<Rightarrow>
     'w item list option future \<Rightarrow> ((u32 \<times> u8 \<times> 's payload) list option, 'v) rt \<Rightarrow>
     ((u32 \<times> u8 \<times> 's payload) list option, 'v) awaitable outcome \<times> ((u32 \<times> u8 \<times> 's payload) list option, 'v) rt"
where
  "ca_hub_recv_batch_async conv ready eca snap timeout pulled =
     call_async conv ready (hub_recv_batch eca snap timeout pulled)"

section \<open>Pausing a subscription\<close>

text \<open>
  \<open>pause\<close> and \<open>resume\<close> reach the handle through the slot of the drain, so they wait as long as a pull holds it.
  \<open>pause\<close> and \<open>resume\<close> of the library's handle are parameters.
\<close>

definition on_handle :: "('h \<Rightarrow> 'h) \<Rightarrow> eca_lib \<Rightarrow> (('h, 'w) ca_monitor, 'r) drain \<Rightarrow> unit outcome \<times> (('h, 'w) ca_monitor, 'r) drain" where
  "on_handle f eca s =
     (if lock s \<noteq> None then (Waiting, s)
      else case drain_with (ECA_INTERNAL eca) (handle_update f) s of
             Inl e \<Rightarrow> (Finished (Inl e), s)
           | Inr m \<Rightarrow> (Finished (Inr ()), s\<lparr>slot := Some m\<rparr>))"

definition ca_sub_pause ::
  "('h \<Rightarrow> 'h) \<Rightarrow> eca_lib \<Rightarrow> (('h, 'w) ca_monitor, 'r) drain \<Rightarrow> unit outcome \<times> (('h, 'w) ca_monitor, 'r) drain"
where
  "ca_sub_pause pause eca s = on_handle pause eca s"

definition ca_sub_resume ::
  "('h \<Rightarrow> 'h) \<Rightarrow> eca_lib \<Rightarrow> (('h, 'w) ca_monitor, 'r) drain \<Rightarrow> unit outcome \<times> (('h, 'w) ca_monitor, 'r) drain"
where
  "ca_sub_resume resume eca s = on_handle resume eca s"

text \<open>With nobody pulling they act at once; after a close they raise; the stash is left alone.\<close>

lemma on_handle_free:
  "lock s = None \<Longrightarrow> slot s = Some m \<Longrightarrow>
     on_handle f eca s = (Finished (Inr ()), s\<lparr>slot := Some (m\<lparr>handle := f (handle m)\<rparr>)\<rparr>)"
  "lock s = None \<Longrightarrow> slot s = None \<Longrightarrow> fst (on_handle f eca s) = Finished (Inl (CaError (Msg ''closed'' []) (ECA_INTERNAL eca)))"
  by (simp_all add: on_handle_def drain_with_def)

text \<open>
  While a \<open>recv\<close> is parked on a handle that yields nothing, which is what a paused one does, \<open>resume\<close> cannot get at
  the handle: it waits until the \<open>recv\<close> is given up or the subscription is closed.
\<close>

lemma parked_on_quiet_handle:
  assumes "drain_steps F s t" and "drain_inv s" "pcs s i = PullParked" "slot s = Some m" and "\<And>r m'. \<not> F m r m'"
  shows "pcs t i = PullParked \<and> slot t = Some m \<or> pcs t i = PullDropped \<or> closed t"
  using assms(1)
proof (induction rule: rtranclp_induct)
  case (step t u)
  have inv: "drain_inv t" by (rule drain_steps_inv [OF step.hyps(1) assms(2)])
  have one: "j = i" if "pcs t i = PullParked" "holds_lock (pcs t j)" for j
    using inv_holder [OF inv that(2)] inv_holder [OF inv, of i] that(1) by simp
  moreover have "lock t \<noteq> None" if "pcs t i = PullParked"
    using inv_holder [OF inv, of i] that by simp
  ultimately show ?case
    using step.hyps(2) step.IH assms(5) by (elim drain_stepE) (auto split: if_splits)
qed (use assms(3,4) in simp)

lemma resume_waits_for_recv:
  assumes "drain_steps F (drain_new m0) s" and "pcs s i = PullParked" "slot s = Some m" "\<And>r m'. \<not> F m r m'"
    and "drain_steps F s t" "\<not> closed t" "pcs t i \<noteq> PullDropped"
  shows "ca_sub_resume resume eca t = (Waiting, t)"
proof -
  have inv: "drain_inv s" "drain_inv t"
    using reachable_inv [OF assms(1)] drain_steps_inv [OF assms(5)] by blast+
  from parked_on_quiet_handle [OF assms(5) inv(1) assms(2-4)] assms(6,7) have "holds_lock (pcs t i)" by auto
  with inv_holder [OF inv(2)] show ?thesis by (simp add: ca_sub_resume_def on_handle_def)
qed

section \<open>pvAccess\<close>

definition pva_get_async ::
  "(string \<times> root \<Rightarrow> 'v res) \<Rightarrow> bool \<Rightarrow> (field_desc \<Rightarrow> nat) \<Rightarrow> (field_desc \<Rightarrow> string list \<Rightarrow> nat set) \<Rightarrow>
     (string \<Rightarrow> string + 'rq) \<Rightarrow> ('rq, 'op) pva_client \<Rightarrow> string \<Rightarrow> string option \<Rightarrow> f64 option \<Rightarrow>
     (string \<times> root, 'v) rt \<Rightarrow> (string \<times> root, 'v) awaitable outcome \<times> (string \<times> root, 'v) rt"
where
  "pva_get_async conv ready tb mcb parse client name request timeout =
     (case parse_request parse request of
        Inl e \<Rightarrow> refused e
      | Inr rq \<Rightarrow> call_async conv ready (do_get tb mcb client name rq timeout))"

definition pva_info :: "(field_desc \<Rightarrow> 'v res) \<Rightarrow> ('rq, 'op) pva_client \<Rightarrow> string \<Rightarrow> f64 option \<Rightarrow> 'v outcome" where
  "pva_info conv client name timeout = called conv (do_info client name timeout)"

definition pva_info_async ::
  "(field_desc \<Rightarrow> 'v res) \<Rightarrow> bool \<Rightarrow> ('rq, 'op) pva_client \<Rightarrow> string \<Rightarrow> f64 option \<Rightarrow>
     (field_desc, 'v) rt \<Rightarrow> (field_desc, 'v) awaitable outcome \<times> (field_desc, 'v) rt"
where
  "pva_info_async conv ready client name timeout = call_async conv ready (do_info client name timeout)"

definition pva_rpc_async ::
  "((string \<times> root) option \<Rightarrow> 'v res) \<Rightarrow> bool \<Rightarrow> (string \<Rightarrow> string + 'rq) \<Rightarrow> ('rq, 'op) pva_client \<Rightarrow> string \<Rightarrow>
     string \<times> root \<Rightarrow> string option \<Rightarrow> f64 option \<Rightarrow>
     ((string \<times> root) option, 'v) rt \<Rightarrow> ((string \<times> root) option, 'v) awaitable outcome \<times> ((string \<times> root) option, 'v) rt"
where
  "pva_rpc_async conv ready parse client name v request timeout =
     (case snapshot (fst v) (snd v) of
        Inl e \<Rightarrow> refused e
      | Inr (desc, field, _) \<Rightarrow>
          (case parse_request parse request of
             Inl e \<Rightarrow> refused e
           | Inr rq \<Rightarrow> call_async conv ready (do_rpc client name desc field rq timeout)))"

definition pva_connect :: "(string \<Rightarrow> 'v res) \<Rightarrow> ('rq, 'op) pva_client \<Rightarrow> string \<Rightarrow> f64 option \<Rightarrow> 'v outcome" where
  "pva_connect conv client name timeout = called conv (do_connect client name timeout)"

definition pva_connect_async ::
  "(string \<Rightarrow> 'v res) \<Rightarrow> bool \<Rightarrow> ('rq, 'op) pva_client \<Rightarrow> string \<Rightarrow> f64 option \<Rightarrow>
     (string, 'v) rt \<Rightarrow> (string, 'v) awaitable outcome \<times> (string, 'v) rt"
where
  "pva_connect_async conv ready client name timeout = call_async conv ready (do_connect client name timeout)"

text \<open>The batch of a monitor hub; the hub is the one the ids are taken from when the pull is done.\<close>

type_synonym pva_batch = "(u32 \<times> u8 \<times> pva_payload) list option"

definition pva_hub_recv_batch ::
  "(pva_batch \<Rightarrow> 'v res) \<Rightarrow> f64 option \<Rightarrow> u32 list option future \<Rightarrow> pva_hub \<Rightarrow> 'v outcome \<times> pva_hub"
where
  "pva_hub_recv_batch conv timeout pulled h = apfst (called conv) (finish_batch (pva_bounded timeout pulled) h)"

definition pva_hub_recv_batch_async ::
  "(pva_batch \<Rightarrow> 'v res) \<Rightarrow> bool \<Rightarrow> f64 option \<Rightarrow> u32 list option future \<Rightarrow> pva_hub \<Rightarrow>
     (pva_batch, 'v) rt \<Rightarrow> ((pva_batch, 'v) awaitable outcome \<times> (pva_batch, 'v) rt) \<times> pva_hub"
where
  "pva_hub_recv_batch_async conv ready timeout pulled h s =
     apfst (\<lambda>out. call_async conv ready out s) (finish_batch (pva_bounded timeout pulled) h)"

section \<open>The queues of the servers\<close>

text \<open>An event comes with the token of its queue; the queue itself is theory \<open>WorkQueue\<close>.\<close>

type_synonym ('tok, 'op) py_event = "('tok \<times> string \<times> 'op option) option"

definition ca_queue_recv ::
  "(('tok, 'op) py_event \<Rightarrow> 'v res) \<Rightarrow> ('tok \<times> 'op ca_event) option future \<Rightarrow> 'v outcome"
where
  "ca_queue_recv conv pulled =
     called conv (called (\<lambda>ev. Inr (map_option (\<lambda>(tok, e). ca_event_to_py tok e) ev)) (block_on pulled))"

definition ca_queue_recv_async ::
  "(('tok, 'op) py_event \<Rightarrow> 'v res) \<Rightarrow> bool \<Rightarrow> ('tok \<times> 'op ca_event) option future \<Rightarrow>
     (('tok, 'op) py_event, 'v) rt \<Rightarrow> (('tok, 'op) py_event, 'v) awaitable outcome \<times> (('tok, 'op) py_event, 'v) rt"
where
  "ca_queue_recv_async conv ready pulled =
     call_async conv ready (called (\<lambda>ev. Inr (map_option (\<lambda>(tok, e). ca_event_to_py tok e) ev)) (block_on pulled))"

definition pva_queue_recv ::
  "(('tok, pva_operation) py_event \<Rightarrow> 'v res) \<Rightarrow> ('tok \<times> pva_event) option future \<Rightarrow> 'v outcome"
where
  "pva_queue_recv conv pulled =
     called conv (called (\<lambda>ev. Inr (map_option (\<lambda>(tok, e). pva_event_to_py tok e) ev)) (block_on pulled))"

definition pva_queue_recv_async ::
  "(('tok, pva_operation) py_event \<Rightarrow> 'v res) \<Rightarrow> bool \<Rightarrow> ('tok \<times> pva_event) option future \<Rightarrow>
     (('tok, pva_operation) py_event, 'v) rt \<Rightarrow>
     (('tok, pva_operation) py_event, 'v) awaitable outcome \<times> (('tok, pva_operation) py_event, 'v) rt"
where
  "pva_queue_recv_async conv ready pulled =
     call_async conv ready (called (\<lambda>ev. Inr (map_option (\<lambda>(tok, e). pva_event_to_py tok e) ev)) (block_on pulled))"

section \<open>Refused arguments\<close>

text \<open>
  What is refused before there is a future raises the same exception in both forms, and the runtime
  never hears of it; what is not refused is one future in both.
\<close>

lemma put_forms:
  "ca_put_async conv ready L eca ch val wait timeout =
     (case ca_from_py L val of
        Inl e \<Rightarrow> refused e | Inr _ \<Rightarrow> call_async conv ready (snd (ca_channel_put L eca ch val wait timeout)))"
  "ca_from_py L val = Inl e \<Longrightarrow> snd (ca_channel_put L eca ch val wait timeout) = Finished (Inl e)"
  by (simp_all add: ca_put_async_def ca_channel_put_def split: sum.split)

lemma put_many_forms:
  "put_many_async ready L eca chans vals wait timeout =
     (case put_futs L eca chans vals wait timeout of
        Inl e \<Rightarrow> refused e | Inr _ \<Rightarrow> call_async Inr ready (snd (put_many L eca chans vals wait timeout)))"
  "put_futs L eca chans vals wait timeout = Inl e \<Longrightarrow> snd (put_many L eca chans vals wait timeout) = Finished (Inl e)"
  by (simp_all add: put_many_async_def put_many_def split: sum.split)

lemma pva_rpc_forms:
  assumes "pva_rpc parse client name v request timeout = out" and "snapshot (fst v) (snd v) = Inr x"
    and "parse_request parse request = Inr rq"
  shows "pva_rpc_async conv ready parse client name v request timeout = call_async conv ready out"
  using assms by (auto simp: pva_rpc_def pva_rpc_async_def split: prod.splits)

end
