(* ===== verification/PvDict.thy ===== *)
theory PvDict
  imports PvAssign PvType
begin

text \<open>
  \<open>Value\<close> and \<open>Type\<close> of \<open>src/src/pva/value.rs\<close> as Python mappings: \<open>in\<close>, \<open>len\<close>, iteration, and what these have
  to do with \<open>keys\<close>, \<open>items\<close> and indexing; a \<open>Type\<close> compared and called. How many members a descriptor
  counts (\<open>FieldDesc::field_count\<close>) and the text of a field (\<open>render_value\<close>) are the library's.
\<close>

section \<open>\<open>Value\<close>\<close>

definition value_full :: "string \<Rightarrow> string \<Rightarrow> string" where
  "value_full pre key = join pre key"

definition value_getitem :: "py_lib \<Rightarrow> string \<Rightarrow> root \<Rightarrow> string \<Rightarrow> py res" where
  "value_getitem L pre r key = value_item L pre r key"

definition value_contains :: "string \<Rightarrow> root \<Rightarrow> string \<Rightarrow> bool" where
  "value_contains pre r key \<longleftrightarrow> has pre r key"

definition value_iter :: "string \<Rightarrow> root \<Rightarrow> py list res" where
  "value_iter pre r = map_res (map PStr) (keys pre r)"

definition value_len :: "(field_desc \<Rightarrow> nat) \<Rightarrow> string \<Rightarrow> root \<Rightarrow> nat" where
  "value_len field_count pre r = (case desc_at (r_desc r) pre of None \<Rightarrow> 0 | Some d \<Rightarrow> field_count d)"

definition value_tostr :: "(pv_field \<Rightarrow> string) \<Rightarrow> string \<Rightarrow> root \<Rightarrow> string res" where
  "value_tostr render pre r = map_res render (ok_or (field_at (r_field r) pre) path_vanished)"

definition value_str :: "(pv_field \<Rightarrow> string) \<Rightarrow> string \<Rightarrow> root \<Rightarrow> string res" where
  "value_str render pre r = value_tostr render pre r"

section \<open>\<open>Type\<close>\<close>

definition type_contains :: "field_desc \<Rightarrow> string \<Rightarrow> bool" where
  "type_contains d key \<longleftrightarrow> type_has d key"

definition type_len :: "(field_desc \<Rightarrow> nat) \<Rightarrow> field_desc \<Rightarrow> nat" where
  "type_len field_count d = field_count d"

definition type_iter :: "field_desc \<Rightarrow> py list res" where
  "type_iter d = map_res (map PStr) (type_keys d)"

definition type_aspy :: "field_desc \<Rightarrow> py" where
  "type_aspy d = desc_to_py d"

definition type_call ::
  "py_lib \<Rightarrow> (field_desc \<Rightarrow> nat) \<Rightarrow> (field_desc \<Rightarrow> string \<Rightarrow> nat option) \<Rightarrow> nat \<Rightarrow> field_desc \<Rightarrow> py option \<Rightarrow>
     root run"
where
  "type_call L tb bp n d initial = value_create L tb bp n d initial"

definition type_eq :: "field_desc \<Rightarrow> py \<Rightarrow> bool" where
  "type_eq d other \<longleftrightarrow> (case other of PType d' \<Rightarrow> d' = d | _ \<Rightarrow> False)"

section \<open>The laws of a mapping\<close>

definition counts_members :: "(field_desc \<Rightarrow> nat) \<Rightarrow> bool" where
  "counts_members field_count \<longleftrightarrow> (\<forall>sid fs. field_count (DStructure sid fs) = length fs)"

text \<open>
  A structure view is a mapping from its member names: \<open>items\<close> never fails, iteration and \<open>len\<close> agree with it, no
  key comes twice, and a name is \<open>in\<close> the view exactly when indexing gives the value \<open>items\<close> has for it.
\<close>

lemma value_is_mapping:
  assumes "conforms (r_desc r) (r_field r)" "readable_desc (r_desc r)" "readable_field (r_field r)" "wf_desc (r_desc r)"
    and "desc_at (r_desc r) pre = Some (DStructure sid fs)" and "counts_members field_count"
  shows "\<exists>kvs. value_items L pre r = Inr kvs \<and> value_iter pre r = Inr (map (PStr \<circ> fst) kvs) \<and>
    distinct (map fst kvs) \<and> value_len field_count pre r = length kvs \<and>
    (\<forall>k x. plain_name k \<longrightarrow> (value_contains pre r k \<and> value_getitem L pre r k = Inr x \<longleftrightarrow> (k, x) \<in> set kvs))"
proof -
  let ?ks = "map fst fs"
  have keys: "keys pre r = Inr ?ks" using assms(5) by (simp add: keys_def)
  have wf: "wf_desc (DStructure sid fs)"
    using walk_wf [OF assms(4) assms(5) [unfolded desc_at_def]] by blast
  then have names: "distinct ?ks" "\<And>k. k \<in> set ?ks \<Longrightarrow> plain_name k" by (auto simp: list_all_iff)
  have mem: "value_contains pre r k \<longleftrightarrow> k \<in> set ?ks" if "plain_name k" for k
    using dsc.at_member [OF that, of "r_desc r" pre] assms(5)
    by (auto simp: value_contains_def has_def desc_child_map_of map_of_eq_None_iff image_iff simp del: desc_child.simps(1))
  have "\<exists>x. value_item L pre r k = Inr x" if k: "k \<in> set ?ks" for k
  proof -
    from mem [OF names(2) [OF k]] k obtain d where d: "desc_at (r_desc r) (join pre k) = Some d"
      by (auto simp: value_contains_def has_def)
    from conforming_at [OF assms(1-3) d] obtain f where
      f: "field_at (r_field r) (join pre k) = Some f" "conforms d f" "readable_desc d" "readable_field f" .
    with field_to_py_total [OF f(2-4), of L] d show ?thesis by (auto simp: value_item_def Let_def)
  qed
  then obtain val where val: "\<And>k. k \<in> set ?ks \<Longrightarrow> value_item L pre r k = Inr (val k)" by metis
  have "collect_res (map (\<lambda>k. map_res (Pair k) (value_item L pre r k)) ks) = Inr (map (\<lambda>k. (k, val k)) ks)"
    if "set ks \<subseteq> set ?ks" for ks
    using that by (induction ks) (simp_all add: val)
  from this [of ?ks] have items: "value_items L pre r = Inr (map (\<lambda>k. (k, val k)) ?ks)"
    by (simp add: value_items_def keys del: map_map)
  have "value_contains pre r k \<and> value_getitem L pre r k = Inr x \<longleftrightarrow> (k, x) \<in> set (map (\<lambda>k. (k, val k)) ?ks)"
    if "plain_name k" for k x
  proof -
    have "(k, x) \<in> set (map (\<lambda>k. (k, val k)) ?ks) \<longleftrightarrow> k \<in> set ?ks \<and> x = val k" by (auto simp del: map_map)
    then show ?thesis unfolding mem [OF that] value_getitem_def by (metis val sum.inject(2))
  qed
  with items names(1) assms(5,6) show ?thesis
    by (intro exI [of _ "map (\<lambda>k. (k, val k)) ?ks"])
      (simp add: value_iter_def keys value_len_def counts_members_def o_def)
qed

text \<open>
  Beyond the names of its members a view also has every dotted path and, the empty key, itself, so \<open>k in v\<close> is
  true of more keys than iteration lists.
\<close>

lemma contains_itself: "desc_at (r_desc r) pre \<noteq> None \<Longrightarrow> value_contains pre r []"
  by (simp add: value_contains_def has_def)

text \<open>A type is the mapping of the values made from it: same keys, same length, same membership.\<close>

lemma type_matches_value:
  "r_desc r = d \<Longrightarrow> type_contains d key = value_contains [] r key"
  "r_desc r = DStructure sid fs \<Longrightarrow> type_iter (DStructure sid fs) = value_iter [] r"
  "r_desc r = d \<Longrightarrow> type_len field_count d = value_len field_count [] r"
  by (simp_all add: type_contains_def type_has_def value_contains_def has_def type_iter_def type_keys_def type_fields_def
      value_iter_def keys_def type_len_def value_len_def dsc.at_root)

text \<open>A type equals itself read back from its spec, and nothing that is no type.\<close>

lemma type_eq_iff: "type_eq d other \<longleftrightarrow> other = PType d"
  by (cases other) (auto simp: type_eq_def)

text \<open>Calling a type without a value gives its default, unmarked.\<close>

lemma type_call_default: "type_call L tb bp n d None = Ok \<lparr>r_desc = d, r_field = default_for L d, r_marks = {}\<rparr>"
  by (simp add: type_call_def value_create_def)

end
