(* ===== verification/Spec2Isabelle.thy ===== *)
theory Spec2Isabelle
  imports PvCopy WorkQueue Drain Errors CaMonitorHub CaMonitor CaServing CaChannel PvaServing PvaFollow Runtime PyCalls PvDict
begin

text \<open>
  A model of repics (\<open>src/\<close>), the Python extension for EPICS Channel Access and pvAccess.

  The program is a crate of \<open>pyo3\<close> classes, \<open>src/src/\<close>, over client and server libraries that are
  not part of the repository. Its own logic is the boundary: values between Python and the wire, monitors
  drained in batches through hubs, puts in two phases, served PVs whose writes go to Python handlers, and
  the hand-over of futures to asyncio. What is modelled is that logic, on the values the code has; what a library does
  is a parameter, and what the code relies on of it a hypothesis or a locale.

  \<^bold>\<open>Shared theories.\<close>
  \<^item> \<open>Prelude\<close>: machine integers, Python exceptions as values (\<open>pyexc\<close>), \<open>Result\<close> as a sum (\<open>res\<close>), dotted
    paths, the string functions of the standard library the code calls.
  \<^item> \<open>Errors\<close> (\<open>error.rs\<close>, \<open>pva/error.rs\<close>, \<open>runtime.rs\<close>): the mapping of library errors to exceptions, deadlines. An
    awaited operation is \<open>NotInTime\<close> or ready with a result; its outcome is finished, panicked, or still waiting.
  \<^item> \<open>NetAddr\<close>: addresses and their text as the standard library prints them, UTF-8 validity of a name, and the lemmas
    that printed ports and addresses are read back whole.

  \<^bold>\<open>pvData values\<close> (\<open>pva/value.rs\<close>). \<open>PvData\<close> has descriptors, fields and the walks along a path, \<open>PvBits\<close> the bit
  numbering of a structure, \<open>PvConform\<close> the typing invariant \<open>conforms\<close>, \<open>PvMarks\<close> and \<open>PvValue\<close> the changed marks with the operations
  of \<open>Value\<close> on them. \<open>PyObj\<close> is Python's objects as the code tests for them, \<open>PvFloat\<close> the IEEE conversions of Rust's \<open>as\<close>.
  \<open>PvScalar\<close>, \<open>PvType\<close>, \<open>PvFieldPy\<close> and \<open>PvAssign\<close> translate reading and assigning from Python, \<open>PvDict\<close> values and
  types as mappings; \<open>PvCopy\<close> composes them. A \<open>Value\<close> is a path prefix and a root (type, field, marks), as in the code; \<open>Arc\<close> sharing is not
  modelled, so a \<open>Value\<close> assigned to a member of its own root (which deadlocks, see the findings) is left out. \<open>assign\<close>,
  \<open>build\<close> and the union and variant builders are mutually recursive in the code; here \<open>assign\<close> has a depth, at 0 it
  overflows, and the depth of the type (\<open>assign_depth\<close>) is proved to be enough for objects without a \<open>Value\<close>. Shown:
  assigning keeps values well typed and changes nothing beside the path, reading never fails on a typed value,
  types and scalars survive the round trip, numbers wrap as Rust casts do, marks are reported, expanded and cleared
  exactly, and a put sends exactly the marked leaves.

  \<^bold>\<open>Channel Access client.\<close> \<open>CaValue\<close> (\<open>value.rs\<close>) converts \<open>EpicsValue\<close> to Python and back. \<open>CaChannel\<close> (\<open>ca.rs\<close>) has
  reading, writing, waiting, subscribing and the forms over many channels: each call returns its outcome beside the
  requests it sent, so that what is never sent can be stated. \<open>Drain\<close> (\<open>ca.rs\<close>) is the receiver shared by pulls
  and close, as a step relation over any number of them. \<open>CaMonitor\<close> (\<open>ca.rs\<close>) is a subscription with its stash and
  batches. \<open>CaHub\<close> (\<open>hub.rs\<close>) is the task of one hub subscription as a reactive step function, with its
  unsent items in \<open>sub_todo\<close>; \<open>CaMonitorHub\<close> is the hub over all tasks with its bounded queue.

  \<^bold>\<open>Channel Access server\<close> (\<open>ca_server.rs\<close>). \<open>WorkQueue\<close> is the queue of events for Python, which the pvAccess server
  has too. \<open>CaServer\<close> has operations, the life of a served PV (closed, held by the entry, served from the database),
  the write hook, provider and server; \<open>CaServing\<close> the Python side over the conversions of \<open>CaValue\<close>.

  \<^bold>\<open>pvAccess client and server.\<close> \<open>PvaClient\<close> (\<open>pva/client.rs\<close>): requests, settings, the awaited operations, puts begun
  and committed. \<open>PvaHub\<close> (\<open>pva/hub.rs\<close>): queues that squash, the decoder, the signalling of ready monitors,
  as a step relation that interleaves library callbacks with Python. \<open>PvaServer\<close> (\<open>pva/server.rs\<close>): operations answered once, served
  PVs with marks and subscribers, the callbacks of the source, channel accounting, settings; \<open>PvaServing\<close> the Python side, the
  server object and its \<open>conf\<close>.

  \<^bold>\<open>Runtime\<close> (\<open>runtime.rs\<close>): futures handed to asyncio with their cancellation, the in-flight count, joining many
  tasks. \<open>PyCalls\<close> has every method that waits in its two forms, blocking on its future and handing it to asyncio, and
  that they end alike.

  \<^bold>\<open>Interfaces.\<close> A contract that several parts share is a locale, interpreted where it is provided: \<open>descend\<close> (walking
  and writing along a path, for descriptors and fields), \<open>stoppable\<close> (no answer after a stop, for \<open>Drain\<close> and \<open>WorkQueue\<close>),
  the polled handle of a monitor, \<open>take_once\<close> (an operation is answered once, for both servers), \<open>pv_table\<close> (a provider,
  for both), \<open>pv_database\<close>, \<open>shared_pv\<close>, \<open>delta_pv\<close> and \<open>shared_source\<close> (what is relied on of the server libraries),
  \<open>overlaying\<close> (merging a partial value into the one before).

  \<^bold>\<open>Concurrency.\<close> Components with several threads (\<open>Drain\<close>, \<open>WorkQueue\<close>, both hubs, \<open>Runtime\<close>) are step relations
  whose steps are the code's critical sections and awaits; their properties hold in every reachable state. The other
  operations run under one lock and are functions of the state. Ids are 32-bit counters that wrap; where an id has to
  be unique the hypothesis says how many were given out.

  \<^bold>\<open>Fuel.\<close> Only \<open>assign\<close> and what calls it has a depth. All other recursion terminates by its data.

  \<^bold>\<open>Not modelled.\<close> The registration of classes, constants and exceptions with \<open>pyo3\<close> (\<open>lib.rs\<close>, \<open>pva/mod.rs\<close>), the tracing setup,
  the texts of \<open>repr\<close> and \<open>str\<close>, the memory shared with numpy, reference counts, the seconds of a snapshot's \<open>timestamp\<close>,
  and the methods that only hand their arguments on to a library, such as the \<open>ChannelSource\<close> callbacks that
  \<open>PySource\<close> does not override, and the context managers.

  \<^bold>\<open>From end to end.\<close> Two properties compose the parts above. \<open>PvaFollow\<close> follows a post from the
  served PV through the subscriber's ring, the connection, the decoder and the squashing queue to Python:
  a monitor ends with what the PV stores, however much was merged on the way. This theory follows a put the other
  way: what a script assigns to a value is what its put sends, what the source accepts, what the handler posts
  and what every subscriber is told. Both rest on \<open>PvOverlay\<close>, the algebra of partial updates: a value with a set
  of changed bits, overlaid on the value before it.
\<close>

section \<open>What a client put sends\<close>

text \<open>A run of assignments to a value, with what each of them did.\<close>

fun assign_items ::
  "py_lib \<Rightarrow> (field_desc \<Rightarrow> nat) \<Rightarrow> (field_desc \<Rightarrow> string \<Rightarrow> nat option) \<Rightarrow> nat \<Rightarrow> (string \<times> py) list \<Rightarrow> root \<Rightarrow>
     root \<times> unit run list"
where
  "assign_items L tb bp n [] r = (r, [])"
| "assign_items L tb bp n ((key, obj) # kos) r =
     (case setitem L tb bp n [] r key obj of (r1, out) \<Rightarrow>
        (case assign_items L tb bp n kos r1 of (r2, outs) \<Rightarrow> (r2, out # outs)))"

definition at_or_below :: "string \<Rightarrow> string \<Rightarrow> bool" where
  "at_or_below key q \<longleftrightarrow> prefix (segments key) (segments q)"

lemma bp_inject:
  assumes "total_bits_ok tb" "bit_for_path_ok tb bp" "clean_path p" "clean_path q"
    and "bp d p = Some b" "bp d q = Some b"
  shows "segments p = segments q"
proof -
  have w: "\<exists>c. walk desc_child d (segments x) = Some c" "path_bit tb d 0 (segments x) = Some b"
    if "clean_path x" "bp d x = Some b" for x
    using that assms(2) path_bit_None [of tb d 0 "segments x"] by (auto simp: bp_path)
  from w [OF assms(3,5)] w [OF assms(4,6)] path_bit_inject [OF assms(1)] show ?thesis by blast
qed

lemma assign_leaf_marks:
  assumes "assign L tb n d target obj marks ix = ((f, m), Ok ())" and "\<not> is_structure d"
  shows "ix \<in> m"
proof (cases n)
  case (Suc k)
  have "ix \<in> m'" if "store g x target marks ix = ((f, m'), Ok ())" for g :: "'a \<Rightarrow> pv_field" and x m'
    using that by (cases x) (auto simp: store_def)
  then show ?thesis using assms Suc by (cases d) (auto simp: store_def split: run.splits)
qed (use assms in simp)

lemma setitem_leaf_marked:
  assumes "bit_for_path_ok tb bp" and "setitem L tb bp n [] r key obj = (r', Ok ())"
    and "clean_path key" "desc_at (r_desc r) key = Some d" "\<not> is_structure d"
  shows "bit_marked bp r' key"
proof -
  from bp_defined [OF assms(1,3,4)] obtain ix where ix: "bp (r_desc r) key = Some ix" by blast
  from assms(2,4) ix obtain t f where
    "assign L tb n d t obj (r_marks r) ix = ((f, r_marks r'), Ok ())" "r_desc r' = r_desc r"
    by (auto simp: setitem_def assign_at_def Let_def split: option.splits prod.splits)
  with assign_leaf_marks [OF this(1) assms(5)] ix show ?thesis by (simp add: bit_marked_def)
qed

text \<open>What the marks of a value are after a run of assignments.\<close>

lemma assign_items_marks:
  assumes "lib_types_ok L" "total_bits_ok tb" "bit_for_path_ok tb bp"
    and "wf_desc (r_desc r)" "conforms (r_desc r) (r_field r)"
    and "list_all (\<lambda>(key, _). clean_path key) kos" and "assign_items L tb bp n kos r = (r', outs)"
  shows "r_desc r' = r_desc r \<and> conforms (r_desc r') (r_field r') \<and> r_marks r \<subseteq> r_marks r' \<and> length outs = length kos \<and>
    (\<forall>b \<in> r_marks r' - r_marks r. \<exists>(key, _) \<in> set kos.
      \<exists>q. clean_path q \<and> at_or_below key q \<and> bp (r_desc r) q = Some b) \<and>
    (\<forall>i < length kos. outs ! i = Ok () \<longrightarrow> (\<exists>d. desc_at (r_desc r) (fst (kos ! i)) = Some d \<and> \<not> is_structure d) \<longrightarrow>
      bit_marked bp r' (fst (kos ! i)))"
  using assms(4-)
proof (induction kos arbitrary: r outs)
  case (Cons ko kos)
  obtain key obj where ko: "ko = (key, obj)" by (cases ko)
  obtain r1 out where s: "setitem L tb bp n [] r key obj = (r1, out)" by (metis surj_pair)
  from Cons.prems(4) ko s obtain outs' where rec: "assign_items L tb bp n kos r1 = (r', outs')" "outs = out # outs'"
    by (auto split: prod.splits)
  have key: "clean_path key" using Cons.prems(3) ko by simp
  have kept: "r_desc r1 = r_desc r" "conforms (r_desc r1) (r_field r1)" "r_marks r \<subseteq> r_marks r1"
    "\<And>b. b \<in> r_marks r1 - r_marks r \<Longrightarrow> \<exists>q. clean_path q \<and> at_or_below key q \<and> bp (r_desc r) q = Some b"
    using setitem_keeps [OF assms(1-3) Cons.prems(1,2) _ key, of "[]" n obj] s
    by (auto simp: Let_def at_or_below_def)
  from Cons.IH [of r1 outs'] Cons.prems(1,3) kept(1,2) rec(1) ko
  have IH: "r_desc r' = r_desc r" "conforms (r_desc r') (r_field r')" "r_marks r1 \<subseteq> r_marks r'" "length outs' = length kos"
    "\<And>b. b \<in> r_marks r' - r_marks r1 \<Longrightarrow> \<exists>(key, _) \<in> set kos. \<exists>q. clean_path q \<and> at_or_below key q \<and> bp (r_desc r) q = Some b"
    "\<And>i. i < length kos \<Longrightarrow> outs' ! i = Ok () \<Longrightarrow> \<exists>d. desc_at (r_desc r) (fst (kos ! i)) = Some d \<and> \<not> is_structure d \<Longrightarrow>
      bit_marked bp r' (fst (kos ! i))"
    by auto
  have new: "\<exists>(key, _) \<in> set (ko # kos). \<exists>q. clean_path q \<and> at_or_below key q \<and> bp (r_desc r) q = Some b"
    if "b \<in> r_marks r' - r_marks r" for b
    using that kept(4) [of b] IH(5) [of b] ko by (cases "b \<in> r_marks r1") auto
  have first: "bit_marked bp r' key" if "out = Ok ()" "\<exists>d. desc_at (r_desc r) key = Some d \<and> \<not> is_structure d"
  proof -
    from that s setitem_leaf_marked [OF assms(3) _ key] have "bit_marked bp r1 key" by blast
    with kept(1) IH(1,3) show ?thesis by (auto simp: bit_marked_def split: option.splits)
  qed
  show ?case using IH kept(3) new first ko rec(2) by (auto simp: nth_Cons split: nat.splits)
qed (auto simp: bit_marked_def)

lemma assigned_leaves_sent:
  assumes "lib_types_ok L" "total_bits_ok tb" "bit_for_path_ok tb bp"
    and "wf_desc (r_desc r)" "conforms (r_desc r) (r_field r)" and "r_marks r = {}"
    and "list_all (\<lambda>(key, _). clean_path key) kos" and "assign_items L tb bp n kos r = (r', outs)"
  shows "\<exists>ls. marked_leaves tb [] r' = Inr ls \<and>
    (\<forall>(p, v) \<in> set ls. field_at (r_field r') p = Some v \<and> (\<exists>(key, _) \<in> set kos. prefix (segments key) (segments p))) \<and>
    (\<forall>i < length kos. outs ! i = Ok () \<and> fst (kos ! i) \<noteq> [] \<and>
        (\<exists>d. desc_at (r_desc r) (fst (kos ! i)) = Some d \<and> \<not> is_structure d) \<longrightarrow>
      (\<exists>v. (fst (kos ! i), v) \<in> set ls)) \<and>
    put_leaves tb ([], r') =
      (if ls = [] then Inl (PvaError (Msg ''nothing to put: no field of the Value is marked changed'' [])) else Inr ls)"
proof -
  from assign_items_marks [OF assms(1-5,7,8)] assms(6)
  have r': "r_desc r' = r_desc r" "conforms (r_desc r') (r_field r')"
    and new: "\<And>b. b \<in> r_marks r' \<Longrightarrow> \<exists>(key, _) \<in> set kos. \<exists>q. clean_path q \<and> at_or_below key q \<and> bp (r_desc r) q = Some b"
    and hit: "\<And>i. i < length kos \<Longrightarrow> outs ! i = Ok () \<Longrightarrow> \<exists>d. desc_at (r_desc r) (fst (kos ! i)) = Some d \<and> \<not> is_structure d \<Longrightarrow>
      bit_marked bp r' (fst (kos ! i))"
    by auto
  from marked_leaves_iff [OF assms(3) _ r'(2)] assms(4) r'(1) obtain ls where ls: "marked_leaves tb [] r' = Inr ls"
    "\<And>p v. (p, v) \<in> set ls \<longleftrightarrow> p \<noteq> [] \<and> clean_path p \<and> (\<exists>c. desc_at (r_desc r) p = Some c \<and> \<not> is_structure c) \<and>
      (\<exists>q. clean_path q \<and> bit_marked bp r' q \<and> prefix (segments q) (segments p)) \<and> field_at (r_field r') p = Some v"
    by auto
  have below: "\<exists>(key, _) \<in> set kos. prefix (segments key) (segments p)"
    if q: "clean_path q" "bit_marked bp r' q" "prefix (segments q) (segments p)" for p q
  proof -
    from q(2) r'(1) obtain b where b: "bp (r_desc r) q = Some b" "b \<in> r_marks r'"
      by (auto simp: bit_marked_def split: option.splits)
    from new [OF b(2)] obtain key obj q' where k: "(key, obj) \<in> set kos" "clean_path q'" "at_or_below key q'" "bp (r_desc r) q' = Some b"
      by auto
    from bp_inject [OF assms(2,3) k(2) q(1) k(4) b(1)] k(3) q(3) have "prefix (segments key) (segments p)"
      by (auto simp: at_or_below_def)
    with k(1) show ?thesis by auto
  qed
  have leaf: "\<exists>v. (fst (kos ! i), v) \<in> set ls"
    if i: "i < length kos" "outs ! i = Ok ()" "fst (kos ! i) \<noteq> []"
      and d: "desc_at (r_desc r) (fst (kos ! i)) = Some d" "\<not> is_structure d" for i d
  proof -
    have "clean_path (fst (kos ! i))" using assms(7) i(1) by (auto simp: list_all_iff case_prod_beta)
    moreover have "bit_marked bp r' (fst (kos ! i))" using hit i d by blast
    moreover obtain v where "field_at (r_field r') (fst (kos ! i)) = Some v"
      using conforms_field_at [OF r'(2)] d(1) r'(1) by auto
    ultimately show ?thesis using ls(2) i(3) d by blast
  qed
  have "put_leaves tb ([], r') =
      (if ls = [] then Inl (PvaError (Msg ''nothing to put: no field of the Value is marked changed'' [])) else Inr ls)"
    by (simp add: put_leaves_def ls(1))
  moreover have "\<forall>(p, v) \<in> set ls. field_at (r_field r') p = Some v \<and> (\<exists>(key, _) \<in> set kos. prefix (segments key) (segments p))"
    using ls(2) below by blast
  ultimately show ?thesis using ls(1) leaf by blast
qed

text \<open>
  C5. A put sends what was assigned and nothing else. After any run of assignments to a value that had no
  marks, whatever of them failed, the leaves a put of it sends each hold the value's field and lie at or
  below an assigned key; every leaf that was assigned successfully is among them; and if there are
  none the put is refused.
\<close>

theorem put_sends_what_was_assigned:
  assumes "lib_types_ok L" "total_bits_ok tb" "bit_for_path_ok tb bp"
    and "wf_desc (r_desc r)" "conforms (r_desc r) (r_field r)" and "r_marks r = {}"
    and "list_all (\<lambda>(key, _). clean_path key) kos" and "assign_items L tb bp n kos r = (r', outs)"
  shows "\<exists>ls. marked_leaves tb [] r' = Inr ls \<and>
    (\<forall>(p, v) \<in> set ls. field_at (r_field r') p = Some v \<and> (\<exists>(key, _) \<in> set kos. prefix (segments key) (segments p))) \<and>
    (\<forall>i < length kos. outs ! i = Ok () \<and> fst (kos ! i) \<noteq> [] \<and>
        (\<exists>d. desc_at (r_desc r) (fst (kos ! i)) = Some d \<and> \<not> is_structure d) \<longrightarrow>
      (\<exists>v. (fst (kos ! i), v) \<in> set ls)) \<and>
    put_leaves tb ([], r') =
      (if ls = [] then Inl (PvaError (Msg ''nothing to put: no field of the Value is marked changed'' [])) else Inr ls)"
  using assms by (rule assigned_leaves_sent)

theorem put_sends_what_was_assigned_witness:
  "\<exists>ls v. put_leaves ref_bits ([], fst (assign_items ref_lib ref_bits ref_bit_for_path 5 [(''p.x'', PInt 3)] (point 1 False))) = Inr ls \<and>
     (''p.x'', v) \<in> set ls"
proof -
  have at: "desc_at (r_desc (point 1 False)) ''p.x'' = Some (DScalar StInt)" "clean_path ''p.x''"
    by (simp_all add: point_def point_desc_def desc_at_def clean_path_def segments_def plain_name_def)
  obtain r' out where s: "setitem ref_lib ref_bits ref_bit_for_path 5 [] (point 1 False) ''p.x'' (PInt 3) = (r', out)"
    by (metis surj_pair)
  have "field_at (r_field (point 1 False)) ''p.x'' \<noteq> None"
    using conforms_field_at [OF point_conforms at(1)] by auto
  with s at(1) have out: "out = Ok ()"
    by (auto simp: setitem_def assign_at_def eval_nat_numeral store_def py_to_scalar_def fits_i128_def i128_to_scalar_def Let_def)
  have "wf_desc (r_desc (point 1 False))" "r_marks (point 1 False) = {}"
    by (simp_all add: point_def point_desc_def plain_name_def)
  from put_sends_what_was_assigned [OF ref_lib_types ref_bits_ok ref_bit_for_path_ok this(1) point_conforms this(2),
      of "[(''p.x'', PInt 3)]" 5 r' "[out]"] s at out
  obtain ls v where "(''p.x'', v) \<in> set ls" "put_leaves ref_bits ([], r') = (if ls = [] then
      Inl (PvaError (Msg ''nothing to put: no field of the Value is marked changed'' [])) else Inr ls)"
    by auto
  then show ?thesis using s by (intro exI [of _ ls] exI [of _ v]) auto
qed

section \<open>From a client's script to the served PV\<close>

text \<open>
  What the library sends for the leaves of a put: their bits, and a value that holds their fields.
  The server's side of the library hands both to the source.
\<close>

definition put_delivers ::
  "(field_desc \<Rightarrow> string \<Rightarrow> nat option) \<Rightarrow> field_desc \<Rightarrow> (string \<times> pv_field) list \<Rightarrow> nat set \<Rightarrow> pv_field \<Rightarrow> bool"
where
  "put_delivers bp d ls changes delta \<longleftrightarrow>
     changes = {b. \<exists>(q, _) \<in> set ls. bp d q = Some b} \<and> conforms d delta \<and>
     (\<forall>(q, v) \<in> set ls. field_at delta q = Some v)"

lemma delivered_cover:
  assumes "total_bits_ok tb" "bit_for_path_ok tb bp" and "put_delivers bp d ls changes delta"
    and leaf: "\<forall>(q, v) \<in> set ls. clean_path q \<and> leaf_of d (segments q)" and "clean_path p" "leaf_of d (segments p)"
  shows "cover tb d changes (segments p) \<longleftrightarrow> p \<in> fst ` set ls"
proof
  assume "cover tb d changes (segments p)"
  with assms(3) obtain ts x q v where ts: "prefix ts (segments p)" "path_bit tb d 0 ts = Some x" "(q, v) \<in> set ls" "bp d q = Some x"
    by (auto simp: cover_def covered_def put_delivers_def)
  with leaf have q: "clean_path q" "leaf_of d (segments q)" by auto
  then obtain c where c: "walk desc_child d (segments q) = Some c" by (auto simp: leaf_of_iff)
  have "path_bit tb d 0 (segments q) = Some x" using ts(4) assms(2) q(1) by (simp add: bp_path)
  moreover obtain e where "walk desc_child d ts = Some e"
    using ts(2) path_bit_None [of tb d 0 ts] by fastforce
  ultimately have "segments q = ts" using path_bit_inject [OF assms(1) c _ _ ts(2)] by blast
  with leaf_prefix [OF q(2), of "segments p"] ts(1) assms(6) have "segments q = segments p" by (auto simp: leaf_of_iff)
  with clean_path_inject [OF q(1) assms(5)] ts(3) show "p \<in> fst ` set ls" by force
next
  assume "p \<in> fst ` set ls"
  then obtain v where p: "(p, v) \<in> set ls" by auto
  from assms(6) obtain c where c: "desc_at d p = Some c" by (auto simp: leaf_of_iff desc_at_def)
  from bp_defined [OF assms(2,5) c] obtain b where b: "bp d p = Some b" by blast
  with p assms(3) have "b \<in> changes" by (auto simp: put_delivers_def)
  moreover have "path_bit tb d 0 (segments p) = Some b" using b assms(2,5) by (simp add: bp_path)
  ultimately show "cover tb d changes (segments p)"
    using assms(6) by (auto simp: cover_def covered_def)
qed

text \<open>The source completes the delta from the stored value, the PV merges it in again: the same leaves twice.\<close>

lemma stored_leaves:
  assumes "overlaying tb fill" "delta_pv S tb introspection"
    and "introspection p = Some d" "wf_desc d" "conforms d delta" "conforms d prior" "sp_current S p = Some prior"
    and "sp_post_delta S changes (fill d changes delta prior) p = Inr p'" "sp_current S p' = Some v"
  shows "leaves d v = (\<lambda>ss. if cover tb d changes ss then leaves d delta ss else leaves d prior ss)"
proof -
  note fill = overlaying.fill_conforms [OF assms(1,5,6), of changes] overlaying.fill_leaves [OF assms(1,4,5,6), of changes]
  from delta_pv.post_merges [OF assms(2,8,3,4,7) fill(1) assms(6)] assms(9) fill(2)
  show ?thesis by (auto simp: fun_eq_iff)
qed

text \<open>
  C1. A client's put changes the served PV exactly as its script said. The script assigns to an
  unmarked value of the PV's type, in any way, and commits it; the library carries the leaves over, the
  source accepts the put, and the handler posts the operation's value. Then the put was allowed,
  and either the client is told that the post failed and nothing has changed; or the client is told
  it succeeded, and in the stored value every leaf that was sent has the client's field, each of them at or
  below an assigned key and every successfully assigned leaf among them, while every other leaf is as it was; and
  each live subscriber has one more update, with that value and paths that cover just these leaves.
\<close>

theorem client_put_reaches_pv:
  assumes "lib_types_ok L" "total_bits_ok tb" "bit_for_path_ok tb bp" "overlaying tb fill" "delta_pv S tb introspection"
      "paths_cover tb paths"
    and "sp_current S p0 = None" "list_all typed_op ops" "entry_run ts S paths ops p0 = (e, h)" "pe_opened e = Some (r_desc r)"
    and "conforms (r_desc r) (r_field r)" "r_marks r = {}" "list_all (\<lambda>(key, _). clean_path key) kos"
    and "assign_items L tb bp n kos r = (r', outs)" "put_leaves tb ([], r') = Inr ls"
    and "put_delivers bp (r_desc r) ls changes delta"
    and "put_delta_checked fill denied (\<lambda>a. sp_current S (pe_pv (pvs a))) entries checked (r_desc r) changes delta ctx = Inr (a, op)"
    and "pvs a = e" and "post_and_done ts S paths alive (op\<lparr>op_reply_slot := True\<rparr>) e = (replies, e')"
  shows "ac_write checked \<and>
    (replies = [Inl ''post failed''] \<and> e' = e \<or>
     replies = [Inr None] \<and>
     (\<exists>prior v ps. sp_current S (pe_pv e) = Some prior \<and> sp_current S (pe_pv e') = Some v \<and>
        (\<forall>q. clean_path q \<longrightarrow> leaf_of (r_desc r) (segments q) \<longrightarrow>
           field_at v q = field_at (if q \<in> fst ` set ls then r_field r' else prior) q) \<and>
        (\<forall>q \<in> fst ` set ls. \<exists>(key, _) \<in> set kos. prefix (segments key) (segments q)) \<and>
        (\<forall>i < length kos. outs ! i = Ok () \<and> fst (kos ! i) \<noteq> [] \<and>
            (\<exists>c. desc_at (r_desc r) (fst (kos ! i)) = Some c \<and> \<not> is_structure c) \<longrightarrow> fst (kos ! i) \<in> fst ` set ls) \<and>
        (\<forall>q. clean_path q \<longrightarrow> leaf_of (r_desc r) (segments q) \<longrightarrow>
           (\<exists>k \<in> set ps. prefix (segments k) (segments q)) = (q \<in> fst ` set ls)) \<and>
        pe_subs e' = map (\<lambda>s. s\<lparr>su_posts := su_posts s @ [(v, case su_kind s of SubMarked \<Rightarrow> Some ps | SubPlain \<Rightarrow> None)]\<rparr>)
          (filter (\<lambda>s. alive (su_ring s)) (pe_subs e))))"
proof -
  let ?d = "r_desc r"
  have pv: "shared_pv S" by (rule delta_pv.axioms(1) [OF assms(5)])
  from delta_pv.entry_run_typed [OF assms(5,7,8), of paths ts] assms(9,10)
  have e: "introspection (pe_pv e) = Some ?d" "history_ok tb paths ?d h" by (auto simp: typed_entry_def)
  from shared_pv.entry_run_inv [OF pv assms(7), of ts paths ops] assms(9,10)
  have h: "h \<noteq> []" "sp_current S (pe_pv e) = Some (fst (last h))" by (auto simp: entry_inv_def)
  with e(2) have d: "wf_desc ?d" "conforms ?d (fst (last h))" by (auto simp: history_ok_def)
  from assigned_leaves_sent [OF assms(1-3) d(1) assms(11-14)] put_leaves_nonempty [OF assms(15)]
  have ls: "ls \<noteq> []" "marked_leaves tb [] r' = Inr ls"
    "\<forall>(q, v) \<in> set ls. field_at (r_field r') q = Some v \<and> (\<exists>(key, _) \<in> set kos. prefix (segments key) (segments q))"
    "\<forall>i < length kos. outs ! i = Ok () \<and> fst (kos ! i) \<noteq> [] \<and>
        (\<exists>c. desc_at ?d (fst (kos ! i)) = Some c \<and> \<not> is_structure c) \<longrightarrow> (\<exists>v. (fst (kos ! i), v) \<in> set ls)"
    by auto
  from assign_items_marks [OF assms(1-3) d(1) assms(11,13,14)]
  have "r_desc r' = ?d" "conforms (r_desc r') (r_field r')" by auto
  with marked_leaves_iff [OF assms(3), of r'] ls(2) d(1)
  have leaf: "\<forall>(q, v) \<in> set ls. clean_path q \<and> leaf_of ?d (segments q)"
    by (auto simp: leaf_of_iff desc_at_def)
  note cov = delivered_cover [OF assms(2,3,16) leaf]
  from ls(1) leaf obtain q v where qv: "(q, v) \<in> set ls" "clean_path q" "leaf_of ?d (segments q)" by (cases ls) auto
  with cov [OF qv(2,3)] have ne: "changes \<noteq> {}" by (force simp: cover_def covered_def)
  have delta: "conforms ?d delta" "\<forall>(q, v) \<in> set ls. field_at delta q = Some v"
    using assms(16) by (auto simp: put_delivers_def)
  have w: "ac_write checked" and seen: "replies = [Inl ''post failed''] \<and> e' = e \<or>
     replies = [Inr None] \<and>
     (\<exists>prior p v. sp_current S (pe_pv e) = Some prior \<and>
        sp_post_delta S changes (fill ?d changes delta prior) (pe_pv e) = Inr p \<and> sp_current S p = Some v \<and>
        entry_current S e' = Some \<lparr>r_desc = ?d, r_field = v, r_marks = pe_marks e \<union> changes\<rparr> \<and>
        pe_subs e' = map (\<lambda>s. s\<lparr>su_posts := su_posts s @
            [(v, case su_kind s of SubMarked \<Rightarrow> Some (paths ?d changes) | SubPlain \<Rightarrow> None)]\<rparr>)
          (filter (\<lambda>s. alive (su_ring s)) (pe_subs e)))"
    using accepted_put_is_seen [OF pv assms(17), of ts paths alive replies e'] assms(10,18,19) ne by auto
  from seen show ?thesis
  proof (elim disjE conjE exE)
    fix prior p v
    assume a: "replies = [Inr None]" "sp_current S (pe_pv e) = Some prior"
      "sp_post_delta S changes (fill ?d changes delta prior) (pe_pv e) = Inr p" "sp_current S p = Some v"
      "entry_current S e' = Some \<lparr>r_desc = ?d, r_field = v, r_marks = pe_marks e \<union> changes\<rparr>"
      and subs: "pe_subs e' = map (\<lambda>s. s\<lparr>su_posts := su_posts s @
            [(v, case su_kind s of SubMarked \<Rightarrow> Some (paths ?d changes) | SubPlain \<Rightarrow> None)]\<rparr>)
          (filter (\<lambda>s. alive (su_ring s)) (pe_subs e))"
    with h(2) d(2) have prior: "conforms ?d prior" by simp
    note v = stored_leaves [OF assms(4,5) e(1) d(1) delta(1) prior a(2-4)]
    have "field_at v q = field_at (if q \<in> fst ` set ls then r_field r' else prior) q"
      if q: "clean_path q" "leaf_of ?d (segments q)" for q
    proof -
      have "field_at v q = field_at (if q \<in> fst ` set ls then delta else prior) q"
        using fun_cong [OF v, of "segments q"] cov [OF q] q(2) by (simp add: leaves_def field_at_def split: if_splits)
      then show ?thesis using delta(2) ls(3) by fastforce
    qed
    moreover have "(\<exists>k \<in> set (paths ?d changes). prefix (segments k) (segments q)) = (q \<in> fst ` set ls)"
      if "clean_path q" "leaf_of ?d (segments q)" for q
      using assms(6) d(1) that cov [OF that] by (auto simp: paths_cover_def cover_def)
    moreover have "sp_current S (pe_pv e') = Some v"
      using a(5) by (auto simp: entry_current_def split: option.splits)
    moreover have "\<forall>i < length kos. outs ! i = Ok () \<and> fst (kos ! i) \<noteq> [] \<and>
        (\<exists>c. desc_at ?d (fst (kos ! i)) = Some c \<and> \<not> is_structure c) \<longrightarrow> fst (kos ! i) \<in> fst ` set ls"
      using ls(4) by force
    moreover have "\<forall>q \<in> fst ` set ls. \<exists>(key, _) \<in> set kos. prefix (segments key) (segments q)" using ls(3) by auto
    ultimately show ?thesis using w a(1,2) subs by blast
  qed (use w in blast)
qed

text \<open>A script that assigns one member of a pair, and the PV that serves the pair.\<close>

definition pair_served :: "typed_value pv_entry" where
  "pair_served = fst (entry_run (\<lambda>_. []) typed_pv ref_paths [EOpen pair_desc (pair_of 1 2) {0}, ESubscribe SubMarked 7] None)"

definition pair_value :: "i32 \<Rightarrow> nat set \<Rightarrow> root" where
  "pair_value x m = \<lparr>r_desc = pair_desc, r_field = pair_of x 2, r_marks = m\<rparr>"

lemma pair_at: "desc_at pair_desc ''x'' = Some (DScalar StInt)" "clean_path ''x''" "segments ''x'' = [''x'']"
  "clean_path ''y''" "segments ''y'' = [''y'']" "ref_bit_for_path pair_desc ''x'' = Some 1"
  "field_at (pair_of x y) ''x'' = Some (FScalar (SvInt x))" "field_at (pair_of x y) ''y'' = Some (FScalar (SvInt y))"
  "field_at_mut (pair_of x y) ''x'' (\<lambda>_. FScalar (SvInt z)) = Some (pair_of z y)"
  by (simp_all add: pair_desc_def pair_of_def desc_at_def field_at_def field_at_mut_def clean_path_def segments_def
      ref_bit_for_path_def)

lemma pair_assigned:
  "assign_items ref_lib ref_bits ref_bit_for_path 5 [(''x'', PInt 5)] (pair_value 1 {}) = (pair_value 5 {1}, [Ok ()])"
  by (simp add: setitem_def assign_at_def eval_nat_numeral store_def py_to_scalar_def fits_i128_def i128_to_scalar_def Let_def
      pair_value_def pair_at)

lemma pair_leaves: "put_leaves ref_bits ([], pair_value 5 {1}) = Inr [(''x'', FScalar (SvInt 5))]"
  by (simp add: put_leaves_def marked_leaves_def snapshot_def with_root_def pair_value_def pair_desc_def
      collect_marked.simps map_filter_def pair_at)

lemma pair_served_eval:
  "pair_served = \<lparr>pe_pv = Some (pair_desc, pair_of 1 2),
     pe_subs = [\<lparr>su_ring = 7, su_kind = SubMarked, su_seed = pair_of 1 2, su_posts = []\<rparr>], pe_marks = {0},
     pe_opened = Some pair_desc\<rparr>"
  by (simp add: pair_served_def entry_run_def entry_step_def entry_open_def entry_subscribe_def pv_entry_new_def typed_pv_def)

theorem client_put_reaches_pv_witness:
  "\<exists>op e' v. put_delta_checked ref_fill (\<lambda>_ _. OpDenied []) (\<lambda>a. sp_current typed_pv (pe_pv pair_served)) [''pv'' \<mapsto> 0]
       \<lparr>ac_name = ''pv'', ac_read = True, ac_write = True\<rparr> pair_desc {1} (pair_of 5 0) any_ctx = Inr (0, op) \<and>
     post_and_done (\<lambda>_. []) typed_pv ref_paths (\<lambda>_. True) (op\<lparr>op_reply_slot := True\<rparr>) pair_served = ([Inr None], e') \<and>
     sp_current typed_pv (pe_pv e') = Some v \<and> field_at v ''x'' = Some (FScalar (SvInt 5)) \<and>
     field_at v ''y'' = Some (FScalar (SvInt 2))"
proof -
  let ?checked = "\<lparr>ac_name = ''pv'', ac_read = True, ac_write = True\<rparr>"
  have served: "pe_pv pair_served = Some (pair_desc, pair_of 1 2)" "pe_opened pair_served = Some pair_desc"
    by (simp_all add: pair_served_eval)
  have "utf8_valid ''pv''" by (simp add: Let_def)
  then obtain op where op: "put_delta_checked ref_fill (\<lambda>_ _. OpDenied []) (\<lambda>a. sp_current typed_pv (pe_pv ((\<lambda>_. pair_served) a)))
      [''pv'' \<mapsto> 0] ?checked pair_desc {1} (pair_of 5 0) any_ctx = Inr (0, op)"
    by (simp add: put_delta_checked_def source_entry_def served typed_pv_def)
  obtain replies e' where h: "post_and_done (\<lambda>_. []) typed_pv ref_paths (\<lambda>_. True) (op\<lparr>op_reply_slot := True\<rparr>) pair_served = (replies, e')"
    by (metis surj_pair)
  have posted: "replies \<noteq> [Inl ''post failed'']"
  proof -
    have "op_desc op = pair_desc" "op_marks op = {1}" "op_kind op = OpPut"
      using op by (auto simp: put_delta_checked_def split: if_splits option.splits)
    with h show ?thesis
      by (auto simp: post_and_done_def entry_post_def pva_op_value_def from_parts_def served typed_pv_def
          pva_done_def finish_def Let_def)
  qed
  obtain hist where run: "entry_run (\<lambda>_. []) typed_pv ref_paths [EOpen pair_desc (pair_of 1 2) {0}, ESubscribe SubMarked 7] None =
      (pair_served, hist)"
    unfolding pair_served_def by (metis prod.collapse)
  have d: "pair_desc = r_desc (pair_value 1 {})" by (simp add: pair_value_def)
  have del: "put_delivers ref_bit_for_path pair_desc [(''x'', FScalar (SvInt 5))] {1} (pair_of 5 0)"
    by (simp add: put_delivers_def pair_at)
  from client_put_reaches_pv [where r = "pair_value 1 {}" and kos = "[(''x'', PInt 5)]" and pvs = "\<lambda>_. pair_served",
      OF ref_lib_types ref_bits_ok ref_bit_for_path_ok ref.overlaying_axioms typed_pv.delta_pv_axioms ref_paths_cover
        _ _ run _ _ _ _ pair_assigned pair_leaves del [unfolded d] op [unfolded d] refl h] posted
  obtain v where v: "replies = [Inr None]" "sp_current typed_pv (pe_pv e') = Some v"
    "\<forall>q. clean_path q \<longrightarrow> leaf_of pair_desc (segments q) \<longrightarrow>
       field_at v q = field_at (if q = ''x'' then pair_of 5 2 else pair_of 1 2) q"
    by (auto simp: pair_value_def served pair_at typed_pv_def)
  from v(3) have "field_at v ''x'' = Some (FScalar (SvInt 5))" "field_at v ''y'' = Some (FScalar (SvInt 2))"
    by (simp_all add: pair_at pair_leaf)
  with v(1,2) op h show ?thesis by auto
qed

end
